(* ===== verification/Prelude.thy ===== *)
theory Prelude
  imports Main "HOL-Library.Word" "HOL-Library.Sublist" "HOL-Library.Char_ord"
begin

text \<open>
  What the components share: C strings and the part of the C library the sources call
  (\<^verbatim>\<open>string.h\<close>, \<^verbatim>\<open>ctype.h\<close>, \<^verbatim>\<open>strtol\<close>, \<^verbatim>\<open>sscanf\<close> with \<^verbatim>\<open>%d\<close>, \<^verbatim>\<open>strtok_r\<close>,
  \<^verbatim>\<open>fgets\<close>), the faults a computation can end in, and the generic lemmas on them.

  A C string is the list of its bytes up to, and not including, the terminating NUL; a
  pointer into it is the list of the bytes from there on. The pointer to the NUL itself is
  the empty list. A read past the NUL is never a value of the model: a definition in which
  the source can do it returns the fault \<open>Out_of_bounds\<close>, and releasing a block that is not a
  live heap block is the fault \<open>Invalid_free\<close>. An allocation that fails is the
  fault \<open>Alloc_failed\<close>; which requests succeed is a parameter \<open>ok\<close> of the definitions, a
  predicate on the number of bytes asked for.
\<close>

unbundle bit_operations_syntax

named_theorems cstr_simps \<open>evaluation rules of the C library functions\<close>
named_theorems sbind_elims \<open>inversion rules for results of fallible code\<close>

subsection \<open>Fallible code\<close>

datatype cfault = Alloc_failed | Out_of_bounds | Invalid_free

type_synonym 'a cres = "cfault + 'a"

type_synonym cstr = "char list"

definition sbind :: "'e + 'a \<Rightarrow> ('a \<Rightarrow> 'e + 'b) \<Rightarrow> 'e + 'b" where
  "sbind m f = (case m of Inl e \<Rightarrow> Inl e | Inr x \<Rightarrow> f x)"

lemma sbind_Inl [simp]: "sbind (Inl e) f = Inl e"
  by (simp add: sbind_def)

lemma sbind_Inr [simp]: "sbind (Inr x) f = f x"
  by (simp add: sbind_def)

lemma sbind_eq_Inr_iff: "sbind m f = Inr y \<longleftrightarrow> (\<exists>x. m = Inr x \<and> f x = Inr y)"
  by (cases m) auto

lemma sbind_eq_Inl_iff:
  "sbind m f = Inl e \<longleftrightarrow> m = Inl e \<or> (\<exists>x. m = Inr x \<and> f x = Inl e)"
  by (cases m) auto

lemma sbind_InrE [sbind_elims]:
  assumes "sbind m f = Inr y"
  obtains x where "m = Inr x" and "f x = Inr y"
  using assms by (auto simp: sbind_eq_Inr_iff)

lemma sbind_cong [fundef_cong]:
  "m = m' \<Longrightarrow> (\<And>x. m' = Inr x \<Longrightarrow> f x = f' x) \<Longrightarrow> sbind m f = sbind m' f'"
  by (cases m') auto

text \<open>A fault that memory alone explains: code whose faults are all of this kind returns
  whenever every request is granted.\<close>

definition alloc_fault :: "(nat \<Rightarrow> bool) \<Rightarrow> cfault \<Rightarrow> bool" where
  "alloc_fault alloc e \<longleftrightarrow> e = Alloc_failed \<and> (\<exists>n. \<not> alloc n)"

lemma alloc_faultI [intro]: "\<not> alloc n \<Longrightarrow> alloc_fault alloc Alloc_failed"
  by (auto simp: alloc_fault_def)

lemma alloc_fault_always [simp]: "\<not> alloc_fault (\<lambda>_. True) e"
  by (simp add: alloc_fault_def)

lemma alloc_fault_no_oob [simp]: "\<not> alloc_fault alloc Out_of_bounds"
    "\<not> alloc_fault alloc Invalid_free"
  by (simp_all add: alloc_fault_def)

subsection \<open>Characters\<close>

abbreviation NUL :: char where "NUL \<equiv> CHR 0x00"
abbreviation LF :: char where "LF \<equiv> CHR 0x0A"
abbreviation CR :: char where "CR \<equiv> CHR 0x0D"
abbreviation SP :: char where "SP \<equiv> CHR 0x20"
abbreviation DQ :: char where "DQ \<equiv> CHR 0x22"
abbreviation BSL :: char where "BSL \<equiv> CHR 0x5C"

definition code :: "char \<Rightarrow> nat" where
  "code c = of_char c"

definition byte_of :: "char \<Rightarrow> 8 word" where
  "byte_of c = of_char c"

text \<open>\<^verbatim>\<open>isspace\<close> and friends in the C locale.\<close>

definition isspace :: "char \<Rightarrow> bool" where
  "isspace c \<longleftrightarrow> c = SP \<or> (9 \<le> code c \<and> code c \<le> 13)"

definition isdigit :: "char \<Rightarrow> bool" where
  "isdigit c \<longleftrightarrow> 48 \<le> code c \<and> code c \<le> 57"

definition isalpha :: "char \<Rightarrow> bool" where
  "isalpha c \<longleftrightarrow> (65 \<le> code c \<and> code c \<le> 90) \<or> (97 \<le> code c \<and> code c \<le> 122)"

definition tolower :: "char \<Rightarrow> char" where
  "tolower c = (if 65 \<le> code c \<and> code c \<le> 90 then char_of (code c + 32) else c)"

definition digit_val :: "char \<Rightarrow> int" where
  "digit_val c = int (code c) - 48"

lemma code_inject [simp]: "code c = code d \<longleftrightarrow> c = d"
  by (simp add: code_def)

lemma code_less: "code c < 256"
  by (simp add: code_def)

text \<open>Code equations over the integers, whose numerals are binary.\<close>

lemma code_int: "int (code c) = of_char c"
  by (simp add: code_def of_nat_of_char)

lemma ctype_code [code]:
  "isspace c \<longleftrightarrow> c = SP \<or> (9 \<le> (of_char c :: int) \<and> of_char c \<le> (13 :: int))"
  "isdigit c \<longleftrightarrow> 48 \<le> (of_char c :: int) \<and> of_char c \<le> (57 :: int)"
  "isalpha c \<longleftrightarrow> (65 \<le> (of_char c :: int) \<and> of_char c \<le> (90 :: int)) \<or>
     (97 \<le> (of_char c :: int) \<and> of_char c \<le> (122 :: int))"
  unfolding isspace_def isdigit_def isalpha_def code_int [symmetric] by simp_all

lemma tolower_code [code]:
  "tolower c = (let n = of_char c :: int in if 65 \<le> n \<and> n \<le> 90 then char_of (n + 32) else c)"
proof -
  have "char_of (int (code c) + 32) = char_of (code c + 32)"
    using char_of_nat [of "code c + 32", where 'a = int] by simp
  then show ?thesis unfolding tolower_def code_int [symmetric] Let_def by simp
qed

lemma digit_val_code [code]: "digit_val c = of_char c - 48"
  by (simp add: digit_val_def code_int)

lemma byte_of_code: "byte_of c = of_nat (code c)"
  by (simp add: byte_of_def code_def of_nat_of_char)

lemma isspace_SP [simp]: "isspace SP" and isspace_LF [simp]: "isspace LF"
  and isspace_CR [simp]: "isspace CR"
  by (simp_all add: isspace_def code_def)

lemma isdigit_not_isspace: "isdigit c \<Longrightarrow> \<not> isspace c"
  by (auto simp: isdigit_def isspace_def code_def)

subsection \<open>Strings\<close>

text \<open>The string a byte buffer holds: everything before the first NUL.\<close>

definition cstr_of :: "char list \<Rightarrow> cstr" where
  "cstr_of bs = takeWhile (\<lambda>c. c \<noteq> NUL) bs"

text \<open>\<^verbatim>\<open>strncmp(s, lit, strlen(lit)) == 0\<close> and its case-insensitive variant.\<close>

definition starts :: "cstr \<Rightarrow> cstr \<Rightarrow> bool" where
  "starts lit s \<longleftrightarrow> prefix lit s"

definition starts_ci :: "cstr \<Rightarrow> cstr \<Rightarrow> bool" where
  "starts_ci lit s \<longleftrightarrow> prefix (map tolower lit) (map tolower s)"

definition strcasecmp_eq :: "cstr \<Rightarrow> cstr \<Rightarrow> bool" where
  "strcasecmp_eq a b \<longleftrightarrow> map tolower a = map tolower b"

text \<open>\<^verbatim>\<open>strchr\<close> and \<^verbatim>\<open>strstr\<close> return a pointer: the suffix that starts at the match.\<close>

definition strchr :: "char \<Rightarrow> cstr \<Rightarrow> cstr option" where
  "strchr c s = (let r = dropWhile (\<lambda>x. x \<noteq> c) s in if r = [] then None else Some r)"

fun strstr :: "cstr \<Rightarrow> cstr \<Rightarrow> cstr option" where
  "strstr pat [] = (if pat = [] then Some [] else None)"
| "strstr pat (x # xs) = (if starts pat (x # xs) then Some (x # xs) else strstr pat xs)"

definition lstrip :: "cstr \<Rightarrow> cstr" where
  "lstrip s = dropWhile isspace s"

definition rstrip_by :: "(char \<Rightarrow> bool) \<Rightarrow> cstr \<Rightarrow> cstr" where
  "rstrip_by P s = rev (dropWhile P (rev s))"

lemma starts_Nil [simp]: "starts [] s"
  by (simp add: starts_def)

lemma starts_Cons_Nil [simp]: "\<not> starts (x # xs) []"
  by (simp add: starts_def)

lemma starts_Cons [simp]: "starts (x # xs) (y # ys) \<longleftrightarrow> x = y \<and> starts xs ys"
  by (simp add: starts_def)

lemma starts_length: "starts lit s \<Longrightarrow> length lit \<le> length s"
  by (simp add: starts_def prefix_length_le)

lemma starts_split: "starts lit s \<Longrightarrow> s = lit @ drop (length lit) s"
  by (auto simp: starts_def prefix_def)

lemma starts_ci_length: "starts_ci lit s \<Longrightarrow> length lit \<le> length s"
  by (auto simp: starts_ci_def dest!: prefix_length_le)

lemma tolower_nonalpha: "\<not> isalpha d \<Longrightarrow> tolower c = d \<longleftrightarrow> c = d"
proof -
  assume d: "\<not> isalpha d"
  have "isalpha (tolower c)" if "65 \<le> code c" "code c \<le> 90"
    using that by (simp add: tolower_def isalpha_def code_def)
  with d show ?thesis by (auto simp: tolower_def isalpha_def)
qed

lemma starts_ci_angle: "c \<noteq> CHR ''<'' \<Longrightarrow> \<not> starts_ci (CHR ''<'' # t) (c # p)"
proof -
  assume "c \<noteq> CHR ''<''"
  then have "tolower c \<noteq> CHR ''<''" by (simp add: tolower_nonalpha isalpha_def code_def)
  moreover have "tolower (CHR ''<'') = CHR ''<''" by (simp add: tolower_def code_def)
  ultimately show ?thesis by (simp add: starts_ci_def)
qed

lemma strchr_None: "strchr c s = None \<longleftrightarrow> c \<notin> set s"
  by (auto simp: strchr_def Let_def dropWhile_eq_Nil_conv)

lemma strchr_Cons [simp]: "strchr d (c # cs) = (if c = d then Some (c # cs) else strchr d cs)"
  by (simp add: strchr_def)

lemma strchr_append: "c \<notin> set s \<Longrightarrow> strchr c (s @ p) = strchr c p"
  by (induction s) auto

lemma strchr_Nil [simp]: "strchr d [] = None"
  by (simp add: strchr_def)

lemma strchr_Some_Cons: "strchr c s = Some r \<Longrightarrow> \<exists>q. r = c # q"
  by (cases r) (auto simp: strchr_def Let_def dropWhile_eq_Cons_conv split: if_splits)

lemma strchr_Some_suffix:
  assumes "strchr c s = Some r"
  shows "s = takeWhile (\<lambda>x. x \<noteq> c) s @ r" and "suffix r s"
proof -
  from assms have r: "r = dropWhile (\<lambda>x. x \<noteq> c) s"
    by (auto simp: strchr_def Let_def split: if_splits)
  then show "s = takeWhile (\<lambda>x. x \<noteq> c) s @ r" by simp
  then show "suffix r s" unfolding suffix_def by blast
qed

lemma strchr_length_le: "strchr c s = Some r \<Longrightarrow> length r \<le> length s"
  using strchr_Some_suffix(2) suffix_length_le by blast

lemma strstr_suffix: "strstr pat s = Some r \<Longrightarrow> suffix r s \<and> starts pat r"
  by (induction pat s rule: strstr.induct) (auto split: if_splits simp: suffix_Cons)

lemma rstrip_by_prefix: "prefix (rstrip_by P s) s"
  using suffix_dropWhile [of P "rev s"] by (simp add: rstrip_by_def suffix_to_prefix)

lemma rstrip_by_last: "rstrip_by P s \<noteq> [] \<Longrightarrow> \<not> P (last (rstrip_by P s))"
  using hd_dropWhile [of P "rev s"] by (simp add: rstrip_by_def last_rev)

lemma rstrip_by_id: "s = [] \<or> \<not> P (last s) \<Longrightarrow> rstrip_by P s = s"
  using dropWhile_eq_self_iff [of P "rev s"] by (simp add: rstrip_by_def hd_rev)

end
