(* ===== verification/Srt_types.thy ===== *)
theory Srt_types
  imports Prelude
begin

text \<open>
  The structures of \<^verbatim>\<open>srt_parser.h\<close>: a parsed cue, the parser's configuration and the
  statistics it collects. \<^verbatim>\<open>int\<close> and \<^verbatim>\<open>int64_t\<close> members are integers; the arithmetic that
  can leave their range is written out where it is done. A \<^verbatim>\<open>NULL\<close> pointer is \<open>None\<close>.
\<close>

record SRTEntry =
  start_ms :: int
  end_ms :: int
  entry_text :: cstr
  alignment :: int

datatype SRTValidationLevel = SRT_VALIDATE_STRICT | SRT_VALIDATE_LENIENT | SRT_VALIDATE_AUTO_FIX

record SRTParserConfig =
  cfg_use_ass :: bool
  cfg_video_w :: int
  cfg_video_h :: int
  cfg_validation_level :: SRTValidationLevel
  cfg_max_line_length :: int
  cfg_max_line_count :: int
  cfg_auto_fix_duplicates :: bool
  cfg_auto_fix_encoding :: bool
  cfg_warn_on_short_duration :: bool
  cfg_warn_on_long_duration :: bool

record SRTParserStats =
  total_cues :: int
  valid_cues :: int
  skipped_cues :: int
  duplicate_ids_fixed :: int
  sequences_fixed :: int
  overlaps_corrected :: int
  encoding_errors_fixed :: int
  encoding_warnings :: int
  timing_warnings :: int
  validation_warnings :: int
  min_duration :: int
  max_duration :: int
  avg_duration :: int
  min_gap :: int
  max_gap :: int

text \<open>\<^verbatim>\<open>{0}\<close> and \<^verbatim>\<open>memset(stats, 0, sizeof *stats)\<close>.\<close>

definition zero_stats :: SRTParserStats where
  "zero_stats =
     \<lparr>total_cues = 0, valid_cues = 0, skipped_cues = 0, duplicate_ids_fixed = 0,
      sequences_fixed = 0, overlaps_corrected = 0, encoding_errors_fixed = 0,
      encoding_warnings = 0, timing_warnings = 0, validation_warnings = 0,
      min_duration = 0, max_duration = 0, avg_duration = 0, min_gap = 0, max_gap = 0\<rparr>"

text \<open>\<^verbatim>\<open>if (stats) stats->field++\<close>.\<close>

abbreviation bump :: "((int \<Rightarrow> int) \<Rightarrow> SRTParserStats \<Rightarrow> SRTParserStats) \<Rightarrow>
    SRTParserStats option \<Rightarrow> SRTParserStats option" where
  "bump upd \<equiv> map_option (upd (\<lambda>n. n + 1))"

end
