(* ===== verification/Utf8_text.thy ===== *)
theory Utf8_text
  imports Srt_types
begin

text \<open>
  The byte-level text helpers of \<^verbatim>\<open>srt_parser.c\<close>: counting code points (\<^verbatim>\<open>u8_len\<close>,
  \<^verbatim>\<open>visible_len\<close>), checking and repairing UTF-8 (\<^verbatim>\<open>validate_utf8_sequence\<close>, the loop of
  \<^verbatim>\<open>sanitize_utf8\<close>), removing tags (\<^verbatim>\<open>strip_tags\<close>), trailing line ends (\<^verbatim>\<open>rstrip\<close>) and the ASS
  escape \<^verbatim>\<open>\h\<close>. The lemmas say what the counters count, that repairing gives well-formed
  text and is the identity on well-formed text, and that stripping leaves no tag behind.
\<close>

subsection \<open>Byte classes\<close>

definition is_ascii :: "char \<Rightarrow> bool" where
  "is_ascii c \<longleftrightarrow> byte_of c AND 0x80 = 0"

definition is_lead2 :: "char \<Rightarrow> bool" where
  "is_lead2 c \<longleftrightarrow> byte_of c AND 0xE0 = 0xC0"

definition is_lead3 :: "char \<Rightarrow> bool" where
  "is_lead3 c \<longleftrightarrow> byte_of c AND 0xF0 = 0xE0"

definition is_lead4 :: "char \<Rightarrow> bool" where
  "is_lead4 c \<longleftrightarrow> byte_of c AND 0xF8 = 0xF0"

definition is_cont :: "char \<Rightarrow> bool" where
  "is_cont c \<longleftrightarrow> byte_of c AND 0xC0 = 0x80"

lemmas byte_class_defs = is_ascii_def is_lead2_def is_lead3_def is_lead4_def is_cont_def

text \<open>The byte \<open>i\<close> places on is there (is not the NUL) and is a continuation byte.\<close>

definition cont_at :: "cstr \<Rightarrow> nat \<Rightarrow> bool" where
  "cont_at p i \<longleftrightarrow> i < length p \<and> is_cont (p ! i)"

lemma and_mask_shrink: "(x :: 'a :: len word) AND m = v \<Longrightarrow> x AND (m AND k) = v AND k"
  by (simp add: and.assoc [symmetric])

lemma ascii_not_cont: "is_ascii c \<Longrightarrow> \<not> is_cont c"
  using and_mask_shrink [of "byte_of c" "0xC0" "0x80" "0x80"] by (auto simp: byte_class_defs)

lemma lead2_not_ascii: "is_lead2 c \<Longrightarrow> \<not> is_ascii c \<and> \<not> is_cont c"
  using and_mask_shrink [of "byte_of c" "0xE0" "0xC0" "0x80"]
    and_mask_shrink [of "byte_of c" "0xE0" "0xC0" "0xC0"] by (auto simp: byte_class_defs)

lemma lead3_not_ascii: "is_lead3 c \<Longrightarrow> \<not> is_ascii c \<and> \<not> is_lead2 c \<and> \<not> is_cont c"
  using and_mask_shrink [of "byte_of c" "0xF0" "0xE0" "0x80"]
    and_mask_shrink [of "byte_of c" "0xF0" "0xE0" "0xC0"]
    and_mask_shrink [of "byte_of c" "0xF0" "0xE0" "0xE0"] by (auto simp: byte_class_defs)

lemma lead4_not_ascii:
  "is_lead4 c \<Longrightarrow> \<not> is_ascii c \<and> \<not> is_lead2 c \<and> \<not> is_lead3 c \<and> \<not> is_cont c"
  using and_mask_shrink [of "byte_of c" "0xF8" "0xF0" "0x80"]
    and_mask_shrink [of "byte_of c" "0xF8" "0xF0" "0xC0"]
    and_mask_shrink [of "byte_of c" "0xF8" "0xF0" "0xE0"]
    and_mask_shrink [of "byte_of c" "0xF8" "0xF0" "0xF0"] by (auto simp: byte_class_defs)

lemmas byte_class_disjoint = ascii_not_cont lead2_not_ascii lead3_not_ascii lead4_not_ascii

lemma is_ascii_question [simp]: "is_ascii (CHR ''?'')"
  by (simp add: is_ascii_def byte_of_def)

subsection \<open>Counting code points\<close>

text \<open>How far the walk of \<^verbatim>\<open>u8_len\<close> and \<^verbatim>\<open>visible_len\<close> advances from a byte.\<close>

definition u8_step :: "cstr \<Rightarrow> nat" where
  "u8_step p =
     (case p of
        [] \<Rightarrow> 0
      | c # _ \<Rightarrow>
          if is_ascii c then 1
          else if is_lead2 c \<and> cont_at p 1 then 2
          else if is_lead3 c \<and> cont_at p 1 \<and> cont_at p 2 then 3
          else if is_lead4 c \<and> cont_at p 1 \<and> cont_at p 2 \<and> cont_at p 3 then 4
          else 1)"

lemma u8_step_pos: "p \<noteq> [] \<Longrightarrow> 0 < u8_step p"
  by (cases p) (auto simp: u8_step_def)

lemma u8_step_le: "u8_step p \<le> length p"
  by (cases p) (auto simp: u8_step_def cont_at_def Suc_le_eq)

function u8_len :: "cstr \<Rightarrow> nat" where
  "u8_len p = (if p = [] then 0 else 1 + u8_len (drop (u8_step p) p))"
  by pat_completeness auto
termination
  by (relation "measure length") (auto simp: u8_step_pos)

declare u8_len.simps [simp del]

function visible_len :: "cstr \<Rightarrow> nat" where
  "visible_len p =
     (case p of
        [] \<Rightarrow> 0
      | c # _ \<Rightarrow>
          (case (if c = CHR ''<'' then strchr (CHR ''>'') p else None) of
             Some q \<Rightarrow> visible_len (tl q)
           | None \<Rightarrow>
               (case (if c = CHR ''{'' then strchr (CHR ''}'') p else None) of
                  Some q \<Rightarrow> visible_len (tl q)
                | None \<Rightarrow> 1 + visible_len (drop (u8_step p) p))))"
  by pat_completeness auto

termination visible_len
  by (relation "measure length")
    (auto simp: u8_step_pos split: if_splits dest: strchr_length_le)

declare visible_len.simps [simp del]

text \<open>
  A walk over a string: a positive step that stays inside the string and a counter that
  adds one per step. Both counters of the parser walk this way.
\<close>

locale walk =
  fixes step :: "'a list \<Rightarrow> nat" and cnt :: "'a list \<Rightarrow> nat"
  assumes step_pos: "p \<noteq> [] \<Longrightarrow> 0 < step p"
    and step_le: "step p \<le> length p"
    and cnt_Nil: "cnt [] = 0"
    and cnt_step: "p \<noteq> [] \<Longrightarrow> cnt p = 1 + cnt (drop (step p) p)"
begin

lemma cnt_le_length: "cnt p \<le> length p"
proof (induction p rule: length_induct)
  case (1 p)
  show ?case
  proof (cases "p = []")
    case True
    then show ?thesis by (simp add: cnt_Nil)
  next
    case False
    then have "length (drop (step p) p) < length p" using step_pos [of p] by simp
    with 1 have "cnt (drop (step p) p) \<le> length (drop (step p) p)" by blast
    with False show ?thesis using step_pos [of p] step_le [of p] by (simp add: cnt_step)
  qed
qed

lemma cnt_zero_iff: "cnt p = 0 \<longleftrightarrow> p = []"
  using cnt_Nil cnt_step by (cases "p = []") auto

text \<open>Where every step starts on a marked byte and skips only unmarked ones, the counter
  counts the marked bytes.\<close>

lemma cnt_marks:
  assumes "P p"
    and closed: "\<And>q. q \<noteq> [] \<Longrightarrow> P q \<Longrightarrow> P (drop (step q) q)"
    and marked: "\<And>q. q \<noteq> [] \<Longrightarrow> P q \<Longrightarrow> length (filter M (take (step q) q)) = 1"
  shows "cnt p = length (filter M p)"
  using \<open>P p\<close>
proof (induction p rule: length_induct)
  case (1 p)
  show ?case
  proof (cases "p = []")
    case True
    then show ?thesis by (simp add: cnt_Nil)
  next
    case False
    then have "length (drop (step p) p) < length p" using step_pos [of p] by simp
    with 1 closed False have IH: "cnt (drop (step p) p) = length (filter M (drop (step p) p))"
      by auto
    have "length (filter M p) =
        length (filter M (take (step p) p)) + length (filter M (drop (step p) p))"
      by (metis append_take_drop_id filter_append length_append)
    with IH marked [OF False 1(2)] show ?thesis using False by (simp add: cnt_step)
  qed
qed

end

interpretation u8: walk u8_step u8_len
  by unfold_locales (auto simp: u8_step_pos u8_step_le u8_len.simps)

subsection \<open>Validation and repair\<close>

text \<open>
  \<^verbatim>\<open>validate_utf8_sequence(s, len, sanitize)\<close>: the argument is the \<^verbatim>\<open>len\<close> bytes at \<^verbatim>\<open>s\<close>; the
  result is the return value and the bytes afterwards.
\<close>

definition validate_utf8_sequence :: "char list \<Rightarrow> bool \<Rightarrow> bool \<times> char list" where
  "validate_utf8_sequence s sanitize =
     (case s of
        [] \<Rightarrow> (True, s)
      | c # t \<Rightarrow>
          let bad = (False, if sanitize then CHR ''?'' # t else s)
          in if is_ascii c then (True, s)
             else if is_lead2 c then
               (if length s < 2 \<or> \<not> is_cont (s ! 1) then bad else (True, s))
             else if is_lead3 c then
               (if length s < 3 \<or> \<not> is_cont (s ! 1) \<or> \<not> is_cont (s ! 2) then bad else (True, s))
             else if is_lead4 c then
               (if length s < 4 \<or> \<not> is_cont (s ! 1) \<or> \<not> is_cont (s ! 2) \<or> \<not> is_cont (s ! 3)
                then bad else (True, s))
             else bad)"

text \<open>``Skip this codepoint'' in the loop: by the lead byte alone.\<close>

definition lead_skip :: "char \<Rightarrow> nat" where
  "lead_skip c =
     (if is_ascii c then 1 else if is_lead2 c then 2 else if is_lead3 c then 3
      else if is_lead4 c then 4 else 1)"

lemma lead_skip_pos [simp]: "0 < lead_skip c"
  by (simp add: lead_skip_def)

lemma lead_skip_nonzero [simp]: "lead_skip c \<noteq> 0"
  by (simp add: lead_skip_def)

lemma validate_length [simp]: "length (snd (validate_utf8_sequence s b)) = length s"
  by (cases s) (auto simp: validate_utf8_sequence_def Let_def)

lemma validate_true: "fst (validate_utf8_sequence s b) \<Longrightarrow> snd (validate_utf8_sequence s b) = s"
  by (cases s) (auto simp: validate_utf8_sequence_def Let_def split: if_splits)

lemma validate_false:
  "\<not> fst (validate_utf8_sequence s True) \<Longrightarrow>
   s \<noteq> [] \<and> snd (validate_utf8_sequence s True) = CHR ''?'' # tl s"
  by (cases s) (auto simp: validate_utf8_sequence_def Let_def split: if_splits)

lemma validate_skip_le:
  "s \<noteq> [] \<Longrightarrow> fst (validate_utf8_sequence s b) \<Longrightarrow> lead_skip (hd s) \<le> length s"
  by (cases s)
    (auto simp: validate_utf8_sequence_def lead_skip_def Let_def Suc_le_eq split: if_splits)

lemma validate_mode: "fst (validate_utf8_sequence s b) = fst (validate_utf8_sequence s b')"
  by (cases s) (auto simp: validate_utf8_sequence_def Let_def)

text \<open>The loop of \<^verbatim>\<open>sanitize_utf8\<close> from index \<^verbatim>\<open>i\<close> on: the repaired bytes and the errors found.\<close>

function sanitize_from :: "char list \<Rightarrow> char list \<times> nat" where
  "sanitize_from w =
     (if w = [] then ([], 0)
      else
        let v = validate_utf8_sequence w True;
            n = lead_skip (hd (snd v));
            r = sanitize_from (drop n (snd v))
        in (take n (snd v) @ fst r, (if fst v then snd r else Suc (snd r))))"
  by pat_completeness auto
termination
  by (relation "measure length") auto

declare sanitize_from.simps [simp del]

text \<open>Well-formed text: the concatenation of sequences that \<^verbatim>\<open>validate_utf8_sequence\<close> accepts.\<close>

function u8_valid :: "cstr \<Rightarrow> bool" where
  "u8_valid s =
     (if s = [] then True
      else fst (validate_utf8_sequence s False) \<and> u8_valid (drop (lead_skip (hd s)) s))"
  by pat_completeness auto
termination
  by (relation "measure length") auto

declare u8_valid.simps [simp del]

lemma u8_valid_Nil [simp]: "u8_valid []"
  by (simp add: u8_valid.simps)

text \<open>The two branches of one iteration.\<close>

lemma sanitize_from_ok:
  assumes "w \<noteq> []" and "fst (validate_utf8_sequence w True)"
  shows "sanitize_from w =
    (take (lead_skip (hd w)) w @ fst (sanitize_from (drop (lead_skip (hd w)) w)),
     snd (sanitize_from (drop (lead_skip (hd w)) w)))"
  using assms validate_true [of w True]
  by (subst sanitize_from.simps) (auto simp: Let_def split: prod.splits)

lemma sanitize_from_bad:
  assumes "w \<noteq> []" and "\<not> fst (validate_utf8_sequence w True)"
  shows "sanitize_from w =
    (CHR ''?'' # fst (sanitize_from (tl w)), Suc (snd (sanitize_from (tl w))))"
  using assms validate_false [of w]
  by (subst sanitize_from.simps) (auto simp: Let_def lead_skip_def split: prod.splits)

lemma sanitize_from_Nil [simp]: "sanitize_from [] = ([], 0)"
  by (simp add: sanitize_from.simps)

lemma sanitize_induct [case_names Nil Ok Bad]:
  assumes "P []"
    and "\<And>w. w \<noteq> [] \<Longrightarrow> fst (validate_utf8_sequence w True) \<Longrightarrow>
      P (drop (lead_skip (hd w)) w) \<Longrightarrow> P w"
    and "\<And>w. w \<noteq> [] \<Longrightarrow> \<not> fst (validate_utf8_sequence w True) \<Longrightarrow> P (tl w) \<Longrightarrow> P w"
  shows "P w"
proof (induction w rule: length_induct)
  case (1 w)
  show ?case
  proof (cases "w = []")
    case False
    then have "length (drop (lead_skip (hd w)) w) < length w" "length (tl w) < length w"
      by simp_all
    with 1 False assms(2,3) show ?thesis by blast
  qed (simp add: assms(1))
qed

lemma length_sanitize: "length (fst (sanitize_from w)) = length w"
proof (induction w rule: sanitize_induct)
  case (Ok w)
  then show ?case
    using validate_skip_le [OF Ok(1,2)] by (simp add: sanitize_from_ok)
next
  case (Bad w)
  then show ?case by (cases w) (simp_all add: sanitize_from_bad)
qed simp

text \<open>The four shapes of an accepted sequence.\<close>

lemma validate_shapes:
  assumes "w \<noteq> []" and "fst (validate_utf8_sequence w b)"
  obtains (one) a r where "w = a # r" "is_ascii a"
  | (two) a c r where "w = a # c # r" "is_lead2 a" "is_cont c"
  | (three) a c d r where "w = a # c # d # r" "is_lead3 a" "is_cont c" "is_cont d"
  | (four) a c d e r where "w = a # c # d # e # r" "is_lead4 a" "is_cont c" "is_cont d" "is_cont e"
  using assms
  by (cases w; cases "tl w"; cases "tl (tl w)"; cases "tl (tl (tl w))")
    (auto simp: validate_utf8_sequence_def Let_def split: if_splits)

lemma lead_skip_simps [simp]:
  "is_ascii a \<Longrightarrow> lead_skip a = 1"
  "is_lead2 a \<Longrightarrow> lead_skip a = 2"
  "is_lead3 a \<Longrightarrow> lead_skip a = 3"
  "is_lead4 a \<Longrightarrow> lead_skip a = 4"
  using byte_class_disjoint by (auto simp: lead_skip_def)

text \<open>Whether a sequence is accepted depends on the bytes of the sequence only.\<close>

lemma validate_take:
  assumes "w \<noteq> []" and "fst (validate_utf8_sequence w b)"
  shows "fst (validate_utf8_sequence (take (lead_skip (hd w)) w @ r) b')"
  using assms by (cases rule: validate_shapes) (use byte_class_disjoint in
    \<open>auto simp: validate_utf8_sequence_def Let_def\<close>)

lemma u8_valid_sequence:
  assumes "w \<noteq> []" and "fst (validate_utf8_sequence w b)" and "u8_valid r"
  shows "u8_valid (take (lead_skip (hd w)) w @ r)"
proof -
  let ?n = "lead_skip (hd w)"
  have n: "?n \<le> length w" by (rule validate_skip_le [OF assms(1,2)])
  have "hd (take ?n w @ r) = hd w" using assms(1) by (cases w) (auto simp: take_Cons')
  moreover have "fst (validate_utf8_sequence (take ?n w @ r) False)"
    by (rule validate_take [OF assms(1,2)])
  ultimately show ?thesis using assms(3) n by (subst u8_valid.simps) simp
qed

lemma u8_valid_ascii_Cons: "is_ascii c \<Longrightarrow> u8_valid (c # s) = u8_valid s"
  by (subst u8_valid.simps) (simp add: validate_utf8_sequence_def)

lemma sanitize_valid: "u8_valid (fst (sanitize_from w))"
proof (induction w rule: sanitize_induct)
  case (Ok w)
  then show ?case by (simp add: sanitize_from_ok u8_valid_sequence)
next
  case (Bad w)
  then show ?case by (simp add: sanitize_from_bad u8_valid_ascii_Cons)
qed simp

lemma sanitize_fixes_valid: "u8_valid w \<Longrightarrow> sanitize_from w = (w, 0)"
proof (induction w rule: sanitize_induct)
  case (Ok w)
  then have "u8_valid (drop (lead_skip (hd w)) w)" by (subst (asm) u8_valid.simps) simp
  with Ok show ?case by (simp add: sanitize_from_ok)
next
  case (Bad w)
  then show ?case
    using validate_mode [of w True False] by (subst (asm) (2) u8_valid.simps) simp
qed simp

lemma sanitize_no_errors: "snd (sanitize_from w) = 0 \<longleftrightarrow> u8_valid w"
proof
  show "snd (sanitize_from w) = 0 \<Longrightarrow> u8_valid w"
  proof (induction w rule: sanitize_induct)
    case (Ok w)
    then show ?case
      using validate_mode [of w True False] by (subst u8_valid.simps) (simp add: sanitize_from_ok)
  next
    case (Bad w)
    then show ?case by (simp add: sanitize_from_bad)
  qed simp
qed (simp add: sanitize_fixes_valid)

text \<open>On well-formed text the walk of \<^verbatim>\<open>u8_len\<close> steps from lead byte to lead byte.\<close>

lemma u8_step_valid:
  assumes "s \<noteq> []" and "u8_valid s"
  shows "u8_step s = lead_skip (hd s)" and "u8_valid (drop (u8_step s) s)"
    and "length (filter (\<lambda>c. \<not> is_cont c) (take (u8_step s) s)) = 1"
proof -
  from assms have v: "fst (validate_utf8_sequence s False)"
    and d: "u8_valid (drop (lead_skip (hd s)) s)"
    by (subst (asm) u8_valid.simps, simp)+
  from assms(1) v show st: "u8_step s = lead_skip (hd s)"
    by (cases rule: validate_shapes)
      (use byte_class_disjoint in \<open>auto simp: u8_step_def cont_at_def\<close>)
  with d show "u8_valid (drop (u8_step s) s)" by simp
  from assms(1) v show "length (filter (\<lambda>c. \<not> is_cont c) (take (u8_step s) s)) = 1"
    unfolding st by (cases rule: validate_shapes) (use byte_class_disjoint in auto)
qed

lemma u8_len_valid: "u8_valid s \<Longrightarrow> u8_len s = length (filter (\<lambda>c. \<not> is_cont c) s)"
  by (rule u8.cnt_marks [where P = u8_valid]) (assumption | rule u8_step_valid)+

text \<open>\<^verbatim>\<open>sanitize_utf8\<close>: the copy (\<open>None\<close> for a NULL argument or a failed allocation) and the
  statistics, where the caller collects any.\<close>

definition sanitize_utf8 ::
    "(nat \<Rightarrow> bool) \<Rightarrow> cstr option \<Rightarrow> SRTParserStats option \<Rightarrow> cstr option \<times> SRTParserStats option"
where
  "sanitize_utf8 alloc inp stats =
     (case inp of
        None \<Rightarrow> (None, stats)
      | Some s \<Rightarrow>
          if \<not> alloc (length s + 1) then (None, stats)
          else
            let (work, errors_found) = sanitize_from s;
                stats1 = map_option
                  (encoding_errors_fixed_update (\<lambda>n. n + int errors_found)) stats
            in (Some work,
                if errors_found > 0 then bump encoding_warnings_update stats1 else stats1))"

subsection \<open>Tags\<close>

text \<open>The loop of \<^verbatim>\<open>strip_tags\<close> from index \<^verbatim>\<open>i\<close> on.\<close>

function strip_from :: "cstr \<Rightarrow> cstr" where
  "strip_from p =
     (case p of
        [] \<Rightarrow> []
      | c # cs \<Rightarrow>
          if c = CHR ''{'' then
            (case strchr (CHR ''}'') p of Some q \<Rightarrow> strip_from (tl q) | None \<Rightarrow> c # strip_from cs)
          else if c = CHR ''<'' then
            (case strchr (CHR ''>'') p of Some q \<Rightarrow> strip_from (tl q) | None \<Rightarrow> c # strip_from cs)
          else c # strip_from cs)"
  by pat_completeness auto
termination
  by (relation "measure length") (auto dest: strchr_length_le)

declare strip_from.simps [simp del]

definition strip_tags :: "(nat \<Rightarrow> bool) \<Rightarrow> cstr option \<Rightarrow> cstr option" where
  "strip_tags alloc inp =
     (case inp of
        None \<Rightarrow> (if alloc 1 then Some [] else None)
      | Some s \<Rightarrow> (if alloc (length s + 1) then Some (strip_from s) else None))"

text \<open>No opening bracket has its closing bracket after it.\<close>

fun tag_free :: "cstr \<Rightarrow> bool" where
  "tag_free [] = True"
| "tag_free (c # cs) \<longleftrightarrow>
     (c = CHR ''<'' \<longrightarrow> CHR ''>'' \<notin> set cs) \<and> (c = CHR ''{'' \<longrightarrow> CHR ''}'' \<notin> set cs) \<and> tag_free cs"

lemma strip_from_Nil [simp]: "strip_from [] = []"
  by (simp add: strip_from.simps)

lemma strip_from_plain [simp]:
  "c \<noteq> CHR ''<'' \<Longrightarrow> c \<noteq> CHR ''{'' \<Longrightarrow> strip_from (c # cs) = c # strip_from cs"
  by (subst strip_from.simps) simp

lemma strip_from_angle:
  "strip_from (CHR ''<'' # cs) =
     (case strchr (CHR ''>'') cs of Some q \<Rightarrow> strip_from (tl q) | None \<Rightarrow> CHR ''<'' # strip_from cs)"
  by (subst strip_from.simps) simp

lemma strip_from_brace:
  "strip_from (CHR ''{'' # cs) =
     (case strchr (CHR ''}'') cs of Some q \<Rightarrow> strip_from (tl q) | None \<Rightarrow> CHR ''{'' # strip_from cs)"
  by (subst strip_from.simps) simp

lemma tl_strchr_set: "strchr d s = Some q \<Longrightarrow> set (tl q) \<subseteq> set s"
  using strchr_Some_suffix(2) [of d s q] set_mono_suffix [of q s]
  by (cases q) auto

text \<open>The two cases of one iteration: a tag is skipped, any other byte is kept.\<close>

definition bracket_pairs :: "(char \<times> char) set" where
  "bracket_pairs = {(CHR ''<'', CHR ''>''), (CHR ''{'', CHR ''}'')}"

lemma strip_cases:
  obtains (Tag) d q where "(c, d) \<in> bracket_pairs" "strchr d cs = Some q"
      "strip_from (c # cs) = strip_from (tl q)"
  | (Keep) "\<And>d. (c, d) \<in> bracket_pairs \<Longrightarrow> d \<notin> set cs" "strip_from (c # cs) = c # strip_from cs"
proof -
  consider "c = CHR ''<''" | "c = CHR ''{''" | "c \<noteq> CHR ''<''" "c \<noteq> CHR ''{''" by blast
  then show thesis
  proof cases
    case 1
    with that show thesis
      by (cases "strchr (CHR ''>'') cs") (auto simp: strip_from_angle strchr_None bracket_pairs_def)
  next
    case 2
    with that show thesis
      by (cases "strchr (CHR ''}'') cs") (auto simp: strip_from_brace strchr_None bracket_pairs_def)
  next
    case 3
    then show thesis by (intro that(2)) (auto simp: bracket_pairs_def)
  qed
qed

lemma strip_induct [case_names Nil Tag Keep]:
  assumes "P []"
    and tag: "\<And>c d cs q. (c, d) \<in> bracket_pairs \<Longrightarrow> strchr d cs = Some q \<Longrightarrow>
      strip_from (c # cs) = strip_from (tl q) \<Longrightarrow> P (tl q) \<Longrightarrow> P (c # cs)"
    and keep: "\<And>c cs. (\<And>d. (c, d) \<in> bracket_pairs \<Longrightarrow> d \<notin> set cs) \<Longrightarrow>
      strip_from (c # cs) = c # strip_from cs \<Longrightarrow> P cs \<Longrightarrow> P (c # cs)"
  shows "P s"
proof (induction s rule: length_induct)
  case (1 s)
  show ?case
  proof (cases s)
    case (Cons c cs)
    have IH: "P t" if "length t \<le> length cs" for t using 1 Cons that by auto
    show ?thesis
    proof (cases c cs rule: strip_cases)
      case (Tag d q)
      then have "P (tl q)" using strchr_length_le [OF Tag(2)] by (auto intro!: IH)
      with tag Tag show ?thesis by (simp add: Cons)
    next
      case Keep
      with keep IH [of cs] show ?thesis by (simp add: Cons)
    qed
  qed (simp add: assms(1))
qed

lemma strip_set: "set (strip_from s) \<subseteq> set s"
proof (induction s rule: strip_induct)
  case (Tag c d cs q)
  then show ?case using tl_strchr_set [OF Tag(2)] by auto
qed auto

lemma strip_tag_free: "tag_free (strip_from s)"
proof (induction s rule: strip_induct)
  case (Keep c cs)
  then show ?case using strip_set [of cs] by (auto simp: bracket_pairs_def)
qed auto

lemma strip_id: "tag_free s \<Longrightarrow> strip_from s = s"
proof (induction s rule: strip_induct)
  case (Tag c d cs q)
  then have "d \<in> set cs" using strchr_None [of d cs] by auto
  with Tag show ?case by (auto simp: bracket_pairs_def)
qed auto

lemma strip_length: "length (strip_from s) \<le> length s"
proof (induction s rule: strip_induct)
  case (Tag c d cs q)
  then show ?case using strchr_length_le [OF Tag(2)] by auto
qed auto

lemma validate_conts:
  assumes "w \<noteq> []" and "fst (validate_utf8_sequence w b)" and "0 < i" and "i < lead_skip (hd w)"
  shows "is_cont (w ! i)"
  using assms
  by (cases rule: validate_shapes) (auto simp: less_Suc_eq numeral_eq_Suc)

text \<open>What follows an ASCII byte of well-formed text is well-formed.\<close>

lemma u8_valid_after_ascii: "u8_valid (a @ c # b) \<Longrightarrow> is_ascii c \<Longrightarrow> u8_valid b"
proof (induction a rule: length_induct)
  case (1 a)
  let ?s = "a @ c # b"
  let ?n = "lead_skip (hd ?s)"
  from 1(2) have v: "fst (validate_utf8_sequence ?s False)" and d: "u8_valid (drop ?n ?s)"
    by (subst (asm) u8_valid.simps, simp)+
  show ?case
  proof (cases "a = []")
    case True
    with d 1(3) show ?thesis by simp
  next
    case False
    have "?n \<le> length a"
    proof (rule ccontr)
      assume "\<not> ?n \<le> length a"
      with False have "is_cont (?s ! length a)"
        using validate_conts [OF _ v, of "length a"] by simp
      with 1(3) ascii_not_cont show False by simp
    qed
    with d False have "u8_valid (drop ?n a @ c # b)" by simp
    moreover have "length (drop ?n a) < length a" using False by simp
    ultimately show ?thesis using 1(1,3) by blast
  qed
qed

lemma u8_step_sequence:
  assumes "w \<noteq> []" and "fst (validate_utf8_sequence w b)"
  shows "u8_step (take (lead_skip (hd w)) w @ r) = lead_skip (hd w)"
  using assms
  by (cases rule: validate_shapes)
    (use byte_class_disjoint in \<open>simp_all add: u8_step_def cont_at_def\<close>)

lemma u8_len_sequence:
  assumes "w \<noteq> []" and "fst (validate_utf8_sequence w b)"
  shows "u8_len (take (lead_skip (hd w)) w @ r) = Suc (u8_len r)"
proof -
  let ?n = "lead_skip (hd w)"
  have "take ?n w @ r \<noteq> []" using assms(1) by (cases w) (auto simp: take_Cons')
  moreover have "drop ?n (take ?n w @ r) = r" using validate_skip_le [OF assms] by simp
  ultimately show ?thesis
    using u8_step_sequence [OF assms, of r] by (subst u8_len.simps) simp
qed

lemma is_ascii_brackets [simp]: "is_ascii (CHR ''<'')" "is_ascii (CHR ''{'')"
    "is_ascii (CHR ''>'')" "is_ascii (CHR ''}'')"
  by (simp_all add: is_ascii_def byte_of_def)

lemma strip_from_non_ascii: "\<not> is_ascii c \<Longrightarrow> strip_from (c # cs) = c # strip_from cs"
  by (rule strip_from_plain) auto

lemma cont_not_ascii: "is_cont c \<Longrightarrow> \<not> is_ascii c"
  using ascii_not_cont by blast

lemma strip_sequence:
  assumes "w \<noteq> []" and "fst (validate_utf8_sequence w b)" and "\<not> is_ascii (hd w)"
  shows "strip_from w = take (lead_skip (hd w)) w @ strip_from (drop (lead_skip (hd w)) w)"
  using assms by (cases rule: validate_shapes)
    (simp_all add: strip_from_non_ascii cont_not_ascii)

lemma visible_len_Nil [simp]: "visible_len [] = 0"
  by (simp add: visible_len.simps)

lemma visible_len_tag:
  "(c, d) \<in> bracket_pairs \<Longrightarrow> strchr d cs = Some q \<Longrightarrow>
   visible_len (c # cs) = visible_len (tl q)"
  by (subst visible_len.simps) (auto simp: bracket_pairs_def)

lemma visible_len_ascii:
  assumes "is_ascii c" and "\<And>d. (c, d) \<in> bracket_pairs \<Longrightarrow> d \<notin> set cs"
  shows "visible_len (c # cs) = Suc (visible_len cs)"
proof -
  have "c = CHR ''<'' \<Longrightarrow> strchr (CHR ''>'') cs = None"
    and "c = CHR ''{'' \<Longrightarrow> strchr (CHR ''}'') cs = None"
    using assms(2) by (simp_all add: strchr_None bracket_pairs_def)
  with assms(1) show ?thesis
    by (subst visible_len.simps)
      (cases "c = CHR ''<''"; cases "c = CHR ''{''"; simp add: u8_step_def)
qed

lemma visible_len_other:
  "w \<noteq> [] \<Longrightarrow> \<not> is_ascii (hd w) \<Longrightarrow> visible_len w = Suc (visible_len (drop (u8_step w) w))"
  by (cases w; subst visible_len.simps) auto

text \<open>On well-formed text the visible length is the length of the stripped text.\<close>

lemma visible_len_strip: "u8_valid s \<Longrightarrow> visible_len s = u8_len (strip_from s)"
proof (induction s rule: length_induct)
  case (1 s)
  show ?case
  proof (cases s)
    case Nil
    then show ?thesis by (simp add: u8_len.simps)
  next
    case (Cons c cs)
    have ne: "s \<noteq> []" and v: "fst (validate_utf8_sequence s False)"
      using 1(2) Cons by (simp, subst (asm) u8_valid.simps, simp)
    show ?thesis
    proof (cases "is_ascii c")
      case False
      let ?n = "lead_skip (hd s)"
      have "length (drop ?n s) < length s" using ne by simp
      moreover have "u8_valid (drop ?n s)" using u8_step_valid(1,2) [OF ne 1(2)] by simp
      ultimately have IH: "visible_len (drop ?n s) = u8_len (strip_from (drop ?n s))"
        using 1(1) by blast
      have "visible_len s = Suc (visible_len (drop ?n s))"
        using False Cons visible_len_other [OF ne] u8_step_valid(1) [OF ne 1(2)] by simp
      then show ?thesis
        using False Cons IH strip_sequence [OF ne v] u8_len_sequence [OF ne v] by simp
    next
      case True
      have vcs: "u8_valid cs" using u8_valid_after_ascii [of "[]" c cs] 1(2) Cons True by simp
      have IH: "visible_len t = u8_len (strip_from t)" if "length t \<le> length cs" "u8_valid t" for t
        using 1(1) Cons that by auto
      have one: "u8_len (c # r) = Suc (u8_len r)" for r
        using u8_len_sequence [OF ne v] Cons True by simp
      show ?thesis
      proof (cases c cs rule: strip_cases)
        case (Tag d q)
        then obtain r where q: "q = d # r" using strchr_Some_Cons by blast
        have "is_ascii d" using Tag(1) by (auto simp: bracket_pairs_def)
        moreover have "takeWhile (\<lambda>x. x \<noteq> d) cs @ d # r = cs"
          by (rule strchr_Some_suffix(1) [OF Tag(2), unfolded q, symmetric])
        ultimately have "u8_valid r"
          using vcs u8_valid_after_ascii [of "takeWhile (\<lambda>x. x \<noteq> d) cs" d r] by simp
        with IH [of r] strchr_length_le [OF Tag(2)] q Tag(3) show ?thesis
          using visible_len_tag [OF Tag(1,2)] by (simp add: Cons)
      next
        case Keep
        with visible_len_ascii [OF True Keep(1)] IH [of cs] vcs one show ?thesis
          by (simp add: Cons)
      qed
    qed
  qed
qed

text \<open>Stripping keeps text well-formed.\<close>

lemma strip_valid: "u8_valid s \<Longrightarrow> u8_valid (strip_from s)"
proof (induction s rule: length_induct)
  case (1 s)
  show ?case
  proof (cases s)
    case Nil
    then show ?thesis by simp
  next
    case (Cons c cs)
    have ne: "s \<noteq> []" and v: "fst (validate_utf8_sequence s False)"
      using 1(2) Cons by (simp, subst (asm) u8_valid.simps, simp)
    show ?thesis
    proof (cases "is_ascii c")
      case False
      let ?n = "lead_skip (hd s)"
      have "length (drop ?n s) < length s" using ne by simp
      moreover have "u8_valid (drop ?n s)" using u8_step_valid(1,2) [OF ne 1(2)] by simp
      ultimately have "u8_valid (strip_from (drop ?n s))" using 1(1) by blast
      then show ?thesis
        using False Cons strip_sequence [OF ne v] u8_valid_sequence [OF ne v] by simp
    next
      case True
      have vcs: "u8_valid cs" using 1(2) Cons True by (simp add: u8_valid_ascii_Cons)
      have IH: "u8_valid (strip_from t)" if "length t \<le> length cs" "u8_valid t" for t
        using 1(1) Cons that by auto
      show ?thesis
      proof (cases c cs rule: strip_cases)
        case (Tag d q)
        then obtain r where q: "q = d # r" using strchr_Some_Cons by blast
        have "is_ascii d" using Tag(1) by (auto simp: bracket_pairs_def)
        moreover have "takeWhile (\<lambda>x. x \<noteq> d) cs @ d # r = cs"
          by (rule strchr_Some_suffix(1) [OF Tag(2), unfolded q, symmetric])
        ultimately have "u8_valid r"
          using vcs u8_valid_after_ascii [of "takeWhile (\<lambda>x. x \<noteq> d) cs" d r] by simp
        with IH [of r] strchr_length_le [OF Tag(2)] q Tag(3) show ?thesis by (simp add: Cons)
      next
        case Keep
        with True IH [of cs] vcs show ?thesis by (simp add: Cons u8_valid_ascii_Cons)
      qed
    qed
  qed
qed

subsection \<open>What the routines deliver\<close>

text \<open>The bytes that were replaced are the ones that are counted.\<close>

lemma validate_false_ne:
  assumes "\<not> fst (validate_utf8_sequence w True)"
  shows "hd w \<noteq> CHR ''?''"
proof
  assume "hd w = CHR ''?''"
  with validate_false [OF assms] assms show False
    by (cases w) (simp_all add: validate_utf8_sequence_def)
qed

lemma sanitize_changes:
  "list_all2 (\<lambda>a b. a = b \<or> a = CHR ''?'') (fst (sanitize_from w)) w \<and>
   snd (sanitize_from w) = length (filter (\<lambda>(a, b). a \<noteq> b) (zip (fst (sanitize_from w)) w))"
proof (induction w rule: sanitize_induct)
  case (Ok w)
  let ?n = "lead_skip (hd w)"
  have w: "take ?n w @ drop ?n w = w" by simp
  have same: "filter (\<lambda>(a, b). a \<noteq> b) (zip xs xs) = []" for xs :: "char list"
    by (induction xs) auto
  have "list_all2 (\<lambda>a b. a = b \<or> a = CHR ''?'') (take ?n w @ fst (sanitize_from (drop ?n w)))
      (take ?n w @ drop ?n w)"
    by (rule list_all2_appendI) (use Ok(3) in \<open>simp_all add: list.rel_refl\<close>)
  moreover have "filter (\<lambda>(a, b). a \<noteq> b) (zip (take ?n w @ fst (sanitize_from (drop ?n w)))
      (take ?n w @ drop ?n w)) = filter (\<lambda>(a, b). a \<noteq> b) (zip (fst (sanitize_from (drop ?n w))) (drop ?n w))"
    by (subst zip_append) (simp_all add: same)
  ultimately show ?case using Ok(3) by (simp add: sanitize_from_ok [OF Ok(1,2)])
next
  case (Bad w)
  then obtain c t where w: "w = c # t" by (cases w) auto
  from Bad(3) validate_false_ne [OF Bad(2)] sanitize_from_bad [OF Bad(1,2)] show ?case
    unfolding w by simp
qed simp



text \<open>C23. \<^verbatim>\<open>visible_len\<close> measures what a viewer sees: on well-formed text it is the number of code
  points of the text that \<^verbatim>\<open>strip_tags\<close> returns, and those are the bytes that do not continue a
  sequence.\<close>

theorem visible_len_is_stripped_length:
  assumes "u8_valid s" and "strip_tags alloc (Some s) = Some t"
  shows "visible_len s = u8_len t \<and> u8_len t = length (filter (\<lambda>c. \<not> is_cont c) t) \<and> u8_valid t"
proof -
  from assms(2) have t: "t = strip_from s" by (simp add: strip_tags_def split: if_splits)
  show ?thesis
    unfolding t using visible_len_strip strip_valid u8_len_valid assms(1) by blast
qed

theorem visible_len_is_stripped_length_witness:
  "let s = ''<i>h'' @ [CHR 0xC3, CHR 0xA9] @ ''</i>{x}!''
   in strip_tags (\<lambda>_. True) (Some s) = Some [CHR ''h'', CHR 0xC3, CHR 0xA9, CHR ''!''] \<and>
      visible_len s = 3 \<and> visible_len s = u8_len [CHR ''h'', CHR 0xC3, CHR 0xA9, CHR ''!'']"
proof -
  let ?s = "''<i>h'' @ [CHR 0xC3, CHR 0xA9] @ ''</i>{x}!''"
  let ?t = "[CHR ''h'', CHR 0xC3, CHR 0xA9, CHR ''!'']"
  have v: "u8_valid ?s" by code_simp
  have t: "strip_tags (\<lambda>_. True) (Some ?s) = Some ?t" by code_simp
  have "u8_len ?t = 3" by code_simp
  with visible_len_is_stripped_length [OF v t] t show ?thesis unfolding Let_def by simp
qed



end
