(* ===== verification/Text_buffer.thy ===== *)
theory Text_buffer
  imports Prelude
begin

text \<open>
  The growing text buffers of \<^verbatim>\<open>srt_parser.c\<close>: a heap block of a known capacity that holds a
  NUL-terminated string. Every write is checked against the capacity, so a missing or wrong
  growth test is a fault of the model. The \<open>appender\<close> contract is what the text loops rely
  on; \<^verbatim>\<open>dyn_append\<close> and the two inlined growth idioms of \<^verbatim>\<open>normalize_cue_text\<close> provide it.
\<close>

record dbuf =
  db_text :: cstr
  db_cap :: nat

text \<open>The terminating NUL has its place.\<close>

definition dbuf_wf :: "dbuf \<Rightarrow> bool" where
  "dbuf_wf b \<longleftrightarrow> length (db_text b) < db_cap b"

text \<open>\<^verbatim>\<open>malloc\<close> of a block that starts as the empty string.\<close>

definition dbuf_new :: "(nat \<Rightarrow> bool) \<Rightarrow> nat \<Rightarrow> dbuf cres" where
  "dbuf_new alloc n = (if alloc n then Inr \<lparr>db_text = [], db_cap = n\<rparr> else Inl Alloc_failed)"

text \<open>\<^verbatim>\<open>memcpy(buf + len, s, n); buf[len + n] = 0\<close>.\<close>

definition dbuf_write :: "cstr \<Rightarrow> dbuf \<Rightarrow> dbuf cres" where
  "dbuf_write s b =
     (if length (db_text b) + length s < db_cap b
      then Inr (b\<lparr>db_text := db_text b @ s\<rparr>) else Inl Out_of_bounds)"

definition dbuf_realloc :: "(nat \<Rightarrow> bool) \<Rightarrow> nat \<Rightarrow> dbuf \<Rightarrow> dbuf cres" where
  "dbuf_realloc alloc nc b = (if alloc nc then Inr (b\<lparr>db_cap := nc\<rparr>) else Inl Alloc_failed)"

text \<open>One character: \<^verbatim>\<open>if (len + 1 >= cap) { realloc cap * 2 + 16 }\<close>.\<close>

definition push_char :: "(nat \<Rightarrow> bool) \<Rightarrow> char \<Rightarrow> dbuf \<Rightarrow> dbuf cres" where
  "push_char alloc c b =
     sbind
       (if length (db_text b) + 1 \<ge> db_cap b
        then dbuf_realloc alloc (db_cap b * 2 + 16) b else Inr b)
       (dbuf_write [c])"

text \<open>A token: \<^verbatim>\<open>if (len + tlen >= cap) { realloc len + tlen + 16 }\<close>.\<close>

definition push_token :: "(nat \<Rightarrow> bool) \<Rightarrow> cstr \<Rightarrow> dbuf \<Rightarrow> dbuf cres" where
  "push_token alloc s b =
     sbind
       (if length (db_text b) + length s \<ge> db_cap b
        then dbuf_realloc alloc (length (db_text b) + length s + 16) b else Inr b)
       (dbuf_write s)"

text \<open>The loop \<^verbatim>\<open>while (cur + sl + 1 > nc) nc = nc * 2 + 16\<close> of \<^verbatim>\<open>dyn_append\<close>.\<close>

function grow_until :: "nat \<Rightarrow> nat \<Rightarrow> nat" where
  "grow_until need nc = (if need > nc then grow_until need (nc * 2 + 16) else nc)"
  by pat_completeness auto
termination
  by (relation "measure (\<lambda>(need, nc). need - nc)") auto

declare grow_until.simps [simp del]

lemma grow_until_ge: "need \<le> grow_until need nc"
  by (induction need nc rule: grow_until.induct) (subst grow_until.simps, simp)

definition dyn_append :: "(nat \<Rightarrow> bool) \<Rightarrow> cstr \<Rightarrow> dbuf \<Rightarrow> dbuf cres" where
  "dyn_append alloc s b =
     (let sl = length s; cur = length (db_text b)
      in sbind
           (if cur + sl + 1 > db_cap b
            then dbuf_realloc alloc
              (grow_until (cur + sl + 1)
                (if db_cap b \<noteq> 0 then db_cap b * 2 + sl + 16 else sl + 16)) b
            else Inr b)
           (dbuf_write s))"

subsection \<open>The contract\<close>

locale appender =
  fixes app :: "(nat \<Rightarrow> bool) \<Rightarrow> 'p \<Rightarrow> dbuf \<Rightarrow> dbuf cres" and str :: "'p \<Rightarrow> cstr"
  assumes app_text: "app alloc x b = Inr b' \<Longrightarrow> db_text b' = db_text b @ str x"
    and app_wf: "app alloc x b = Inr b' \<Longrightarrow> dbuf_wf b'"
    and app_fault: "dbuf_wf b \<Longrightarrow> app alloc x b = Inl e \<Longrightarrow> alloc_fault alloc e"
begin

lemma app_Inr: "app alloc x b = Inr b' \<Longrightarrow> db_text b' = db_text b @ str x \<and> dbuf_wf b'"
  using app_text app_wf by blast

text \<open>A run of appends: the text grows by the concatenation, and running out of memory is
  the only way to fail.\<close>

primrec app_all :: "(nat \<Rightarrow> bool) \<Rightarrow> 'p list \<Rightarrow> dbuf \<Rightarrow> dbuf cres" where
  "app_all alloc [] b = Inr b"
| "app_all alloc (x # xs) b = sbind (app alloc x b) (app_all alloc xs)"

lemma app_all_Inr:
  "app_all alloc xs b = Inr b' \<Longrightarrow> dbuf_wf b \<Longrightarrow>
   db_text b' = db_text b @ concat (map str xs) \<and> dbuf_wf b'"
  by (induction xs arbitrary: b) (auto simp: sbind_eq_Inr_iff dest!: app_Inr)

lemma app_all_fault: "dbuf_wf b \<Longrightarrow> app_all alloc xs b = Inl e \<Longrightarrow> alloc_fault alloc e"
  by (induction xs arbitrary: b) (auto simp: sbind_eq_Inl_iff dest: app_fault app_Inr)

lemma app_all_total: "dbuf_wf b \<Longrightarrow> \<exists>b'. app_all (\<lambda>_. True) xs b = Inr b'"
  using app_all_fault [of b "\<lambda>_. True" xs] by (cases "app_all (\<lambda>_. True) xs b") auto

end

lemmas append_defs = dbuf_wf_def alloc_fault_def dbuf_write_def dbuf_realloc_def

interpretation pushc: appender push_char "\<lambda>c. [c]"
  by unfold_locales (auto simp: push_char_def append_defs sbind_eq_Inr_iff sbind_eq_Inl_iff
      split: if_splits)

interpretation pusht: appender push_token "\<lambda>s. s"
  by unfold_locales (auto simp: push_token_def append_defs sbind_eq_Inr_iff sbind_eq_Inl_iff
      split: if_splits)

lemma grow_until_gt: "m < grow_until (Suc m) nc"
  using grow_until_ge [of "Suc m" nc] by simp

interpretation dyn: appender dyn_append "\<lambda>s. s"
  by unfold_locales (auto simp: dyn_append_def append_defs sbind_eq_Inr_iff sbind_eq_Inl_iff
      Let_def grow_until_gt not_less split: if_splits)

lemma dbuf_new_Inr: "dbuf_new alloc n = Inr b \<Longrightarrow> 0 < n \<Longrightarrow> db_text b = [] \<and> dbuf_wf b"
  by (auto simp: dbuf_new_def dbuf_wf_def split: if_splits)

end
