(* ===== verification/Srt_text.thy ===== *)
theory Srt_text
  imports Utf8_text Text_buffer
begin

text \<open>
  Cue text in \<^verbatim>\<open>srt_parser.c\<close>: \<^verbatim>\<open>normalize_cue_text\<close> (collapse white space, then re-wrap word
  by word to the SD or HD width), \<^verbatim>\<open>rstrip\<close> and the two routines for the ASS escape \<^verbatim>\<open>\h\<close>. The
  lemmas show that the wrapping never writes outside its buffers, always returns when memory
  is available, and changes nothing but white space.
\<close>

definition MAX_LINES_SD :: nat where "MAX_LINES_SD = 3"
definition MAX_CHARS_SD :: nat where "MAX_CHARS_SD = 37"
definition MAX_CHARS_HD :: nat where "MAX_CHARS_HD = 67"

subsection \<open>Step 1: white space\<close>

text \<open>The first loop: \<open>p\<close> is what is left of the input, \<open>b\<close> the buffer. A newline replaces the
  space before it, other white space collapses to one space.\<close>

fun collapse_ws :: "(nat \<Rightarrow> bool) \<Rightarrow> cstr \<Rightarrow> dbuf \<Rightarrow> bool \<Rightarrow> dbuf cres" where
  "collapse_ws alloc [] b last_space = Inr b"
| "collapse_ws alloc (ch # p) b last_space =
     (if ch = LF then
        sbind
          (if last_space \<and> db_text b \<noteq> [] \<and> last (db_text b) = SP
           then Inr (b\<lparr>db_text := butlast (db_text b) @ [LF]\<rparr>)
           else push_char alloc LF b)
          (\<lambda>b'. collapse_ws alloc p b' False)
      else if ch = CR \<or> isspace ch then
        (if \<not> last_space
         then sbind (push_char alloc SP b) (\<lambda>b'. collapse_ws alloc p b' True)
         else collapse_ws alloc p b True)
      else sbind (push_char alloc ch b) (\<lambda>b'. collapse_ws alloc p b' False))"

subsection \<open>Step 2: tokens and wrapping\<close>

text \<open>The scan for the end of a token: a space ends it outside of brackets only. The result is
  the token and the cursor.\<close>

fun tok_scan :: "bool \<Rightarrow> bool \<Rightarrow> cstr \<Rightarrow> cstr \<times> cstr" where
  "tok_scan in_angle in_brace [] = ([], [])"
| "tok_scan in_angle in_brace (c # cursor) =
     (if \<not> in_angle \<and> \<not> in_brace \<and> c = SP then ([], c # cursor)
      else
        let (t, r) =
          (if c = CHR ''<'' then tok_scan True in_brace cursor
           else if c = CHR ''>'' \<and> in_angle then tok_scan False in_brace cursor
           else if c = CHR ''{'' then tok_scan in_angle True cursor
           else if c = CHR ''}'' \<and> in_brace then tok_scan in_angle False cursor
           else tok_scan in_angle in_brace cursor)
        in (c # t, r))"

lemma tok_scan_split: "tok_scan a b s = (t, r) \<Longrightarrow> s = t @ r"
  by (induction a b s arbitrary: t r rule: tok_scan.induct)
    (auto simp: Let_def split: if_splits prod.splits)

lemma tok_scan_nonempty: "s \<noteq> [] \<Longrightarrow> hd s \<noteq> SP \<Longrightarrow> fst (tok_scan a b s) \<noteq> []"
  by (cases s) (auto simp: Let_def split: prod.splits)

text \<open>The output buffer, the visible length of the line under construction and the number of
  lines so far.\<close>

record wrap =
  w_out :: dbuf
  w_line_len :: nat
  w_lines :: nat

abbreviation w_text :: "wrap \<Rightarrow> cstr" where
  "w_text w \<equiv> db_text (w_out w)"

text \<open>\<^verbatim>\<open>out[out_len++] = c\<close> and \<^verbatim>\<open>memcpy(out + out_len, tok, tlen)\<close> with their growth tests.\<close>

definition put_char :: "(nat \<Rightarrow> bool) \<Rightarrow> char \<Rightarrow> wrap \<Rightarrow> wrap cres" where
  "put_char alloc c w = sbind (push_char alloc c (w_out w)) (\<lambda>b. Inr (w\<lparr>w_out := b\<rparr>))"

definition put_token :: "(nat \<Rightarrow> bool) \<Rightarrow> cstr \<Rightarrow> wrap \<Rightarrow> wrap cres" where
  "put_token alloc s w = sbind (push_token alloc s (w_out w)) (\<lambda>b. Inr (w\<lparr>w_out := b\<rparr>))"

definition wrap_token :: "(nat \<Rightarrow> bool) \<Rightarrow> nat \<Rightarrow> nat \<Rightarrow> bool \<Rightarrow> cstr \<Rightarrow> wrap \<Rightarrow> wrap cres" where
  "wrap_token alloc max_chars max_lines whole_cue_is_symbol tok w =
     (let wordlen = visible_len tok;
          sym_line = (whole_cue_is_symbol \<and> wordlen = 1)
      in if sym_line then
           sbind
             (if w_line_len w > 0
              then sbind (put_char alloc LF w) (\<lambda>w1. Inr (w1\<lparr>w_lines := w_lines w1 + 1\<rparr>))
              else Inr w)
             (\<lambda>w1. sbind (put_token alloc tok w1) (\<lambda>w2. Inr (w2\<lparr>w_line_len := wordlen\<rparr>)))
         else if wordlen > 0 \<and> w_line_len w + wordlen + 1 > max_chars \<and> w_lines w < max_lines then
           sbind (put_char alloc LF w)
             (\<lambda>w1. sbind (put_token alloc tok (w1\<lparr>w_line_len := 0, w_lines := w_lines w1 + 1\<rparr>))
               (\<lambda>w2. Inr (w2\<lparr>w_line_len := wordlen\<rparr>)))
         else
           sbind
             (if wordlen > 0 \<and> w_line_len w > 0
              then sbind (put_char alloc SP w) (\<lambda>w1. Inr (w1\<lparr>w_line_len := w_line_len w1 + 1\<rparr>))
              else Inr w)
             (\<lambda>w1. sbind (put_token alloc tok w1)
               (\<lambda>w2. Inr (w2\<lparr>w_line_len := w_line_len w2 + wordlen\<rparr>))))"

text \<open>The token loop over one source line: the wrapped state and \<^verbatim>\<open>has_content\<close>.\<close>

function wrap_line ::
    "(nat \<Rightarrow> bool) \<Rightarrow> nat \<Rightarrow> nat \<Rightarrow> bool \<Rightarrow> cstr \<Rightarrow> wrap \<Rightarrow> bool \<Rightarrow> (wrap \<times> bool) cres" where
  "wrap_line alloc max_chars max_lines is_sym cursor w has_content =
     (let c1 = dropWhile (\<lambda>c. c = SP) cursor
      in if c1 = [] then Inr (w, has_content)
         else
           let (tok, c2) = tok_scan False False c1
           in if \<not> alloc (length tok + 1) then Inl Alloc_failed
              else sbind (wrap_token alloc max_chars max_lines is_sym tok w)
                     (\<lambda>w'. wrap_line alloc max_chars max_lines is_sym c2 w' True))"
  by pat_completeness auto

lemma dropWhile_SP_hd: "dropWhile (\<lambda>c. c = SP) s \<noteq> [] \<Longrightarrow> hd (dropWhile (\<lambda>c. c = SP) s) \<noteq> SP"
  using hd_dropWhile [of "\<lambda>c. c = SP" s] by simp

lemma tok_scan_shorter:
  assumes "dropWhile (\<lambda>c. c = SP) s \<noteq> []" and "tok_scan a b (dropWhile (\<lambda>c. c = SP) s) = (t, r)"
  shows "length r < length s"
proof -
  let ?d = "dropWhile (\<lambda>c. c = SP) s"
  have "t \<noteq> []" using tok_scan_nonempty [OF assms(1) dropWhile_SP_hd [OF assms(1)], of a b] assms(2)
    by simp
  then have "length r < length ?d" using tok_scan_split [OF assms(2)] by simp
  also have "\<dots> \<le> length s" by (rule length_dropWhile_le)
  finally show ?thesis .
qed

termination wrap_line
  by (relation "measure (\<lambda>(_, _, _, _, cursor, _, _). length cursor)")
    (auto dest: tok_scan_shorter [OF _ sym] simp del: dropWhile_eq_Nil_conv)

declare wrap_line.simps [simp del]

text \<open>The loop over the source lines.\<close>

function wrap_lines :: "(nat \<Rightarrow> bool) \<Rightarrow> nat \<Rightarrow> nat \<Rightarrow> bool \<Rightarrow> cstr \<Rightarrow> wrap \<Rightarrow> wrap cres" where
  "wrap_lines alloc max_chars max_lines is_sym line_start w =
     (if line_start = [] then Inr w
      else
        let line = takeWhile (\<lambda>c. c \<noteq> LF) line_start;
            line_end = strchr LF line_start
        in if \<not> alloc (length line + 1) then Inl Alloc_failed
           else sbind (wrap_line alloc max_chars max_lines is_sym line w False)
             (\<lambda>(w1, has_content).
               (case line_end of
                  None \<Rightarrow> Inr w1
                | Some e \<Rightarrow>
                    sbind
                      (if has_content
                       then sbind (put_char alloc LF w1)
                         (\<lambda>w2. Inr (w2\<lparr>w_lines := w_lines w2 + 1, w_line_len := 0\<rparr>))
                       else Inr w1)
                      (\<lambda>w2. wrap_lines alloc max_chars max_lines is_sym (tl e) w2))))"
  by pat_completeness auto

lemma strchr_tl_less: "s \<noteq> [] \<Longrightarrow> strchr d s = Some q \<Longrightarrow> length (tl q) < length s"
  by (cases s) (auto split: if_splits dest: strchr_length_le)

termination wrap_lines
  by (relation "measure (\<lambda>(_, _, _, _, line_start, _). length line_start)")
    (auto dest: strchr_tl_less [OF _ sym] simp del: length_tl)

declare wrap_lines.simps [simp del]

definition normalize_cue_text :: "(nat \<Rightarrow> bool) \<Rightarrow> cstr option \<Rightarrow> bool \<Rightarrow> cstr cres" where
  "normalize_cue_text alloc raw is_hd =
     (let max_lines = MAX_LINES_SD;
          max_chars = (if is_hd then MAX_CHARS_HD else MAX_CHARS_SD);
          inp = (case raw of None \<Rightarrow> [] | Some s \<Rightarrow> s)
      in sbind (dbuf_new alloc (length inp + 1)) (\<lambda>buf0.
         sbind (collapse_ws alloc inp buf0 False) (\<lambda>buf.
         sbind (dbuf_new alloc (length (db_text buf) + 1 + max_lines + 8)) (\<lambda>out.
         if \<not> alloc (length (db_text buf) + 1) then Inl Alloc_failed
         else
           let whole_cue_is_symbol =
             (case strip_tags alloc raw of
                None \<Rightarrow> False
              | Some plain \<Rightarrow> u8_len plain = 1 \<and> \<not> is_ascii (hd plain))
           in sbind
                (wrap_lines alloc max_chars max_lines whole_cue_is_symbol (db_text buf)
                  \<lparr>w_out = out, w_line_len = 0, w_lines = 1\<rparr>)
                (\<lambda>w. Inr (w_text w))))))"


subsection \<open>Safety, totality and what is kept\<close>

text \<open>A step on the wrapping state: its only fault is a failed allocation, and it keeps the
  output buffer well-formed.\<close>

abbreviation w_wf :: "wrap \<Rightarrow> bool" where
  "w_wf w \<equiv> dbuf_wf (w_out w)"

lemma put_char_Inr: "put_char alloc c w = Inr w' \<Longrightarrow> w_text w' = w_text w @ [c] \<and> w_wf w'"
  by (auto simp: put_char_def sbind_eq_Inr_iff dest: pushc.app_Inr)

lemma put_token_Inr: "put_token alloc s w = Inr w' \<Longrightarrow> w_text w' = w_text w @ s \<and> w_wf w'"
  by (auto simp: put_token_def sbind_eq_Inr_iff dest: pusht.app_Inr)

lemma put_char_fault: "w_wf w \<Longrightarrow> put_char alloc c w = Inl e \<Longrightarrow> alloc_fault alloc e"
  by (auto simp: put_char_def sbind_eq_Inl_iff dest: pushc.app_fault)

lemma put_token_fault: "w_wf w \<Longrightarrow> put_token alloc s w = Inl e \<Longrightarrow> alloc_fault alloc e"
  by (auto simp: put_token_def sbind_eq_Inl_iff dest: pusht.app_fault)

lemmas put_Inr = put_char_Inr put_token_Inr
lemmas put_fault = put_char_fault put_token_fault

text \<open>The characters that wrapping keeps.\<close>

abbreviation ink :: "cstr \<Rightarrow> cstr" where
  "ink \<equiv> filter (\<lambda>c. \<not> isspace c)"

text \<open>What the output may hold of white space.\<close>

definition plain_ws :: "cstr \<Rightarrow> bool" where
  "plain_ws s \<longleftrightarrow> (\<forall>c\<in>set s. isspace c \<longrightarrow> c = SP \<or> c = LF)"

lemma plain_ws_simps [simp]: "plain_ws []"
    "plain_ws (c # s) \<longleftrightarrow> (isspace c \<longrightarrow> c = SP \<or> c = LF) \<and> plain_ws s"
    "plain_ws (s @ t) \<longleftrightarrow> plain_ws s \<and> plain_ws t"
  by (auto simp: plain_ws_def)

lemma plain_ws_mono: "set t \<subseteq> set s \<Longrightarrow> plain_ws s \<Longrightarrow> plain_ws t"
  by (auto simp: plain_ws_def)

lemma wrap_token_Inr:
  "wrap_token alloc mc ml is_sym tok w = Inr w' \<Longrightarrow>
   w_wf w' \<and> ink (w_text w') = ink (w_text w) @ ink tok \<and>
   (plain_ws (w_text w) \<longrightarrow> plain_ws tok \<longrightarrow> plain_ws (w_text w'))"
  unfolding wrap_token_def Let_def
  by (auto simp: sbind_eq_Inr_iff split: if_splits dest!: put_Inr)

lemma wrap_token_fault:
  "w_wf w \<Longrightarrow> wrap_token alloc mc ml is_sym tok w = Inl e \<Longrightarrow> alloc_fault alloc e"
  unfolding wrap_token_def Let_def
  by (auto simp: sbind_eq_Inl_iff sbind_eq_Inr_iff split: if_splits
      dest: put_Inr dest!: put_fault [rotated])

text \<open>One iteration of the token loop, with what it consumes.\<close>

lemma wrap_line_cases:
  obtains (Done) "\<And>alloc mc ml is_sym w h. wrap_line alloc mc ml is_sym cursor w h = Inr (w, h)"
      "ink cursor = []"
  | (Tok) tok c2 where "length c2 < length cursor" "ink cursor = ink tok @ ink c2"
      "set tok \<union> set c2 \<subseteq> set cursor"
      "\<And>alloc mc ml is_sym w h. wrap_line alloc mc ml is_sym cursor w h =
         (if \<not> alloc (length tok + 1) then Inl Alloc_failed
          else sbind (wrap_token alloc mc ml is_sym tok w)
                 (\<lambda>w'. wrap_line alloc mc ml is_sym c2 w' True))"
proof -
  let ?c1 = "dropWhile (\<lambda>c. c = SP) cursor"
  have ink1: "ink ?c1 = ink cursor" by (induction cursor) auto
  have sub: "set ?c1 \<subseteq> set cursor" by (auto dest: set_dropWhileD)
  show thesis
  proof (cases "?c1 = []")
    case True
    then have "ink cursor = []" using ink1 by (metis filter.simps(1))
    then show thesis using True by (intro Done) (subst wrap_line.simps, simp)
  next
    case False
    obtain tok c2 where ts: "tok_scan False False ?c1 = (tok, c2)" by force
    have c1: "?c1 = tok @ c2" by (rule tok_scan_split [OF ts])
    show thesis
    proof (rule Tok)
      show "length c2 < length cursor" by (rule tok_scan_shorter [OF False ts])
      show "ink cursor = ink tok @ ink c2" using ink1 by (simp add: c1)
      show "set tok \<union> set c2 \<subseteq> set cursor" using sub by (simp add: c1)
    qed (subst wrap_line.simps, use False ts in \<open>simp del: dropWhile_eq_Nil_conv\<close>)
  qed
qed

lemma wrap_line_Inr:
  "wrap_line alloc mc ml is_sym cursor w h = Inr (w', h') \<Longrightarrow> w_wf w \<Longrightarrow>
   w_wf w' \<and> ink (w_text w') = ink (w_text w) @ ink cursor \<and>
   (plain_ws (w_text w) \<longrightarrow> plain_ws cursor \<longrightarrow> plain_ws (w_text w'))"
proof (induction cursor arbitrary: w h rule: measure_induct_rule [where f = length])
  case (less cursor)
  show ?case
  proof (cases cursor rule: wrap_line_cases)
    case Done
    with less.prems show ?thesis by simp
  next
    case (Tok tok c2)
    then obtain w1 where w1: "wrap_token alloc mc ml is_sym tok w = Inr w1"
      and r: "wrap_line alloc mc ml is_sym c2 w1 True = Inr (w', h')"
      using less.prems(1) by (auto simp: sbind_eq_Inr_iff split: if_splits)
    from Tok(3) have ws: "plain_ws cursor \<Longrightarrow> plain_ws tok \<and> plain_ws c2"
      by (auto intro: plain_ws_mono)
    note T = wrap_token_Inr [OF w1]
    from less.IH [OF Tok(1) r] T have
      "w_wf w' \<and> ink (w_text w') = ink (w_text w1) @ ink c2 \<and>
       (plain_ws (w_text w1) \<longrightarrow> plain_ws c2 \<longrightarrow> plain_ws (w_text w'))" by blast
    with T Tok(2) ws show ?thesis by simp
  qed
qed

lemma wrap_line_fault:
  "w_wf w \<Longrightarrow> wrap_line alloc mc ml is_sym cursor w h = Inl e \<Longrightarrow> alloc_fault alloc e"
proof (induction cursor arbitrary: w h rule: measure_induct_rule [where f = length])
  case (less cursor)
  show ?case
  proof (cases cursor rule: wrap_line_cases)
    case Done
    with less.prems show ?thesis by simp
  next
    case (Tok tok c2)
    with less.prems(2) consider "\<not> alloc (length tok + 1)" "e = Alloc_failed"
      | "wrap_token alloc mc ml is_sym tok w = Inl e"
      | w1 where "wrap_token alloc mc ml is_sym tok w = Inr w1"
        "wrap_line alloc mc ml is_sym c2 w1 True = Inl e"
      by (auto simp: sbind_eq_Inl_iff split: if_splits)
    then show ?thesis
      using wrap_token_fault [OF less.prems(1)] less.IH [OF Tok(1)] wrap_token_Inr
      by cases blast+
  qed
qed

text \<open>The line loop.\<close>

lemma strchr_lines:
  assumes "s \<noteq> []"
  obtains (Last) "strchr LF s = None" "takeWhile (\<lambda>c. c \<noteq> LF) s = s"
  | (More) e where "strchr LF s = Some e" "length (tl e) < length s"
      "s = takeWhile (\<lambda>c. c \<noteq> LF) s @ LF # tl e"
proof (cases "strchr LF s")
  case None
  show thesis using None by (intro Last) (auto simp: strchr_None takeWhile_eq_all_conv)
next
  case (Some e)
  obtain q where q: "e = LF # q" using strchr_Some_Cons [OF Some] by blast
  show thesis
    using strchr_tl_less [OF assms Some] strchr_Some_suffix(1) [OF Some] q Some by (intro More) auto
qed

lemma put_newline_Inr:
  "(if h then sbind (put_char alloc LF w1) (\<lambda>w2. Inr (w2\<lparr>w_lines := w_lines w2 + 1, w_line_len := 0\<rparr>))
    else Inr w1) = Inr w2 \<Longrightarrow> w_wf w1 \<Longrightarrow>
   w_wf w2 \<and> ink (w_text w2) = ink (w_text w1) \<and> (plain_ws (w_text w1) \<longrightarrow> plain_ws (w_text w2))"
  by (auto simp: sbind_eq_Inr_iff split: if_splits dest!: put_Inr)

lemma wrap_lines_Inr:
  "wrap_lines alloc mc ml is_sym s w = Inr w' \<Longrightarrow> w_wf w \<Longrightarrow>
   w_wf w' \<and> ink (w_text w') = ink (w_text w) @ ink s \<and>
   (plain_ws (w_text w) \<longrightarrow> plain_ws s \<longrightarrow> plain_ws (w_text w'))"
proof (induction s arbitrary: w rule: measure_induct_rule [where f = length])
  case (less s)
  let ?l = "takeWhile (\<lambda>c. c \<noteq> LF) s"
  show ?case
  proof (cases "s = []")
    case True
    with less.prems show ?thesis by (subst (asm) wrap_lines.simps) simp
  next
    case ne: False
    then show ?thesis
    proof (cases s rule: strchr_lines)
      case Last
      from less.prems(1) ne Last obtain h where
        r: "wrap_line alloc mc ml is_sym s w False = Inr (w', h)"
        by (subst (asm) wrap_lines.simps) (auto simp: Let_def sbind_eq_Inr_iff split: if_splits)
      show ?thesis by (rule wrap_line_Inr [OF r less.prems(2)])
    next
      case (More e)
      from less.prems(1) ne More(1) obtain w1 h w2 where
        r: "wrap_line alloc mc ml is_sym ?l w False = Inr (w1, h)"
        and n: "(if h then sbind (put_char alloc LF w1)
            (\<lambda>w2. Inr (w2\<lparr>w_lines := w_lines w2 + 1, w_line_len := 0\<rparr>)) else Inr w1) = Inr w2"
        and q: "wrap_lines alloc mc ml is_sym (tl e) w2 = Inr w'"
        by (subst (asm) wrap_lines.simps) (auto simp: Let_def sbind_eq_Inr_iff split: if_splits)
      have s: "ink s = ink ?l @ ink (tl e)" by (subst More(3)) simp
      have ws: "plain_ws s \<Longrightarrow> plain_ws ?l \<and> plain_ws (tl e)"
        by (metis More(3) UnCI set_append list.set_intros(2) plain_ws_mono subsetI)
      note L = wrap_line_Inr [OF r less.prems(2)]
      note N = put_newline_Inr [OF n]
      note Q = less.IH [OF More(2) q]
      from L N Q s ws show ?thesis by simp
    qed
  qed
qed

lemma wrap_lines_fault:
  "w_wf w \<Longrightarrow> wrap_lines alloc mc ml is_sym s w = Inl e \<Longrightarrow> alloc_fault alloc e"
proof (induction s arbitrary: w rule: measure_induct_rule [where f = length])
  case (less s)
  let ?l = "takeWhile (\<lambda>c. c \<noteq> LF) s"
  show ?case
  proof (cases "s = []")
    case True
    with less.prems(2) show ?thesis by (subst (asm) wrap_lines.simps) simp
  next
    case ne: False
    with less.prems(2) consider "\<not> alloc (length ?l + 1)" "e = Alloc_failed"
      | "wrap_line alloc mc ml is_sym ?l w False = Inl e"
      | w1 h e' where "wrap_line alloc mc ml is_sym ?l w False = Inr (w1, h)"
        "strchr LF s = Some e'" "put_char alloc LF w1 = Inl e"
      | w1 h e' w2 where "wrap_line alloc mc ml is_sym ?l w False = Inr (w1, h)"
        "strchr LF s = Some e'"
        "(if h then sbind (put_char alloc LF w1)
            (\<lambda>w2. Inr (w2\<lparr>w_lines := w_lines w2 + 1, w_line_len := 0\<rparr>)) else Inr w1) = Inr w2"
        "wrap_lines alloc mc ml is_sym (tl e') w2 = Inl e"
      by (subst (asm) wrap_lines.simps)
        (auto simp: Let_def sbind_eq_Inl_iff split: if_splits option.splits)
    then show ?thesis
    proof cases
      case 2
      then show ?thesis by (rule wrap_line_fault [OF less.prems(1)])
    next
      case 3
      then show ?thesis using wrap_line_Inr [OF 3(1) less.prems(1)] put_char_fault by blast
    next
      case 4
      then have "w_wf w2"
        using put_newline_Inr [OF 4(3)] wrap_line_Inr [OF 4(1) less.prems(1)] by blast
      then show ?thesis using less.IH [OF strchr_tl_less [OF ne 4(2)] _ 4(4)] by blast
    qed auto
  qed
qed

subsection \<open>The first loop\<close>

lemma ink_replace_last: "t \<noteq> [] \<Longrightarrow> last t = SP \<Longrightarrow> ink (butlast t @ [LF]) = ink t"
  by (cases t rule: rev_cases) auto

lemma collapse_ws_Inr:
  "collapse_ws alloc p b ls = Inr b' \<Longrightarrow> dbuf_wf b \<Longrightarrow> plain_ws (db_text b) \<Longrightarrow>
   dbuf_wf b' \<and> ink (db_text b') = ink (db_text b) @ ink p \<and> plain_ws (db_text b')"
proof (induction p arbitrary: b ls)
  case (Cons ch p)
  consider (nl) "ch = LF" | (ws) "ch \<noteq> LF" "isspace ch" | (ink) "\<not> isspace ch" by auto
  then show ?case
  proof cases
    case nl
    with Cons.prems(1) obtain b1 where r: "collapse_ws alloc p b1 False = Inr b'"
      and b1: "(if ls \<and> db_text b \<noteq> [] \<and> last (db_text b) = SP
           then Inr (b\<lparr>db_text := butlast (db_text b) @ [LF]\<rparr>)
           else push_char alloc LF b) = Inr b1"
      by (auto simp: sbind_eq_Inr_iff)
    have "dbuf_wf b1 \<and> ink (db_text b1) = ink (db_text b) \<and> plain_ws (db_text b1)"
    proof (cases "ls \<and> db_text b \<noteq> [] \<and> last (db_text b) = SP")
      case True
      moreover have "plain_ws (butlast (db_text b))"
        using plain_ws_mono [OF _ Cons.prems(3)] in_set_butlastD by (metis subsetI)
      ultimately show ?thesis
        using b1 Cons.prems(2) ink_replace_last [of "db_text b"] by (auto simp: dbuf_wf_def)
    next
      case False
      then show ?thesis using b1 Cons.prems(3) by (auto dest!: pushc.app_Inr)
    qed
    with Cons.IH [OF r] nl show ?thesis by simp
  next
    case ws
    show ?thesis
    proof (cases ls)
      case True
      with ws Cons.IH Cons.prems show ?thesis by simp
    next
      case False
      with ws Cons.prems(1) obtain b1 where b1: "push_char alloc SP b = Inr b1"
        and r: "collapse_ws alloc p b1 True = Inr b'" by (auto simp: sbind_eq_Inr_iff)
      from pushc.app_Inr [OF b1] Cons.prems(3) Cons.IH [OF r] ws False show ?thesis by simp
    qed
  next
    case ink
    then have "ch \<noteq> LF" "\<not> (ch = CR \<or> isspace ch)" by auto
    with Cons.prems(1) obtain b1 where b1: "push_char alloc ch b = Inr b1"
      and r: "collapse_ws alloc p b1 False = Inr b'" by (auto simp: sbind_eq_Inr_iff)
    from pushc.app_Inr [OF b1] Cons.prems(3) ink Cons.IH [OF r] \<open>ch \<noteq> LF\<close> \<open>\<not> (ch = CR \<or> isspace ch)\<close>
    show ?thesis by simp
  qed
qed simp

lemma collapse_ws_fault:
  "dbuf_wf b \<Longrightarrow> collapse_ws alloc p b ls = Inl e \<Longrightarrow> alloc_fault alloc e"
proof (induction p arbitrary: b ls)
  case (Cons ch p)
  have wf1: "dbuf_wf (b\<lparr>db_text := butlast (db_text b) @ [LF]\<rparr>)" if "db_text b \<noteq> []"
    using that Cons.prems(1) by (simp add: dbuf_wf_def)
  have push: "alloc_fault alloc e"
    if "sbind (push_char alloc c b) (\<lambda>b'. collapse_ws alloc p b' f) = Inl e" for c f
    using that pushc.app_fault [OF Cons.prems(1)] pushc.app_wf Cons.IH
    unfolding sbind_eq_Inl_iff by blast
  show ?case
    using Cons.prems(2) push Cons.IH [OF Cons.prems(1)] Cons.IH [OF wf1]
    by (simp split: if_splits)
qed simp

subsection \<open>The whole routine\<close>

lemma normalize_cue_text_Inr:
  assumes "normalize_cue_text alloc raw is_hd = Inr out"
  shows "ink out = ink (case raw of None \<Rightarrow> [] | Some s \<Rightarrow> s)" and "plain_ws out"
proof -
  let ?inp = "case raw of None \<Rightarrow> [] | Some s \<Rightarrow> s"
  from assms obtain buf0 buf outb w mc is_sym where
    b0: "dbuf_new alloc (length ?inp + 1) = Inr buf0"
    and b: "collapse_ws alloc ?inp buf0 False = Inr buf"
    and o: "dbuf_new alloc (length (db_text buf) + 1 + MAX_LINES_SD + 8) = Inr outb"
    and w: "wrap_lines alloc mc MAX_LINES_SD is_sym (db_text buf)
      \<lparr>w_out = outb, w_line_len = 0, w_lines = 1\<rparr> = Inr w"
    and out: "out = w_text w"
    by (auto simp: normalize_cue_text_def Let_def sbind_eq_Inr_iff split: if_splits)
  from dbuf_new_Inr [OF b0] have B0: "db_text buf0 = []" "dbuf_wf buf0" by simp_all
  from dbuf_new_Inr [OF o] have O: "db_text outb = []" "dbuf_wf outb" by simp_all
  from collapse_ws_Inr [OF b] B0 have B: "ink (db_text buf) = ink ?inp" "plain_ws (db_text buf)"
    by simp_all
  from wrap_lines_Inr [OF w] O B show "ink out = ink ?inp" "plain_ws out"
    by (simp_all add: out)
qed

lemma normalize_cue_text_fault:
  assumes "normalize_cue_text alloc raw is_hd = Inl e"
  shows "alloc_fault alloc e"
proof -
  have new: "alloc_fault alloc e" if "dbuf_new alloc n = Inl e" for n e
    using that by (auto simp: dbuf_new_def split: if_splits)
  have lines: "alloc_fault alloc e"
    if "dbuf_new alloc (9 + n) = Inr b"
      "wrap_lines alloc mc ml is_sym s \<lparr>w_out = b, w_line_len = 0, w_lines = Suc 0\<rparr> = Inl e"
    for n b mc ml is_sym s e
    using wrap_lines_fault [OF _ that(2)] dbuf_new_Inr [OF that(1)] by simp
  have coll: "alloc_fault alloc e"
    if "dbuf_new alloc (Suc n) = Inr b" "collapse_ws alloc p b False = Inl e" for n b p e
    using collapse_ws_fault [OF _ that(2)] dbuf_new_Inr [OF that(1)] by simp
  from assms show ?thesis
    unfolding normalize_cue_text_def Let_def
    by (auto simp: sbind_eq_Inl_iff split: if_splits intro: new lines coll)
qed

subsection \<open>Line ends and the escape \<^verbatim>\<open>\h\<close>\<close>

definition rstrip :: "cstr \<Rightarrow> cstr" where
  "rstrip s = rstrip_by (\<lambda>c. c = LF \<or> c = CR) s"

abbreviation ass_h :: cstr where
  "ass_h \<equiv> [BSL, CHR ''h'']"

text \<open>Both loops search from where the last match was edited.\<close>

function replace_ass_h :: "cstr \<Rightarrow> cstr" where
  "replace_ass_h p =
     (case strstr ass_h p of
        None \<Rightarrow> p
      | Some q \<Rightarrow> take (length p - length q) p @ SP # replace_ass_h (drop 2 q))"
  by pat_completeness auto

function remove_ass_h :: "cstr \<Rightarrow> cstr" where
  "remove_ass_h p =
     (case strstr ass_h p of
        None \<Rightarrow> p
      | Some q \<Rightarrow> take (length p - length q) p @ remove_ass_h (drop 2 q))"
  by pat_completeness auto

lemma strstr_ass_h_shorter:
  assumes "strstr ass_h p = Some q"
  shows "length q - 2 < length p" and "length q \<le> length p"
proof -
  from strstr_suffix [OF assms] have "length q \<le> length p" "2 \<le> length q"
    using starts_length [of ass_h q] suffix_length_le by auto
  then show "length q - 2 < length p" "length q \<le> length p" by simp_all
qed

termination replace_ass_h
  by (relation "measure length") (auto dest: strstr_ass_h_shorter)

termination remove_ass_h
  by (relation "measure length") (auto dest: strstr_ass_h_shorter)

declare replace_ass_h.simps [simp del] remove_ass_h.simps [simp del]

lemma replace_ass_h_simps:
  "replace_ass_h [] = []"
  "starts ass_h (x # xs) \<Longrightarrow> replace_ass_h (x # xs) = SP # replace_ass_h (drop 2 (x # xs))"
  "\<not> starts ass_h (x # xs) \<Longrightarrow> replace_ass_h (x # xs) = x # replace_ass_h xs"
  by (simp add: replace_ass_h.simps, subst replace_ass_h.simps, simp, subst (1 2) replace_ass_h.simps)
    (cases "strstr ass_h xs", auto simp: Suc_diff_le dest: strstr_ass_h_shorter)

lemma replace_ass_h_hd:
  "replace_ass_h s \<noteq> [] \<Longrightarrow> hd (replace_ass_h s) = CHR ''h'' \<Longrightarrow> s \<noteq> [] \<and> hd s = CHR ''h''"
  by (cases s; cases "starts ass_h s") (auto simp: replace_ass_h_simps)

lemma replace_ass_h_none: "strstr ass_h (replace_ass_h s) = None"
proof (induction s rule: measure_induct_rule [where f = length])
  case (less s)
  show ?case
  proof (cases s)
    case Nil
    then show ?thesis by (simp add: replace_ass_h_simps)
  next
    case (Cons x xs)
    show ?thesis
    proof (cases "starts ass_h s")
      case True
      then show ?thesis
        using less [of "drop 2 s"] Cons by (auto simp: replace_ass_h_simps)
    next
      case False
      then have "\<not> starts ass_h (x # replace_ass_h xs)"
        using replace_ass_h_hd [of xs] Cons by (cases "replace_ass_h xs"; cases xs) auto
      then show ?thesis
        using less [of xs] False Cons by (simp add: replace_ass_h_simps)
    qed
  qed
qed

subsection \<open>What the routines deliver\<close>

text \<open>C19. \<^verbatim>\<open>normalize_cue_text\<close> only moves line breaks: it returns a text with the same characters
  other than white space, in the same order, whose only white space is spaces and newlines. It ends
  otherwise only where an allocation is refused; in particular no write leaves its buffer.\<close>

theorem normalize_cue_text_keeps_text:
  "case normalize_cue_text alloc raw is_hd of
     Inr out \<Rightarrow> ink out = ink (case raw of None \<Rightarrow> [] | Some s \<Rightarrow> s) \<and> plain_ws out
   | Inl e \<Rightarrow> e = Alloc_failed \<and> (\<exists>n. \<not> alloc n)"
  using normalize_cue_text_Inr [of alloc raw is_hd] normalize_cue_text_fault [of alloc raw is_hd]
  by (auto simp: alloc_fault_def split: sum.split)

text \<open>\<^verbatim>\<open>replace_ass_h\<close> leaves no hard-space escape behind, and \<^verbatim>\<open>remove_ass_h\<close>, which only
  deletes, can: deleting one joins the characters around it, which may form another.\<close>

lemma ass_h_replaced_not_always_removed:
  "strstr ass_h (replace_ass_h s) = None \<and>
   strstr ass_h (remove_ass_h [BSL, BSL, CHR ''h'', CHR ''h'']) \<noteq> None"
proof
  show "strstr ass_h (remove_ass_h [BSL, BSL, CHR ''h'', CHR ''h'']) \<noteq> None" by code_simp
qed (rule replace_ass_h_none)

end
