(* ===== verification/Qc.thy ===== *)
theory Qc
  imports Utf8_text
begin

text \<open>
  \<^verbatim>\<open>qc.c\<close>: the quality checks that run on every parsed cue. A report line is kept as its
  stream, cue, level and message, the message being a constructor with the numbers that are
  printed into it; the state is what has been reported and the error counter of batch runs.
  The measuring loop advances by the lead byte alone, so on truncated UTF-8 it reads behind
  the terminator: that is a fault of the model, and the lemmas show that well-formed text
  cannot cause it and that the loop then measures what it means to measure.
\<close>

datatype qc_level = OVERLAP | QC_ERROR | WARN | INFO

datatype qc_msg =
    Overlaps_previous
  | End_le_start
  | Duration_too_short
  | Duration_too_long
  | Line_exceeds nat nat
  | Too_many_lines nat
  | Control_characters
  | Empty_cue_text
  | Too_verbose
  | Markup_normalized

record qc_line =
  ql_to_file :: bool
  ql_filename :: cstr
  ql_cue :: nat
  ql_level :: qc_level
  ql_msg :: qc_msg

record qc_state =
  qc_lines :: "qc_line list"
  qc_error_count :: int

definition qc_reset_counts :: "qc_state \<Rightarrow> qc_state" where
  "qc_reset_counts st = st\<lparr>qc_error_count := 0\<rparr>"

text \<open>\<^verbatim>\<open>log_qc\<close>: one line to the QC file, or to stderr where there is none.\<close>

definition log_qc :: "bool \<Rightarrow> qc_level \<Rightarrow> cstr \<Rightarrow> nat \<Rightarrow> qc_msg \<Rightarrow> qc_state \<Rightarrow> qc_state" where
  "log_qc qc level filename cue_idx msg st =
     st\<lparr>qc_lines := qc_lines st @
          [\<lparr>ql_to_file = qc, ql_filename = filename, ql_cue = cue_idx, ql_level = level,
            ql_msg = msg\<rparr>],
        qc_error_count :=
          (if level = QC_ERROR then qc_error_count st + 1 else qc_error_count st)\<rparr>"

definition QC_MAX_CHARS_SD :: nat where "QC_MAX_CHARS_SD = 37"
definition QC_MAX_CHARS_HD :: nat where "QC_MAX_CHARS_HD = 67"

text \<open>The measuring loop: longest line and number of lines.\<close>

function qc_measure :: "cstr \<Rightarrow> nat \<Rightarrow> nat \<Rightarrow> nat \<Rightarrow> (nat \<times> nat) cres" where
  "qc_measure t maxlen curlen lines =
     (case t of
        [] \<Rightarrow> Inr (max maxlen curlen, lines)
      | c # t1 \<Rightarrow>
          if c = LF then
            qc_measure t1 (max maxlen curlen) 0 (if t1 = [] then lines else lines + 1)
          else
            let adv = lead_skip c
            in if adv > length t then Inl Out_of_bounds
               else qc_measure (drop adv t) maxlen (curlen + 1) lines)"
  by pat_completeness auto
termination
  by (relation "measure (\<lambda>(t, _, _, _). length t)") auto

declare qc_measure.simps [simp del]

definition has_control :: "cstr \<Rightarrow> bool" where
  "has_control t \<longleftrightarrow> (\<exists>c\<in>set t. code c < 32 \<and> c \<noteq> LF \<and> c \<noteq> CHR 0x09)"

text \<open>\<^verbatim>\<open>log_qc\<close> under a condition.\<close>

definition log_if :: "bool \<Rightarrow> bool \<Rightarrow> qc_level \<Rightarrow> cstr \<Rightarrow> nat \<Rightarrow> qc_msg \<Rightarrow> qc_state \<Rightarrow> qc_state" where
  "log_if b qc level filename cue_idx msg st =
     (if b then log_qc qc level filename cue_idx msg st else st)"

definition qc_check_entry ::
    "int \<Rightarrow> int \<Rightarrow> bool \<Rightarrow> cstr \<Rightarrow> nat \<Rightarrow> SRTEntry \<Rightarrow> SRTEntry option \<Rightarrow> qc_state \<Rightarrow> qc_state cres"
where
  "qc_check_entry video_w video_h qc filename cue_idx cur prev st =
     (let log = (\<lambda>b level msg. log_if b qc level filename cue_idx msg);
          dur = end_ms cur - start_ms cur;
          st1 = log (case prev of None \<Rightarrow> False | Some p \<Rightarrow> start_ms cur < end_ms p)
                  OVERLAP Overlaps_previous st;
          st2 = log (end_ms cur \<le> start_ms cur) QC_ERROR End_le_start st1;
          st3 = log (dur < 250) WARN Duration_too_short st2;
          st4 = log (dur > 10000) WARN Duration_too_long st3;
          t = entry_text cur
      in sbind (qc_measure t 0 0 1) (\<lambda>(maxlen, lines).
         let is_hd = (video_w > 720 \<or> video_h > 576);
             threshold = (if is_hd then QC_MAX_CHARS_HD else QC_MAX_CHARS_SD);
             st5 = log (maxlen > threshold) WARN (Line_exceeds threshold maxlen) st4;
             st6 = log (lines > 3) WARN (Too_many_lines lines) st5;
             st7 = log (has_control t) WARN Control_characters st6;
             st8 = log (t = []) WARN Empty_cue_text st7;
             st9 = log (length t > 200) WARN Too_verbose st8;
             st10 = log (strstr ''</span>'' t \<noteq> None \<or> strstr ''</i>'' t \<noteq> None \<or>
                         strstr ''</b>'' t \<noteq> None \<or> strstr ''</u>'' t \<noteq> None)
                      INFO Markup_normalized st9
         in Inr st10))"

subsection \<open>What the loop measures\<close>

text \<open>Lines as the screen shows them: a newline at the very end starts no line.\<close>

fun text_lines :: "cstr \<Rightarrow> cstr list" where
  "text_lines [] = [[]]"
| "text_lines (c # t) =
     (if c = LF then (if t = [] then [[]] else [] # text_lines t)
      else (case text_lines t of [] \<Rightarrow> [[c]] | l # ls \<Rightarrow> (c # l) # ls))"

lemma text_lines_nonempty [simp]: "text_lines t \<noteq> []"
  by (cases t) (auto split: list.splits)

lemma is_ascii_LF [simp]: "is_ascii LF"
  by (simp add: is_ascii_def byte_of_def)

lemma text_lines_sequence:
  assumes "LF \<notin> set a"
  shows "text_lines (a @ r) = (a @ hd (text_lines r)) # tl (text_lines r)"
  using assms
proof (induction a)
  case Nil
  then show ?case by simp
next
  case (Cons c a)
  then show ?case by auto
qed

lemma sequence_no_LF:
  assumes "w \<noteq> []" and "fst (validate_utf8_sequence w b)" and "hd w \<noteq> LF"
  shows "LF \<notin> set (take (lead_skip (hd w)) w)"
proof -
  have "\<not> is_cont LF" using ascii_not_cont by simp
  with assms show ?thesis by (cases rule: validate_shapes) auto
qed

definition longest_line :: "cstr list \<Rightarrow> nat" where
  "longest_line ls = foldr max (map u8_len ls) 0"

lemma longest_line_Cons [simp]: "longest_line (l # ls) = max (u8_len l) (longest_line ls)"
  by (simp add: longest_line_def)

lemma longest_line_Nil [simp]: "longest_line [] = 0"
  by (simp add: longest_line_def)

lemma qc_measure_valid:
  "u8_valid t \<Longrightarrow>
   qc_measure t maxlen curlen lines =
     Inr (max maxlen (max (curlen + u8_len (hd (text_lines t))) (longest_line (tl (text_lines t)))),
          lines + length (text_lines t) - 1)"
proof (induction t arbitrary: maxlen curlen lines rule: measure_induct_rule [where f = length])
  case (less t)
  show ?case
  proof (cases t)
    case Nil
    then show ?thesis by (simp add: qc_measure.simps u8_len.simps)
  next
    case (Cons c t1)
    have ne: "t \<noteq> []" using Cons by simp
    have v: "fst (validate_utf8_sequence t False)"
      using less.prems ne by (subst (asm) u8_valid.simps) simp
    show ?thesis
    proof (cases "c = LF")
      case True
      then have "u8_valid t1"
        using u8_valid_after_ascii [of "[]" c t1] less.prems Cons by simp
      note IH = less.IH [OF _ this, of "max maxlen curlen" 0]
      have step: "qc_measure t maxlen curlen lines =
          qc_measure t1 (max maxlen curlen) 0 (if t1 = [] then lines else lines + 1)"
        using True Cons by (subst qc_measure.simps) simp
      show ?thesis
      proof (cases "t1 = []")
        case True
        with step Cons \<open>c = LF\<close> show ?thesis by (simp add: qc_measure.simps u8_len.simps)
      next
        case False
        have "longest_line (text_lines t1) =
            max (u8_len (hd (text_lines t1))) (longest_line (tl (text_lines t1)))"
          by (cases "text_lines t1") auto
        with IH [of "lines + 1"] step False Cons \<open>c = LF\<close> show ?thesis
          by (cases "text_lines t1") (auto simp: u8_len.simps [of "[]"] max.assoc)
      qed
    next
      case False
      let ?n = "lead_skip (hd t)"
      let ?a = "take ?n t" and ?r = "drop ?n t"
      have n: "?n \<le> length t" by (rule validate_skip_le [OF ne v])
      have r: "u8_valid ?r" using less.prems ne by (subst (asm) u8_valid.simps) simp
      have step: "qc_measure t maxlen curlen lines = qc_measure ?r maxlen (curlen + 1) lines"
        using False Cons n by (subst qc_measure.simps) simp
      have "LF \<notin> set ?a" using sequence_no_LF [OF ne v] False Cons by simp
      from text_lines_sequence [OF this, of ?r] have tl:
        "text_lines t = (?a @ hd (text_lines ?r)) # tl (text_lines ?r)" by simp
      have len: "u8_len (?a @ hd (text_lines ?r)) = Suc (u8_len (hd (text_lines ?r)))"
        by (rule u8_len_sequence [OF ne v])
      have "length ?r < length t" using ne by simp
      from less.IH [OF this r, of maxlen "curlen + 1" lines] step tl len show ?thesis
        by simp
    qed
  qed
qed

subsection \<open>What is reported\<close>

lemmas qc_log_defs = log_if_def log_qc_def

definition line_if :: "bool \<Rightarrow> bool \<Rightarrow> qc_level \<Rightarrow> cstr \<Rightarrow> nat \<Rightarrow> qc_msg \<Rightarrow> qc_line list" where
  "line_if b qc lv fn i m =
     (if b then [\<lparr>ql_to_file = qc, ql_filename = fn, ql_cue = i, ql_level = lv, ql_msg = m\<rparr>] else [])"

lemma line_if_bex: "(\<exists>l\<in>set (line_if b qc lv fn i m). ql_level l = k) \<longleftrightarrow> b \<and> lv = k"
  by (simp add: line_if_def)

lemma line_if_ball: "(\<forall>l\<in>set (line_if b qc lv fn i m). ql_cue l = i \<and> ql_filename l = fn)"
  by (simp add: line_if_def)

lemma log_if_lines: "qc_lines (log_if b qc lv fn i m st) = qc_lines st @ line_if b qc lv fn i m"
  by (simp add: qc_log_defs line_if_def)

lemma log_if_count:
  "qc_error_count (log_if b qc lv fn i m st) =
     qc_error_count st + (if b \<and> lv = QC_ERROR then 1 else 0)"
  by (simp add: qc_log_defs)

text \<open>The levels of the lines a check adds, and the error counter with them.\<close>

lemma qc_check_entry_Inr:
  assumes "qc_check_entry vw vh qc fn i cur prev st = Inr st'"
  obtains new where "qc_lines st' = qc_lines st @ new"
    and "\<forall>l\<in>set new. ql_cue l = i \<and> ql_filename l = fn"
    and "(\<exists>l\<in>set new. ql_level l = OVERLAP) \<longleftrightarrow>
      (case prev of None \<Rightarrow> False | Some p \<Rightarrow> start_ms cur < end_ms p)"
    and "(\<exists>l\<in>set new. ql_level l = QC_ERROR) \<longleftrightarrow> end_ms cur \<le> start_ms cur"
    and "qc_error_count st' = qc_error_count st + (if end_ms cur \<le> start_ms cur then 1 else 0)"
proof -
  from assms obtain ml ls where m: "qc_measure (entry_text cur) 0 0 1 = Inr (ml, ls)"
    by (auto simp: qc_check_entry_def Let_def sbind_eq_Inr_iff)
  let ?l = "\<lambda>b lv m. line_if b qc lv fn i m" and ?t = "entry_text cur"
  let ?th = "if vw > 720 \<or> vh > 576 then QC_MAX_CHARS_HD else QC_MAX_CHARS_SD"
  let ?ov = "case prev of None \<Rightarrow> False | Some p \<Rightarrow> start_ms cur < end_ms p"
  have lines: "qc_lines st' = qc_lines st @ ?l ?ov OVERLAP Overlaps_previous @
      ?l (end_ms cur \<le> start_ms cur) QC_ERROR End_le_start @
      ?l (end_ms cur - start_ms cur < 250) WARN Duration_too_short @
      ?l (end_ms cur - start_ms cur > 10000) WARN Duration_too_long @
      ?l (ml > ?th) WARN (Line_exceeds ?th ml) @ ?l (ls > 3) WARN (Too_many_lines ls) @
      ?l (has_control ?t) WARN Control_characters @ ?l (?t = []) WARN Empty_cue_text @
      ?l (length ?t > 200) WARN Too_verbose @
      ?l (strstr ''</span>'' ?t \<noteq> None \<or> strstr ''</i>'' ?t \<noteq> None \<or>
          strstr ''</b>'' ?t \<noteq> None \<or> strstr ''</u>'' ?t \<noteq> None) INFO Markup_normalized"
    and count: "qc_error_count st' = qc_error_count st + (if end_ms cur \<le> start_ms cur then 1 else 0)"
    unfolding assms [unfolded qc_check_entry_def Let_def m sbind_Inr prod.case sum.inject, symmetric]
    by (simp_all only: log_if_lines log_if_count append_assoc, simp)
  show thesis
    by (rule that [OF lines _ _ _ count])
      (simp_all only: set_append bex_Un ball_Un line_if_bex qc_level.distinct simp_thms,
        intro conjI line_if_ball)
qed

lemma qc_check_entry_valid:
  "u8_valid (entry_text cur) \<Longrightarrow> \<exists>st'. qc_check_entry vw vh qc fn i cur prev st = Inr st'"
  by (simp add: qc_check_entry_def Let_def qc_measure_valid)

subsection \<open>What is reported\<close>

lemma line_if_msg: "map (\<lambda>l. (ql_level l, ql_msg l)) (line_if b qc lv fn i m) = (if b then [(lv, m)] else [])"
  by (simp add: line_if_def)

lemma qc_measure_lines:
  assumes "u8_valid t"
  shows "qc_measure t 0 0 1 = Inr (longest_line (text_lines t), length (text_lines t))"
proof -
  obtain l ls where "text_lines t = l # ls" using text_lines_nonempty [of t] by (cases "text_lines t") auto
  with qc_measure_valid [OF assms, of 0 0 1] show ?thesis by simp
qed

text \<open>C24. On well-formed text \<^verbatim>\<open>qc_check_entry\<close> reports exactly what it is documented to: the
  overlap, the cue that does not end after it starts, durations under 250 ms or over 10 s, a
  longest line (in code points) over the limit for the resolution, more than three lines, control
  characters, an empty text, more than 200 bytes, and normalised markup, in this order, all for this
  cue; the error counter counts the error among them.\<close>

theorem qc_check_entry_reports:
  assumes "u8_valid (entry_text cur)"
  shows "\<exists>st' new. qc_check_entry vw vh qc fn i cur prev st = Inr st' \<and>
    qc_lines st' = qc_lines st @ new \<and>
    qc_error_count st' = qc_error_count st + (if end_ms cur \<le> start_ms cur then 1 else 0) \<and>
    list_all (\<lambda>l. ql_cue l = i \<and> ql_filename l = fn \<and> ql_to_file l = qc) new \<and>
    map (\<lambda>l. (ql_level l, ql_msg l)) new =
      (let t = entry_text cur; dur = end_ms cur - start_ms cur;
           limit = (if vw > 720 \<or> vh > 576 then QC_MAX_CHARS_HD else QC_MAX_CHARS_SD);
           longest = longest_line (text_lines t); lines = length (text_lines t)
       in map snd (filter fst
            [(case prev of None \<Rightarrow> False | Some p \<Rightarrow> start_ms cur < end_ms p, OVERLAP, Overlaps_previous),
             (end_ms cur \<le> start_ms cur, QC_ERROR, End_le_start),
             (dur < 250, WARN, Duration_too_short),
             (10000 < dur, WARN, Duration_too_long),
             (limit < longest, WARN, Line_exceeds limit longest),
             (3 < lines, WARN, Too_many_lines lines),
             (has_control t, WARN, Control_characters),
             (t = [], WARN, Empty_cue_text),
             (200 < length t, WARN, Too_verbose),
             (strstr ''</span>'' t \<noteq> None \<or> strstr ''</i>'' t \<noteq> None \<or>
              strstr ''</b>'' t \<noteq> None \<or> strstr ''</u>'' t \<noteq> None, INFO, Markup_normalized)]))"
proof -
  let ?t = "entry_text cur"
  obtain st' where st': "qc_check_entry vw vh qc fn i cur prev st = Inr st'"
    using qc_check_entry_valid [OF assms] by blast
  from st' have l: "qc_lines st' = qc_lines st @
     line_if (case prev of None \<Rightarrow> False | Some p \<Rightarrow> start_ms cur < end_ms p) qc OVERLAP fn i Overlaps_previous @
     line_if (end_ms cur \<le> start_ms cur) qc QC_ERROR fn i End_le_start @
     line_if (end_ms cur - start_ms cur < 250) qc WARN fn i Duration_too_short @
     line_if (10000 < end_ms cur - start_ms cur) qc WARN fn i Duration_too_long @
     line_if ((if vw > 720 \<or> vh > 576 then QC_MAX_CHARS_HD else QC_MAX_CHARS_SD) < longest_line (text_lines ?t))
       qc WARN fn i (Line_exceeds (if vw > 720 \<or> vh > 576 then QC_MAX_CHARS_HD else QC_MAX_CHARS_SD)
         (longest_line (text_lines ?t))) @
     line_if (3 < length (text_lines ?t)) qc WARN fn i (Too_many_lines (length (text_lines ?t))) @
     line_if (has_control ?t) qc WARN fn i Control_characters @
     line_if (?t = []) qc WARN fn i Empty_cue_text @
     line_if (200 < length ?t) qc WARN fn i Too_verbose @
     line_if (strstr ''</span>'' ?t \<noteq> None \<or> strstr ''</i>'' ?t \<noteq> None \<or>
       strstr ''</b>'' ?t \<noteq> None \<or> strstr ''</u>'' ?t \<noteq> None) qc INFO fn i Markup_normalized"
    (is "_ = _ @ ?new")
    and c: "qc_error_count st' = qc_error_count st + (if end_ms cur \<le> start_ms cur then 1 else 0)"
    by (auto simp only: qc_check_entry_def Let_def qc_measure_lines [OF assms] sbind_Inr prod.case
      sum.inject log_if_lines log_if_count append_assoc simp_thms qc_level.distinct if_cancel if_False add_0_right)
  have f: "list_all (\<lambda>l. ql_cue l = i \<and> ql_filename l = fn \<and> ql_to_file l = qc) ?new"
    by (simp add: line_if_def)
  show ?thesis
    by (rule exI [of _ st'], rule exI [of _ ?new], intro conjI st' l c f) (simp add: line_if_msg Let_def)
qed

theorem qc_check_entry_reports_witness:
  "\<exists>st'. qc_check_entry 720 576 True ''a.srt'' 7
       \<lparr>start_ms = 0, end_ms = 200, entry_text = ''Hi'', alignment = 2\<rparr> None
       \<lparr>qc_lines = [], qc_error_count = 3\<rparr> = Inr st' \<and>
     map (\<lambda>l. (ql_level l, ql_msg l)) (qc_lines st') = [(WARN, Duration_too_short)] \<and>
     qc_error_count st' = 3"
proof -
  let ?e = "\<lparr>start_ms = 0, end_ms = 200, entry_text = ''Hi'', alignment = 2\<rparr>"
  let ?q = "\<lparr>qc_lines = [], qc_error_count = 3\<rparr>"
  have v: "u8_valid (entry_text ?e)" by code_simp
  have m: "has_control ''Hi'' = False" "longest_line (text_lines ''Hi'') = 2"
    "length (text_lines ''Hi'') = 1" by code_simp+
  from qc_check_entry_reports [OF v, of 720 576 True "''a.srt''" 7 None ?q] obtain st' new where
    "qc_check_entry 720 576 True ''a.srt'' 7 ?e None ?q = Inr st'" "qc_lines st' = new"
    "qc_error_count st' = 3" "map (\<lambda>l. (ql_level l, ql_msg l)) new = [(WARN, Duration_too_short)]"
    by (auto simp: Let_def m QC_MAX_CHARS_SD_def simp del: text_lines.simps)
  then show ?thesis by auto
qed

text \<open>A text that is cut inside its last sequence.\<close>

lemma qc_measure_truncated:
  "u8_valid p \<Longrightarrow> 1 < lead_skip c \<Longrightarrow> qc_measure (p @ [c]) m k l = Inl Out_of_bounds"
proof (induction p arbitrary: m k l rule: measure_induct_rule [where f = length])
  case (less p)
  show ?case
  proof (cases p)
    case Nil
    have "c \<noteq> LF" using less.prems(2) by auto
    with Nil less.prems(2) show ?thesis by (simp add: qc_measure.simps [of "[c]"])
  next
    case (Cons a t)
    then have v: "fst (validate_utf8_sequence p False)" "u8_valid (drop (lead_skip a) p)"
      using less.prems(1) [unfolded u8_valid.simps [of p]] by auto
    have n: "lead_skip a \<le> length p" using validate_skip_le [OF _ v(1)] Cons by simp
    from less.IH [OF _ v(2) less.prems(2)] have IH:
      "qc_measure (drop (lead_skip a) p @ [c]) m' k' l' = Inl Out_of_bounds" for m' k' l'
      using Cons by simp
    show ?thesis
    proof (cases "a = LF")
      case True
      then have "lead_skip a = 1" by simp
      with IH Cons True show ?thesis by (simp add: qc_measure.simps [of "LF # t @ [c]"])
    next
      case False
      have "drop (lead_skip a) (p @ [c]) = drop (lead_skip a) p @ [c]" using n by simp
      with IH Cons n False show ?thesis
        by (simp add: qc_measure.simps [of "a # t @ [c]"])
    qed
  qed
qed

text \<open>On text that breaks off inside a UTF-8 sequence the measuring loop of
  \<^verbatim>\<open>qc_check_entry\<close> steps over the terminating NUL and reads what lies behind the text.\<close>

lemma qc_check_entry_reads_past_end:
  assumes "u8_valid p" and "1 < lead_skip c" and "entry_text cur = p @ [c]"
  shows "qc_check_entry vw vh qc fn i cur prev st = Inl Out_of_bounds"
  using qc_measure_truncated [OF assms(1,2)] by (simp add: qc_check_entry_def Let_def assms(3))

lemma qc_check_entry_reads_past_end_example:
  "qc_check_entry 720 576 True ''a.srt'' 0
     \<lparr>start_ms = 0, end_ms = 1000, entry_text = [CHR ''a'', CHR 0xE2], alignment = 2\<rparr> None
     \<lparr>qc_lines = [], qc_error_count = 0\<rparr> = Inl Out_of_bounds"
proof -
  have v: "u8_valid ''a''" "1 < lead_skip (CHR 0xE2)" by code_simp+
  show ?thesis by (rule qc_check_entry_reads_past_end [OF v]) simp
qed

end
