(* ===== verification/Clib.thy ===== *)
theory Clib
  imports Prelude
begin

text \<open>
  The numeric and tokenising part of the C library: \<^verbatim>\<open>strtol\<close> in base ten, \<^verbatim>\<open>sscanf\<close>
  restricted to \<^verbatim>\<open>%d\<close>, literal characters and white space, \<^verbatim>\<open>strtok_r\<close> with one delimiter,
  \<^verbatim>\<open>fgets\<close>, and decimal output with zero padding. The lemmas are the laws the parsers
  rely on: reading back what was printed, and splitting back what was joined.
\<close>

subsection \<open>Numbers\<close>

definition LONG_MAX :: int where "LONG_MAX = 9223372036854775807"
definition LONG_MIN :: int where "LONG_MIN = - 9223372036854775808"
definition INT_MAX :: int where "INT_MAX = 2147483647"
definition INT_MIN :: int where "INT_MIN = - 2147483648"

text \<open>Conversion of a \<^verbatim>\<open>long\<close> to a 32-bit \<^verbatim>\<open>int\<close>: two's complement truncation.\<close>

definition to_int32 :: "int \<Rightarrow> int" where
  "to_int32 v = (v + 2147483648) mod 4294967296 - 2147483648"

definition digits_val :: "cstr \<Rightarrow> int" where
  "digits_val ds = foldl (\<lambda>a c. a * 10 + digit_val c) 0 ds"

text \<open>White space, a sign, the digits and what follows them.\<close>

definition num_split :: "cstr \<Rightarrow> bool \<times> cstr \<times> cstr" where
  "num_split s =
     (case lstrip s of
        [] \<Rightarrow> (False, [], [])
      | c # r \<Rightarrow>
          if c = CHR ''-'' then (True, takeWhile isdigit r, dropWhile isdigit r)
          else if c = CHR ''+'' then (False, takeWhile isdigit r, dropWhile isdigit r)
          else (False, takeWhile isdigit (c # r), dropWhile isdigit (c # r)))"

text \<open>
  \<^verbatim>\<open>strtol(s, &end, 10)\<close>: the value, the end pointer and whether \<^verbatim>\<open>errno\<close> is \<^verbatim>\<open>ERANGE\<close>.
  Without digits the end pointer is \<open>s\<close> itself.
\<close>

definition strtol :: "cstr \<Rightarrow> int \<times> cstr \<times> bool" where
  "strtol s =
     (case num_split s of (neg, ds, r) \<Rightarrow>
        if ds = [] then (0, s, False)
        else
          let v = (if neg then - digits_val ds else digits_val ds)
          in if v < LONG_MIN then (LONG_MIN, r, True)
             else if v > LONG_MAX then (LONG_MAX, r, True)
             else (v, r, False))"

text \<open>One \<^verbatim>\<open>%d\<close>: the library converts with \<^verbatim>\<open>strtol\<close> and stores the value as an \<^verbatim>\<open>int\<close>.\<close>

definition scan_int :: "cstr \<Rightarrow> (int \<times> cstr) option" where
  "scan_int s =
     (case num_split s of (neg, ds, r) \<Rightarrow>
        if ds = [] then None else Some (to_int32 (fst (strtol s)), r))"

text \<open>\<^verbatim>\<open>atoi\<close>.\<close>

definition atoi :: "cstr \<Rightarrow> int" where
  "atoi s = to_int32 (fst (strtol s))"

datatype fmt = FInt | FLit char | FWs

text \<open>
  \<^verbatim>\<open>sscanf\<close>: the integers stored before the first directive that does not match; the
  return value of the call is the length of the list.
\<close>

fun sscanf_ints :: "fmt list \<Rightarrow> cstr \<Rightarrow> int list" where
  "sscanf_ints [] s = []"
| "sscanf_ints (FInt # fs) s =
     (case scan_int s of None \<Rightarrow> [] | Some (v, r) \<Rightarrow> v # sscanf_ints fs r)"
| "sscanf_ints (FLit c # fs) s =
     (case s of [] \<Rightarrow> [] | x # r \<Rightarrow> if x = c then sscanf_ints fs r else [])"
| "sscanf_ints (FWs # fs) s = sscanf_ints fs (lstrip s)"

subsection \<open>Decimal output\<close>

definition digit_char :: "nat \<Rightarrow> char" where
  "digit_char d = char_of (48 + d)"

fun dec :: "nat \<Rightarrow> cstr" where
  "dec n = (if n < 10 then [digit_char n] else dec (n div 10) @ [digit_char (n mod 10)])"

declare dec.simps [simp del]

text \<open>\<^verbatim>\<open>%0wd\<close> of a non-negative number.\<close>

definition dec_pad :: "nat \<Rightarrow> nat \<Rightarrow> cstr" where
  "dec_pad w n = replicate (w - length (dec n)) (CHR ''0'') @ dec n"

lemma code_digit_char [simp]: "d < 10 \<Longrightarrow> code (digit_char d) = 48 + d"
  by (simp add: code_def digit_char_def)

lemma isdigit_digit_char [simp]: "d < 10 \<Longrightarrow> isdigit (digit_char d)"
  by (simp add: isdigit_def)

lemma digit_val_digit_char [simp]: "d < 10 \<Longrightarrow> digit_val (digit_char d) = int d"
  by (simp add: digit_val_def)

lemma digits_val_snoc: "digits_val (ds @ [c]) = digits_val ds * 10 + digit_val c"
  by (simp add: digits_val_def)

lemma dec_nonempty [simp]: "dec n \<noteq> []"
  by (subst dec.simps) simp

lemma dec_digits: "\<forall>c \<in> set (dec n). isdigit c"
proof (induction n rule: dec.induct)
  case (1 n)
  then show ?case by (subst dec.simps) auto
qed

lemma digits_val_dec: "digits_val (dec n) = int n"
proof (induction n rule: dec.induct)
  case (1 n)
  show ?case
  proof (cases "n < 10")
    case True
    then show ?thesis by (subst dec.simps) (simp add: digits_val_def)
  next
    case False
    with 1 have "digits_val (dec n) = int (n div 10) * 10 + int (n mod 10)"
      by (subst dec.simps) (simp add: digits_val_snoc)
    also have "\<dots> = int n" by presburger
    finally show ?thesis .
  qed
qed

lemma foldl_zeros:
  "foldl (\<lambda>a c. a * 10 + digit_val c) 0 (replicate k (CHR ''0'') @ ds) =
   foldl (\<lambda>a c. a * 10 + digit_val c) 0 ds"
  by (induction k) (simp_all add: digit_val_def code_def)

lemma digits_val_pad: "digits_val (dec_pad w n) = int n"
  using digits_val_dec [of n] by (simp add: digits_val_def dec_pad_def foldl_zeros del: foldl_append)

lemma dec_pad_digits: "\<forall>c \<in> set (dec_pad w n). isdigit c"
  using dec_digits by (auto simp: dec_pad_def isdigit_def code_def)

lemma dec_pad_nonempty [simp]: "dec_pad w n \<noteq> []"
  by (simp add: dec_pad_def)

lemma dec_length: "n < 10 ^ Suc k \<Longrightarrow> length (dec n) \<le> Suc k"
proof (induction k arbitrary: n)
  case 0
  then show ?case by (subst dec.simps) simp
next
  case (Suc k)
  then have "n div 10 < 10 ^ Suc k" by (simp add: less_mult_imp_div_less mult.commute)
  from Suc.IH [OF this] show ?case by (subst dec.simps) simp
qed

lemma dec_pad_length: "n < 10 ^ Suc k \<Longrightarrow> length (dec_pad w n) \<le> max w (Suc k)"
  using dec_length [of n k] by (simp add: dec_pad_def)

subsection \<open>Reading back a printed number\<close>

lemma takeWhile_isdigit_append:
  "\<forall>c \<in> set ds. isdigit c \<Longrightarrow> (r = [] \<or> \<not> isdigit (hd r)) \<Longrightarrow>
   takeWhile isdigit (ds @ r) = ds \<and> dropWhile isdigit (ds @ r) = r"
  by (cases r) auto

lemma num_split_digits:
  assumes "\<forall>c \<in> set ds. isdigit c" and "ds \<noteq> []" and "r = [] \<or> \<not> isdigit (hd r)"
  shows "num_split (ds @ r) = (False, ds, r)"
proof -
  from assms(2) obtain c cs where ds: "ds = c # cs" by (cases ds) auto
  with assms(1) have c: "isdigit c" by simp
  then have l: "lstrip (ds @ r) = ds @ r"
    by (simp add: lstrip_def ds isdigit_not_isspace)
  from c have "c \<noteq> CHR ''-''" and "c \<noteq> CHR ''+''"
    by (auto simp: isdigit_def code_def)
  with l takeWhile_isdigit_append [OF assms(1,3)] show ?thesis
    by (simp add: num_split_def ds)
qed

lemma num_split_lstrip [simp]: "num_split (lstrip s) = num_split s"
  by (simp add: num_split_def lstrip_def)

lemma to_int32_id: "INT_MIN \<le> v \<Longrightarrow> v \<le> INT_MAX \<Longrightarrow> to_int32 v = v"
  by (simp add: to_int32_def INT_MIN_def INT_MAX_def)

lemma to_int32_range: "INT_MIN \<le> to_int32 v \<and> to_int32 v \<le> INT_MAX"
  by (simp add: to_int32_def INT_MIN_def INT_MAX_def)

lemma scan_int_pad:
  assumes "int n \<le> INT_MAX" and "r = [] \<or> \<not> isdigit (hd r)"
  shows "scan_int (dec_pad w n @ r) = Some (int n, r)"
proof -
  have sp: "num_split (dec_pad w n @ r) = (False, dec_pad w n, r)"
    by (rule num_split_digits) (use assms dec_pad_digits in auto)
  have b: "\<not> int n < LONG_MIN" "\<not> int n > LONG_MAX"
    using assms(1) by (auto simp: LONG_MIN_def LONG_MAX_def INT_MAX_def)
  have "to_int32 (int n) = int n"
    by (rule to_int32_id) (use assms(1) in \<open>auto simp: INT_MIN_def\<close>)
  with sp b show ?thesis
    by (simp add: scan_int_def strtol_def digits_val_pad)
qed

lemma scan_int_lstrip [simp]: "scan_int (SP # s) = scan_int s"
proof -
  have "num_split (SP # s) = num_split s" by (simp add: num_split_def lstrip_def)
  then show ?thesis by (auto simp: scan_int_def strtol_def split: prod.splits if_splits)
qed

lemma scan_int_range: "scan_int s = Some (v, r) \<Longrightarrow> INT_MIN \<le> v \<and> v \<le> INT_MAX"
  using to_int32_range by (auto simp: scan_int_def split: prod.splits if_splits)

lemma sscanf_ints_range: "v \<in> set (sscanf_ints fs s) \<Longrightarrow> INT_MIN \<le> v \<and> v \<le> INT_MAX"
proof (induction fs s rule: sscanf_ints.induct)
  case (2 fs s)
  then show ?case by (cases "scan_int s") (auto dest: scan_int_range)
qed (auto split: list.splits if_splits)

text \<open>\<^verbatim>\<open>%d\<close> of a signed number, and \<^verbatim>\<open>strtol\<close> of it.\<close>

definition show_int :: "int \<Rightarrow> cstr" where
  "show_int v = (if v < 0 then CHR ''-'' # dec (nat (- v)) else dec (nat v))"

lemma num_split_show: "num_split (show_int v) = (v < 0, dec (nat \<bar>v\<bar>), [])"
proof (cases "v < 0")
  case True
  have "\<not> isspace (CHR ''-'')" by (simp add: isspace_def code_def)
  moreover have "takeWhile isdigit (dec n) = dec n" for n using dec_digits [of n] by simp
  moreover have "dropWhile isdigit (dec n) = []" for n using dec_digits [of n] by simp
  ultimately show ?thesis using True by (simp add: num_split_def show_int_def lstrip_def)
next
  case False
  then show ?thesis
    using num_split_digits [OF dec_digits dec_nonempty, of "[]" "nat v"] by (simp add: show_int_def)
qed

lemma strtol_show:
  assumes "LONG_MIN \<le> v" and "v \<le> LONG_MAX"
  shows "strtol (show_int v) = (v, [], False)"
proof -
  have d: "digits_val (dec (nat \<bar>v\<bar>)) = \<bar>v\<bar>" by (simp add: digits_val_dec)
  show ?thesis
    by (cases "v < 0") (use assms d in \<open>auto simp: strtol_def num_split_show Let_def\<close>)
qed

lemma show_int_chars: "c \<in> set (show_int v) \<Longrightarrow> isdigit c \<or> c = CHR ''-''"
  using dec_digits by (auto simp: show_int_def split: if_splits)

lemma show_int_nonempty [simp]: "show_int v \<noteq> []" "[] \<noteq> show_int v"
  using dec_nonempty [of "nat v", symmetric] by (simp_all add: show_int_def)

lemma show_int_no_space: "c \<in> set (show_int v) \<Longrightarrow> \<not> isspace c"
  using show_int_chars [of c v] isdigit_not_isspace [of c] by (auto simp: isspace_def code_def)

lemma show_int_no_comma: "CHR '','' \<notin> set (show_int v)"
  using show_int_chars [of "CHR '',''" v] by (auto simp: isdigit_def code_def)

subsection \<open>Tokens\<close>

text \<open>One call of \<^verbatim>\<open>strtok_r\<close>: the token and the saved rest, \<open>None\<close> for the null pointer.\<close>

definition strtok_r :: "char \<Rightarrow> cstr \<Rightarrow> (cstr \<times> cstr) option" where
  "strtok_r d s =
     (let t = dropWhile (\<lambda>c. c = d) s
      in if t = [] then None
         else Some (takeWhile (\<lambda>c. c \<noteq> d) t, tl (dropWhile (\<lambda>c. c \<noteq> d) t)))"

lemma strtok_r_shorter: "strtok_r d s = Some (t, r) \<Longrightarrow> length r < length s"
proof -
  assume a: "strtok_r d s = Some (t, r)"
  let ?u = "dropWhile (\<lambda>c. c = d) s"
  from a have u: "?u \<noteq> []" and r: "r = tl (dropWhile (\<lambda>c. c \<noteq> d) ?u)"
    by (auto simp: strtok_r_def Let_def split: if_splits)
  have "length (tl (dropWhile (\<lambda>c. c \<noteq> d) ?u)) < length ?u"
    using u length_dropWhile_le [of "\<lambda>c. c \<noteq> d" ?u] by (cases ?u) auto
  also have "length ?u \<le> length s" by (rule length_dropWhile_le)
  finally show ?thesis using r by simp
qed

text \<open>All the tokens a loop over \<^verbatim>\<open>strtok_r\<close> sees.\<close>

function tokens :: "char \<Rightarrow> cstr \<Rightarrow> cstr list" where
  "tokens d s = (case strtok_r d s of None \<Rightarrow> [] | Some (t, r) \<Rightarrow> t # tokens d r)"
  by pat_completeness auto
termination
  by (relation "measure (\<lambda>(d, s). length s)") (auto dest: strtok_r_shorter)

declare tokens.simps [simp del]

lemma tokens_wf: "t \<in> set (tokens d s) \<Longrightarrow> t \<noteq> [] \<and> d \<notin> set t"
proof (induction d s rule: tokens.induct)
  case (1 d s)
  show ?case
  proof (cases "strtok_r d s")
    case None
    with 1 show ?thesis by (simp add: tokens.simps [of d s])
  next
    case (Some p)
    then obtain u r where p: "strtok_r d s = Some (u, r)" by (cases p) auto
    have "u \<noteq> [] \<and> d \<notin> set u"
    proof -
      let ?v = "dropWhile (\<lambda>c. c = d) s"
      from p have v: "?v \<noteq> []" and u: "u = takeWhile (\<lambda>c. c \<noteq> d) ?v"
        by (auto simp: strtok_r_def Let_def split: if_splits)
      from hd_dropWhile [OF v] have "hd ?v \<noteq> d" by simp
      with v u show ?thesis by (cases ?v) (auto dest: set_takeWhileD)
    qed
    with 1 p show ?thesis by (auto simp: tokens.simps [of d s])
  qed
qed

lemma tokens_delim [simp]: "tokens d (d # s) = tokens d s"
  by (simp add: tokens.simps [of d "d # s"] tokens.simps [of d s] strtok_r_def)

lemma tokens_Nil [simp]: "tokens d [] = []"
  by (simp add: tokens.simps [of d "[]"] strtok_r_def)

lemma tokens_word:
  assumes "s \<noteq> []" and "hd s \<noteq> d"
  shows "tokens d s = takeWhile (\<lambda>c. c \<noteq> d) s # tokens d (dropWhile (\<lambda>c. c \<noteq> d) s)"
proof -
  have "dropWhile (\<lambda>c. c = d) s = s" using assms by (cases s) auto
  with assms(1) have "tokens d s = takeWhile (\<lambda>c. c \<noteq> d) s # tokens d (tl (dropWhile (\<lambda>c. c \<noteq> d) s))"
    by (simp add: tokens.simps [of d s] strtok_r_def)
  moreover have "tokens d (tl (dropWhile (\<lambda>c. c \<noteq> d) s)) = tokens d (dropWhile (\<lambda>c. c \<noteq> d) s)"
  proof (cases "dropWhile (\<lambda>c. c \<noteq> d) s")
    case (Cons c u)
    then have "c = d" using hd_dropWhile [of "\<lambda>c. c \<noteq> d" s] by simp
    with Cons show ?thesis by simp
  qed (simp del: dropWhile_eq_Nil_conv)
  ultimately show ?thesis by simp
qed

text \<open>The words of a list with a delimiter between them.\<close>

fun join :: "char \<Rightarrow> cstr list \<Rightarrow> cstr" where
  "join d [] = []"
| "join d [x] = x"
| "join d (x # y # ys) = x @ d # join d (y # ys)"

lemma strtok_r_token:
  assumes "t \<noteq> []" and "d \<notin> set t"
  shows "strtok_r d t = Some (t, [])" and "strtok_r d (t @ d # r) = Some (t, r)"
proof -
  from assms obtain c cs where t: "t = c # cs" "c \<noteq> d" "d \<notin> set cs" by (cases t) auto
  then have a: "takeWhile (\<lambda>c. c \<noteq> d) cs = cs" "dropWhile (\<lambda>c. c \<noteq> d) cs = []" by auto
  with t show "strtok_r d t = Some (t, [])"
    by (simp add: strtok_r_def del: dropWhile_eq_Nil_conv)
  from a have "takeWhile (\<lambda>c. c \<noteq> d) (cs @ d # r) = cs"
    "dropWhile (\<lambda>c. c \<noteq> d) (cs @ d # r) = d # r"
    using t by (auto simp: takeWhile_append dropWhile_append)
  with t show "strtok_r d (t @ d # r) = Some (t, r)" by (simp add: strtok_r_def)
qed

lemma tokens_join:
  "\<forall>t \<in> set ts. t \<noteq> [] \<and> d \<notin> set t \<Longrightarrow> tokens d (join d ts) = ts"
proof (induction d ts rule: join.induct)
  case (1 d)
  then show ?case by (simp add: tokens.simps strtok_r_def)
next
  case (2 d x)
  then show ?case by (simp add: tokens.simps [of d x] strtok_r_token)
next
  case (3 d x y ys)
  then show ?case by (simp add: tokens.simps [of d "x @ d # join d (y # ys)"] strtok_r_token)
qed

subsection \<open>Lines of a file\<close>

text \<open>
  \<^verbatim>\<open>fgets(buf, n + 1, f)\<close> on a file with the given bytes left: at most \<open>n\<close> bytes, up to and
  including the first newline, and the bytes still unread; \<open>None\<close> at the end of the file.
\<close>

fun read_line :: "nat \<Rightarrow> char list \<Rightarrow> char list \<times> char list" where
  "read_line 0 f = ([], f)"
| "read_line (Suc n) [] = ([], [])"
| "read_line (Suc n) (c # f) =
     (if c = LF then ([c], f) else (case read_line n f of (l, r) \<Rightarrow> (c # l, r)))"

definition fgets :: "nat \<Rightarrow> char list \<Rightarrow> (cstr \<times> char list) option" where
  "fgets n f = (if f = [] then None else
     (case read_line n f of (l, r) \<Rightarrow> Some (cstr_of l, r)))"

lemma read_line_split: "read_line n f = (l, r) \<Longrightarrow> f = l @ r"
  by (induction n f arbitrary: l r rule: read_line.induct)
    (auto split: if_splits prod.splits)

lemma fgets_shorter: "0 < n \<Longrightarrow> fgets n f = Some (l, r) \<Longrightarrow> length r < length f"
  by (cases n; cases f) (auto simp: fgets_def split: if_splits prod.splits dest!: read_line_split)

lemma fgets_length: "fgets n f = Some (l, r) \<Longrightarrow> length l \<le> n"
proof -
  assume a: "fgets n f = Some (l, r)"
  have "length (fst (read_line n f)) \<le> n" for n f
    by (induction n f rule: read_line.induct) (auto split: prod.splits)
  moreover from a have "l = cstr_of (fst (read_line n f))"
    by (auto simp: fgets_def split: if_splits prod.splits)
  ultimately show ?thesis
    by (metis cstr_of_def le_trans length_takeWhile_le)
qed

lemma read_line_line:
  "LF \<notin> set s \<Longrightarrow> length s < n \<Longrightarrow> read_line n (s @ LF # r) = (s @ [LF], r)"
proof (induction s arbitrary: n)
  case Nil
  then show ?case by (cases n) auto
next
  case (Cons c s)
  then show ?case by (cases n) auto
qed

lemma fgets_line:
  assumes "LF \<notin> set s" and "NUL \<notin> set s" and "length s < n"
  shows "fgets n (s @ LF # r) = Some (s @ [LF], r)"
proof -
  from assms(2) have "cstr_of (s @ [LF]) = s @ [LF]"
    by (auto simp: cstr_of_def takeWhile_append)
  with read_line_line [OF assms(1,3)] show ?thesis by (simp add: fgets_def)
qed

end
