(* ===== verification/Srt_parser.thy ===== *)
theory Srt_parser
  imports Srt_text Qc Clib
begin

text \<open>
  The parsers of \<^verbatim>\<open>srt_parser.c\<close>. A file is the list of its bytes; each loop iteration reads
  a line with \<^verbatim>\<open>fgets\<close>, skips an optional index line, reads the time line and collects the
  text up to the next empty line. \<^verbatim>\<open>parse_srt_internal\<close> is the core parser,
  \<^verbatim>\<open>parse_srt_with_stats\<close> the variant that also repairs and counts. The lemmas give the
  invariant of the cue list and what is reported about it.
\<close>

subsection \<open>Lines of the file\<close>

definition SIZEOF_LINE :: nat where "SIZEOF_LINE = 2048"
definition SIZEOF_TEXTBUF :: nat where "SIZEOF_TEXTBUF = 8192"
definition SIZEOF_ENTRY :: nat where "SIZEOF_ENTRY = 32"
definition INITIAL_CAP :: nat where "INITIAL_CAP = 128"

definition get_line :: "char list \<Rightarrow> (cstr \<times> char list) option" where
  "get_line f = map_option (\<lambda>(l, r). (rstrip l, r)) (fgets (SIZEOF_LINE - 1) f)"

lemma get_line_shorter: "get_line f = Some (l, r) \<Longrightarrow> length r < length f"
  by (auto simp: get_line_def SIZEOF_LINE_def dest: fgets_shorter [rotated])

text \<open>An equation for evaluation that compares with the buffer size in binary.\<close>

lemma read_line_short:
  "length (takeWhile (\<lambda>c. c \<noteq> LF) f) < n \<Longrightarrow>
   read_line n f = (let k = length (takeWhile (\<lambda>c. c \<noteq> LF) f) + 1 in (take k f, drop k f))"
  by (induction n f rule: read_line.induct) (auto simp: Let_def split: if_splits)

lemma get_line_code [code]:
  "get_line f =
     (if f = [] then None
      else
        let k = length (takeWhile (\<lambda>c. c \<noteq> LF) f)
        in if int k < 2047 then Some (rstrip (cstr_of (take (k + 1) f)), drop (k + 1) f)
           else map_option (\<lambda>(l, r). (rstrip l, r)) (fgets (SIZEOF_LINE - 1) f))"
  using read_line_short [of f 2047] by (simp add: get_line_def fgets_def SIZEOF_LINE_def Let_def)

definition strip_bom :: "cstr \<Rightarrow> cstr" where
  "strip_bom line =
     (if starts [CHR 0xEF, CHR 0xBB, CHR 0xBF] line then drop 3 line else line)"

text \<open>The text lines of a cue, joined in \<^verbatim>\<open>textbuf\<close>; a line that does not fit is dropped.\<close>

function read_text :: "char list \<Rightarrow> cstr \<Rightarrow> cstr \<times> char list" where
  "read_text f textbuf =
     (case get_line f of
        None \<Rightarrow> (textbuf, f)
      | Some (line, f1) \<Rightarrow>
          if line = [] then (textbuf, f1)
          else read_text f1
            (if length textbuf + length line + 2 < SIZEOF_TEXTBUF then textbuf @ line @ [LF]
             else textbuf))"
  by pat_completeness auto
termination
  by (relation "measure (\<lambda>(f, _). length f)") (auto dest: get_line_shorter)

declare read_text.simps [simp del]

lemma read_text_code [code]:
  "read_text f textbuf =
     (case get_line f of
        None \<Rightarrow> (textbuf, f)
      | Some (line, f1) \<Rightarrow>
          if line = [] then (textbuf, f1)
          else read_text f1
            (if int (length textbuf + length line) < 8190 then textbuf @ line @ [LF] else textbuf))"
  by (subst read_text.simps) (simp add: SIZEOF_TEXTBUF_def split: option.split)

text \<open>One iteration, and induction along the loop.\<close>

lemma read_text_end [simp]: "get_line f = None \<Longrightarrow> read_text f tb = (tb, f)"
  by (subst read_text.simps) simp

lemma read_text_blank [simp]: "get_line f = Some ([], f1) \<Longrightarrow> read_text f tb = (tb, f1)"
  by (subst read_text.simps) simp

lemma read_text_line:
  "get_line f = Some (l, f1) \<Longrightarrow> l \<noteq> [] \<Longrightarrow>
   read_text f tb = read_text f1
     (if length tb + length l + 2 < SIZEOF_TEXTBUF then tb @ l @ [LF] else tb)"
  by (subst read_text.simps) simp

lemma read_text_induct [case_names End Blank Line]:
  assumes "\<And>f tb. get_line f = None \<Longrightarrow> P f tb"
    and "\<And>f f1 tb. get_line f = Some ([], f1) \<Longrightarrow> P f tb"
    and "\<And>f f1 l tb. get_line f = Some (l, f1) \<Longrightarrow> l \<noteq> [] \<Longrightarrow>
      P f1 (if length tb + length l + 2 < SIZEOF_TEXTBUF then tb @ l @ [LF] else tb) \<Longrightarrow> P f tb"
  shows "P f tb"
proof (induction f arbitrary: tb rule: measure_induct_rule [where f = length])
  case (less f)
  show ?case
  proof (cases "get_line f")
    case (Some p)
    then obtain l f1 where p: "get_line f = Some (l, f1)" by (cases p) auto
    show ?thesis
      by (cases "l = []") (use p assms(2,3) less get_line_shorter [OF p] in blast)+
  qed (rule assms(1))
qed

lemma read_text_shorter: "length (snd (read_text f tb)) \<le> length f"
proof (induction f tb rule: read_text_induct)
  case (Line f f1 l tb)
  then show ?case using get_line_shorter [OF Line(1)] by (simp add: read_text_line)
qed (auto dest: get_line_shorter)

text \<open>\<^verbatim>\<open>textbuf\<close> never overflows.\<close>

lemma read_text_bound:
  "length tb < SIZEOF_TEXTBUF \<Longrightarrow> length (fst (read_text f tb)) < SIZEOF_TEXTBUF"
proof (induction f tb rule: read_text_induct)
  case (Line f f1 l tb)
  then show ?case by (simp add: read_text_line split: if_splits)
qed simp_all

subsection \<open>Time lines\<close>

definition time_fmt :: "char \<Rightarrow> fmt list" where
  "time_fmt sep = [FInt, FLit (CHR '':''), FInt, FLit (CHR '':''), FInt, FLit sep, FInt]"

definition short_time_fmt :: "char \<Rightarrow> fmt list" where
  "short_time_fmt sep = [FInt, FLit (CHR '':''), FInt, FLit sep, FInt]"

definition range_fmt :: "fmt list \<Rightarrow> cstr \<Rightarrow> fmt list" where
  "range_fmt t arrow = t @ FWs # map FLit arrow @ FWs # t"

definition ranges_bad :: "int \<Rightarrow> int \<Rightarrow> int \<Rightarrow> bool" where
  "ranges_bad m s ms \<longleftrightarrow> m < 0 \<or> m > 59 \<or> s < 0 \<or> s > 59 \<or> ms < 0 \<or> ms > 999"

definition to_ms :: "int \<Rightarrow> int \<Rightarrow> int \<Rightarrow> int \<Rightarrow> int" where
  "to_ms h m s ms = (h * 3600 + m * 60 + s) * 1000 + ms"

text \<open>The eight variables \<^verbatim>\<open>h1\<close> to \<^verbatim>\<open>ms2\<close>, where all eight conversions succeeded.\<close>

type_synonym times = "(int \<times> int \<times> int \<times> int) \<times> (int \<times> int \<times> int \<times> int)"

definition eight :: "int list \<Rightarrow> times option" where
  "eight v =
     (if length v = 8 then Some ((v ! 0, v ! 1, v ! 2, v ! 3), (v ! 4, v ! 5, v ! 6, v ! 7))
      else None)"

text \<open>Start and end in milliseconds: \<open>None\<close> where a field is out of range or the cue does not end
  after it starts.\<close>

definition times_ms :: "times \<Rightarrow> (int \<times> int) option" where
  "times_ms t =
     (case t of ((h1, m1, s1, ms1), (h2, m2, s2, ms2)) \<Rightarrow>
        if ranges_bad m1 s1 ms1 \<or> ranges_bad m2 s2 ms2 then None
        else
          let start = to_ms h1 m1 s1 ms1; endt = to_ms h2 m2 s2 ms2
          in if endt \<le> start then None else Some (start, endt))"

text \<open>The time line of \<^verbatim>\<open>parse_srt_internal\<close>: the standard format only.\<close>

definition cue_times :: "cstr \<Rightarrow> (int \<times> int) option" where
  "cue_times line =
     (case eight (sscanf_ints (range_fmt (time_fmt (CHR '','')) ''-->'') line) of
        None \<Rightarrow> None
      | Some t \<Rightarrow> times_ms t)"

lemma times_ms_less: "times_ms t = Some (a, b) \<Longrightarrow> a < b"
  by (auto simp: times_ms_def Let_def split: prod.splits if_splits)

subsection \<open>Storing a cue\<close>

text \<open>Who calls and how: the allocator, the file name, the QC stream, the parser's own
  configuration and the global video size that the quality checks read.\<close>

record parse_env =
  pe_alloc :: "nat \<Rightarrow> bool"
  pe_filename :: cstr
  pe_qc :: bool
  pe_use_ass :: bool
  pe_video_w :: int
  pe_video_h :: int
  pe_global_w :: int
  pe_global_h :: int

text \<open>The cues so far (\<^verbatim>\<open>*entries_out\<close>, \<^verbatim>\<open>n\<close>), the capacity of the array, and the QC report.\<close>

record parse_state =
  ps_entries :: "SRTEntry list"
  ps_cap :: nat
  ps_qc :: qc_state

definition grow_entries :: "(nat \<Rightarrow> bool) \<Rightarrow> parse_state \<Rightarrow> parse_state cres" where
  "grow_entries alloc ps =
     (if length (ps_entries ps) \<ge> ps_cap ps then
        (let cap = ps_cap ps * 2
         in if alloc (cap * SIZEOF_ENTRY) then Inr (ps\<lparr>ps_cap := cap\<rparr>) else Inl Alloc_failed)
      else Inr ps)"

definition norm_text :: "parse_env \<Rightarrow> cstr \<Rightarrow> cstr cres" where
  "norm_text env textbuf =
     (if pe_use_ass env then
        (if pe_alloc env (length textbuf + 1) then Inr (replace_ass_h textbuf) else Inl Alloc_failed)
      else
        sbind
          (normalize_cue_text (pe_alloc env) (Some textbuf)
            (pe_video_w env > 720 \<or> pe_video_h env > 576))
          (\<lambda>norm. Inr (rstrip (remove_ass_h norm))))"

text \<open>``Correct overlaps'': the start moves to the previous end, and the end behind it where it
  would lie before the start.\<close>

definition fix_overlap :: "SRTEntry option \<Rightarrow> SRTEntry \<Rightarrow> SRTEntry" where
  "fix_overlap prev e =
     (case prev of
        None \<Rightarrow> e
      | Some p \<Rightarrow>
          if start_ms e < end_ms p then
            let e1 = e\<lparr>start_ms := end_ms p\<rparr>
            in if start_ms e1 > end_ms e1 then e1\<lparr>end_ms := start_ms e1 + 1\<rparr> else e1
          else e)"

definition cue_alignment :: "cstr \<Rightarrow> int" where
  "cue_alignment textbuf =
     (case strstr (CHR ''{'' # BSL # ''an'') textbuf of
        None \<Rightarrow> 2
      | Some tag \<Rightarrow>
          if length tag \<ge> 5 then
            let c = digit_val (tag ! 4) in if c \<ge> 1 \<and> c \<le> 9 then c else 2
          else 2)"

definition last_entry :: "SRTEntry list \<Rightarrow> SRTEntry option" where
  "last_entry es = (if es = [] then None else Some (last es))"

definition store_cue :: "parse_env \<Rightarrow> cstr \<Rightarrow> int \<Rightarrow> int \<Rightarrow> parse_state \<Rightarrow> parse_state cres" where
  "store_cue env textbuf start endt ps0 =
     sbind (grow_entries (pe_alloc env) ps0) (\<lambda>ps.
     sbind (norm_text env textbuf) (\<lambda>norm.
     let n = length (ps_entries ps);
         prev = last_entry (ps_entries ps);
         e = (fix_overlap prev
               \<lparr>start_ms = start, end_ms = endt, entry_text = norm, alignment = 0\<rparr>)
             \<lparr>alignment := cue_alignment textbuf\<rparr>
     in case strip_tags (pe_alloc env) (Some (entry_text e)) of
          None \<Rightarrow> Inl Alloc_failed
        | Some plain \<Rightarrow>
            sbind
              (qc_check_entry (pe_global_w env) (pe_global_h env) (pe_qc env) (pe_filename env) n
                (e\<lparr>entry_text := plain\<rparr>) prev (ps_qc ps))
              (\<lambda>q. Inr (ps\<lparr>ps_entries := ps_entries ps @ [e], ps_qc := q\<rparr>))))"

subsection \<open>\<^verbatim>\<open>parse_srt_internal\<close>\<close>

text \<open>The time line: the next line of the file where the current one starts with an index.
  \<open>None\<close>: the file ends after the index.\<close>

definition time_line :: "cstr \<Rightarrow> char list \<Rightarrow> (cstr \<times> char list) option" where
  "time_line line f =
     (case sscanf_ints [FInt] line of
        [] \<Rightarrow> Some (line, f)
      | idx # _ \<Rightarrow> get_line f)"

lemma time_line_shorter: "time_line line f = Some (l, r) \<Longrightarrow> length r \<le> length f"
  by (auto simp: time_line_def split: list.splits dest: get_line_shorter)

function parse_loop :: "parse_env \<Rightarrow> char list \<Rightarrow> parse_state \<Rightarrow> parse_state cres" where
  "parse_loop env f ps =
     (case get_line f of
        None \<Rightarrow> Inr ps
      | Some (line, f1) \<Rightarrow>
          if line = [] then parse_loop env f1 ps
          else
            (case time_line (strip_bom line) f1 of
               None \<Rightarrow> Inr ps
             | Some (tline, f2) \<Rightarrow>
                 (case cue_times tline of
                    None \<Rightarrow> parse_loop env f2 ps
                  | Some (start, endt) \<Rightarrow>
                      sbind (store_cue env (fst (read_text f2 [])) start endt ps)
                        (\<lambda>ps'. parse_loop env (snd (read_text f2 [])) ps'))))"
  by pat_completeness auto
termination
proof (relation "measure (\<lambda>(_, f, _). length f)", simp, goal_cases)
  case (1 env f ps x line f1)
  then show ?case by (auto dest!: get_line_shorter)
next
  case (2 env f ps x line f1 y tline f2)
  then show ?case by (auto dest!: get_line_shorter time_line_shorter)
next
  case (3 env f ps x line f1 y tline f2 z start endt ps')
  then show ?case
    using read_text_shorter [of f2 "[]"]
    by (auto dest!: get_line_shorter time_line_shorter)
qed

declare parse_loop.simps [simp del]

datatype parse_error = Cannot_open | Parse_fault cfault

definition parse_srt_internal ::
    "parse_env \<Rightarrow> char list option \<Rightarrow> qc_state \<Rightarrow> parse_error + (SRTEntry list \<times> qc_state)" where
  "parse_srt_internal env file q =
     (case file of
        None \<Rightarrow> Inl Cannot_open
      | Some f \<Rightarrow>
          if \<not> pe_alloc env (INITIAL_CAP * SIZEOF_ENTRY) then Inl (Parse_fault Alloc_failed)
          else
            (case parse_loop env f \<lparr>ps_entries = [], ps_cap = INITIAL_CAP, ps_qc = q\<rparr> of
               Inl e \<Rightarrow> Inl (Parse_fault e)
             | Inr ps \<Rightarrow> Inr (ps_entries ps, ps_qc ps)))"

subsection \<open>The invariant of the cue list\<close>

fun cue_chain :: "SRTEntry list \<Rightarrow> bool" where
  "cue_chain [] = True"
| "cue_chain [e] \<longleftrightarrow> start_ms e \<le> end_ms e"
| "cue_chain (e # e' # es) \<longleftrightarrow>
     start_ms e \<le> end_ms e \<and> end_ms e \<le> start_ms e' \<and> cue_chain (e' # es)"

lemma cue_chain_snoc:
  "cue_chain (es @ [e]) \<longleftrightarrow>
   cue_chain es \<and> start_ms e \<le> end_ms e \<and> (es \<noteq> [] \<longrightarrow> end_ms (last es) \<le> start_ms e)"
  by (induction es rule: cue_chain.induct) auto

lemma cue_chain_last: "cue_chain es \<Longrightarrow> es \<noteq> [] \<Longrightarrow> start_ms (last es) \<le> end_ms (last es)"
  by (cases es rule: rev_cases) (auto simp: cue_chain_snoc)

lemma cue_chain_ordered: "cue_chain es \<Longrightarrow> \<forall>e\<in>set es. start_ms e \<le> end_ms e"
  by (induction es rule: cue_chain.induct) auto

text \<open>Any two cues of a chain, in order, do not overlap.\<close>

lemma cue_chain_nth:
  assumes "cue_chain es" and "i < j" and "j < length es"
  shows "end_ms (es ! i) \<le> start_ms (es ! j)"
  using assms
proof (induction es arbitrary: i j rule: rev_induct)
  case (snoc e es)
  show ?case
  proof (cases "j < length es")
    case True
    with snoc show ?thesis by (simp add: cue_chain_snoc nth_append)
  next
    case False
    with snoc.prems have j: "j = length es" and i: "i < length es" by auto
    then have ne: "es \<noteq> []" by auto
    have "end_ms (es ! i) \<le> end_ms (last es)"
    proof (cases "i = length es - 1")
      case True
      then show ?thesis using ne by (simp add: last_conv_nth)
    next
      case False
      with i have "end_ms (es ! i) \<le> start_ms (es ! (length es - 1))"
        using snoc.IH [of i "length es - 1"] snoc.prems(1) by (simp add: cue_chain_snoc)
      moreover have "start_ms (last es) \<le> end_ms (last es)"
        using snoc.prems(1) ne cue_chain_last by (simp add: cue_chain_snoc)
      ultimately show ?thesis using ne by (simp add: last_conv_nth)
    qed
    also have "\<dots> \<le> start_ms e" using snoc.prems(1) ne by (simp add: cue_chain_snoc)
    finally show ?thesis using i j by (simp add: nth_append)
  qed
qed simp

lemma fix_overlap_chain:
  assumes "start_ms e \<le> end_ms e"
  shows "start_ms (fix_overlap p e) \<le> end_ms (fix_overlap p e)"
    and "p = Some q \<Longrightarrow> end_ms q \<le> start_ms (fix_overlap p e)"
  using assms by (auto simp: fix_overlap_def Let_def split: option.splits)

lemma fix_overlap_id: "(\<And>q. p = Some q \<Longrightarrow> end_ms q \<le> start_ms e) \<Longrightarrow> fix_overlap p e = e"
  by (force simp: fix_overlap_def split: option.splits)

lemma fix_overlap_text [simp]: "entry_text (fix_overlap p e) = entry_text e"
  by (simp add: fix_overlap_def Let_def split: option.split)

lemma cue_alignment_range: "1 \<le> cue_alignment tb \<and> cue_alignment tb \<le> 9"
  by (simp add: cue_alignment_def Let_def split: option.split)

lemma cue_times_less: "cue_times line = Some (a, b) \<Longrightarrow> a < b"
  by (auto simp: cue_times_def split: option.splits dest: times_ms_less)

text \<open>What storing a cue does.\<close>

lemma store_cue_Inr:
  assumes "store_cue env tb a b ps = Inr ps'" and "a \<le> b"
  obtains e norm where "ps_entries ps' = ps_entries ps @ [e]"
    and "norm_text env tb = Inr norm" and "entry_text e = norm"
    and "e = (fix_overlap (last_entry (ps_entries ps))
           \<lparr>start_ms = a, end_ms = b, entry_text = norm, alignment = 0\<rparr>)\<lparr>alignment := cue_alignment tb\<rparr>"
    and "qc_check_entry (pe_global_w env) (pe_global_h env) (pe_qc env) (pe_filename env)
           (length (ps_entries ps)) (e\<lparr>entry_text := strip_from norm\<rparr>) (last_entry (ps_entries ps))
           (ps_qc ps) = Inr (ps_qc ps')"
proof -
  from assms obtain ps1 norm plain q e where g: "grow_entries (pe_alloc env) ps = Inr ps1"
    and n: "norm_text env tb = Inr norm"
    and e: "e = (fix_overlap (last_entry (ps_entries ps1))
           \<lparr>start_ms = a, end_ms = b, entry_text = norm, alignment = 0\<rparr>)\<lparr>alignment := cue_alignment tb\<rparr>"
    and p: "strip_tags (pe_alloc env) (Some (entry_text e)) = Some plain"
    and q: "qc_check_entry (pe_global_w env) (pe_global_h env) (pe_qc env) (pe_filename env)
           (length (ps_entries ps1)) (e\<lparr>entry_text := plain\<rparr>) (last_entry (ps_entries ps1))
           (ps_qc ps1) = Inr q"
    and ps': "ps' = ps1\<lparr>ps_entries := ps_entries ps1 @ [e], ps_qc := q\<rparr>"
    by (auto simp: store_cue_def sbind_eq_Inr_iff Let_def split: option.splits)
  from g have ps1: "ps_entries ps1 = ps_entries ps" "ps_qc ps1 = ps_qc ps"
    by (auto simp: grow_entries_def Let_def split: if_splits)
  from p have "plain = strip_from norm" by (simp add: e strip_tags_def split: if_splits)
  with ps1 n e q ps' show thesis by (intro that [of e norm]) auto
qed

text \<open>Induction along the parse loop: a property of the state that storing a cue keeps.\<close>

lemma parse_loop_inv:
  assumes step: "\<And>tb a b ps ps'. store_cue env tb a b ps = Inr ps' \<Longrightarrow> a < b \<Longrightarrow> P ps \<Longrightarrow> P ps'"
  shows "parse_loop env f ps = Inr ps' \<Longrightarrow> P ps \<Longrightarrow> P ps'"
proof (induction f arbitrary: ps rule: measure_induct_rule [where f = length])
  case (less f)
  show ?case
  proof (cases "get_line f")
    case None
    with less.prems show ?thesis by (simp add: parse_loop.simps [of env f])
  next
    case (Some p)
    then obtain line f1 where l: "get_line f = Some (line, f1)" by (cases p) auto
    note l1 = get_line_shorter [OF l]
    show ?thesis
    proof (cases "line = [] \<or> time_line (strip_bom line) f1 = None")
      case True
      with l less.prems less.IH [OF l1] show ?thesis
        by (auto simp: parse_loop.simps [of env f] split: if_splits)
    next
      case False
      then obtain tl f2 where t: "line \<noteq> []" "time_line (strip_bom line) f1 = Some (tl, f2)" by auto
      have l2: "length f2 < length f" using time_line_shorter [OF t(2)] l1 by simp
      show ?thesis
      proof (cases "cue_times tl")
        case None
        with l t less.prems less.IH [OF l2] show ?thesis
          by (simp add: parse_loop.simps [of env f])
      next
        case (Some ab)
        then obtain a b where c: "cue_times tl = Some (a, b)" by (cases ab) auto
        with l t less.prems(1) obtain ps1 where
          s: "store_cue env (fst (read_text f2 [])) a b ps = Inr ps1"
          and r: "parse_loop env (snd (read_text f2 [])) ps1 = Inr ps'"
          by (auto simp: parse_loop.simps [of env f] sbind_eq_Inr_iff)
        have "length (snd (read_text f2 [])) < length f"
          using read_text_shorter [of f2 "[]"] l2 by simp
        from less.IH [OF this r] step [OF s cue_times_less [OF c] less.prems(2)] show ?thesis
          by blast
      qed
    qed
  qed
qed

text \<open>The invariant of the state between iterations.\<close>

definition parse_inv :: "parse_env \<Rightarrow> qc_state \<Rightarrow> parse_state \<Rightarrow> bool" where
  "parse_inv env q ps \<longleftrightarrow>
     cue_chain (ps_entries ps) \<and>
     (\<forall>e\<in>set (ps_entries ps). 1 \<le> alignment e \<and> alignment e \<le> 9) \<and>
     (\<exists>new. qc_lines (ps_qc ps) = qc_lines q @ new \<and> (\<forall>l\<in>set new. ql_level l \<noteq> OVERLAP)) \<and>
     qc_error_count (ps_qc ps) =
       qc_error_count q + int (length (filter (\<lambda>e. end_ms e = start_ms e) (ps_entries ps)))"

lemma store_cue_inv:
  assumes "store_cue env tb a b ps = Inr ps'" and "a < b" and "parse_inv env q ps"
  shows "parse_inv env q ps'"
proof -
  from assms(1) obtain e norm where es: "ps_entries ps' = ps_entries ps @ [e]"
    and e: "e = (fix_overlap (last_entry (ps_entries ps))
           \<lparr>start_ms = a, end_ms = b, entry_text = norm, alignment = 0\<rparr>)\<lparr>alignment := cue_alignment tb\<rparr>"
    and qc: "qc_check_entry (pe_global_w env) (pe_global_h env) (pe_qc env) (pe_filename env)
           (length (ps_entries ps)) (e\<lparr>entry_text := strip_from norm\<rparr>) (last_entry (ps_entries ps))
           (ps_qc ps) = Inr (ps_qc ps')"
    using assms(2) by (elim store_cue_Inr) auto
  let ?e0 = "\<lparr>start_ms = a, end_ms = b, entry_text = norm, alignment = 0\<rparr>"
  have ord: "start_ms e \<le> end_ms e" and
    ov: "ps_entries ps \<noteq> [] \<Longrightarrow> end_ms (last (ps_entries ps)) \<le> start_ms e"
    using fix_overlap_chain [of ?e0] assms(2) by (auto simp: e last_entry_def)
  from qc obtain new where "qc_lines (ps_qc ps') = qc_lines (ps_qc ps) @ new"
    and "(\<exists>l\<in>set new. ql_level l = OVERLAP) \<longleftrightarrow>
      (case last_entry (ps_entries ps) of None \<Rightarrow> False
       | Some p \<Rightarrow> start_ms e < end_ms p)"
    and cnt: "qc_error_count (ps_qc ps') = qc_error_count (ps_qc ps) + (if end_ms e \<le> start_ms e then 1 else 0)"
    by (elim qc_check_entry_Inr) (simp cong: option.case_cong)
  moreover from ov have "\<not> (case last_entry (ps_entries ps) of None \<Rightarrow> False
       | Some p \<Rightarrow> start_ms e < end_ms p)" by (auto simp: last_entry_def)
  ultimately have new: "qc_lines (ps_qc ps') = qc_lines (ps_qc ps) @ new"
    "\<forall>l\<in>set new. ql_level l \<noteq> OVERLAP" by auto
  obtain old where "qc_lines (ps_qc ps) = qc_lines q @ old" "\<forall>l\<in>set old. ql_level l \<noteq> OVERLAP"
    using assms(3) by (auto simp: parse_inv_def)
  with new have lines: "\<exists>new. qc_lines (ps_qc ps') = qc_lines q @ new \<and>
      (\<forall>l\<in>set new. ql_level l \<noteq> OVERLAP)"
    by (intro exI [of _ "old @ new"]) auto
  show ?thesis
    unfolding parse_inv_def
  proof (intro conjI lines)
    show "cue_chain (ps_entries ps')"
      using assms(3) ord ov by (simp add: es cue_chain_snoc parse_inv_def)
    show "\<forall>e\<in>set (ps_entries ps'). 1 \<le> alignment e \<and> alignment e \<le> 9"
      using assms(3) cue_alignment_range [of tb] by (simp add: es parse_inv_def) (simp add: e)
    show "qc_error_count (ps_qc ps') = qc_error_count q +
        int (length (filter (\<lambda>e. end_ms e = start_ms e) (ps_entries ps')))"
      using assms(3) cnt ord by (auto simp: es parse_inv_def)
  qed
qed

subsection \<open>What the parser delivers\<close>

lemma parse_srt_internal_inv:
  assumes "parse_srt_internal env (Some f) q = Inr (es, q')"
  obtains ps where "parse_inv env q ps" and "ps_entries ps = es" and "ps_qc ps = q'"
proof -
  from assms obtain ps where
    p: "parse_loop env f \<lparr>ps_entries = [], ps_cap = INITIAL_CAP, ps_qc = q\<rparr> = Inr ps"
    and r: "ps_entries ps = es" "ps_qc ps = q'"
    by (auto simp: parse_srt_internal_def split: if_splits sum.splits)
  have "parse_inv env q ps"
  proof (rule parse_loop_inv [OF _ p])
    show "parse_inv env q \<lparr>ps_entries = [], ps_cap = INITIAL_CAP, ps_qc = q\<rparr>"
      by (simp add: parse_inv_def)
  qed (rule store_cue_inv)
  from this r show thesis by (rule that)
qed

text \<open>C3. Whatever the file holds, the cues that \<^verbatim>\<open>parse_srt\<close> returns are in temporal order and do
  not overlap: any cue ends before any later one starts, no cue ends before it starts, and every
  alignment is a keypad position. Therefore the quality check never reports an overlap for them, and
  its error counter counts the cues that the overlap correction left without duration.\<close>

theorem parsed_cues_ordered:
  assumes "parse_srt_internal env (Some f) q = Inr (es, q')"
  shows "(\<forall>i j. i < j \<and> j < length es \<longrightarrow> end_ms (es ! i) \<le> start_ms (es ! j)) \<and>
    list_all (\<lambda>e. start_ms e \<le> end_ms e \<and> 1 \<le> alignment e \<and> alignment e \<le> 9) es \<and>
    (\<exists>new. qc_lines q' = qc_lines q @ new \<and> list_all (\<lambda>l. ql_level l \<noteq> OVERLAP) new) \<and>
    qc_error_count q' =
      qc_error_count q + int (length (filter (\<lambda>e. end_ms e = start_ms e) es))"
proof -
  from assms obtain ps where inv: "parse_inv env q ps" and r: "ps_entries ps = es" "ps_qc ps = q'"
    by (rule parse_srt_internal_inv)
  from inv have ch: "cue_chain es" by (simp add: parse_inv_def r)
  from inv obtain new where "qc_lines q' = qc_lines q @ new" "list_all (\<lambda>l. ql_level l \<noteq> OVERLAP) new"
    by (auto simp: parse_inv_def r list_all_iff)
  moreover have "list_all (\<lambda>e. start_ms e \<le> end_ms e \<and> 1 \<le> alignment e \<and> alignment e \<le> 9) es"
    using cue_chain_ordered [OF ch] inv by (simp add: parse_inv_def r list_all_iff)
  ultimately show ?thesis
    using cue_chain_nth [OF ch] inv by (auto simp: parse_inv_def r)
qed

definition sample_cue :: cstr where
  "sample_cue = ''1'' @ LF # ''00:00:01,000 --> 00:00:03,000'' @ LF # ''A'' @ [LF]"

definition sample_srt :: cstr where
  "sample_srt =
     sample_cue @ LF # ''2'' @ LF # ''00:00:02,000 --> 00:00:03,000'' @ LF # ''B'' @ [LF]"

definition sample_env :: parse_env where
  "sample_env =
     \<lparr>pe_alloc = (\<lambda>_. True), pe_filename = ''a.srt'', pe_qc = True, pe_use_ass = False,
      pe_video_w = 720, pe_video_h = 576, pe_global_w = 720, pe_global_h = 576\<rparr>"

lemma sample_parse:
  "map_sum id fst (parse_srt_internal sample_env (Some sample_srt) \<lparr>qc_lines = [], qc_error_count = 0\<rparr>) =
     Inr [\<lparr>start_ms = 1000, end_ms = 3000, entry_text = ''A'', alignment = 2\<rparr>,
          \<lparr>start_ms = 3000, end_ms = 3000, entry_text = ''B'', alignment = 2\<rparr>]"
  by code_simp

theorem parsed_cues_ordered_witness:
  "map_sum id fst (parse_srt_internal sample_env (Some sample_srt) \<lparr>qc_lines = [], qc_error_count = 0\<rparr>) =
     Inr [\<lparr>start_ms = 1000, end_ms = 3000, entry_text = ''A'', alignment = 2\<rparr>,
          \<lparr>start_ms = 3000, end_ms = 3000, entry_text = ''B'', alignment = 2\<rparr>] \<and>
   map_sum id (qc_error_count \<circ> snd)
     (parse_srt_internal sample_env (Some sample_srt) \<lparr>qc_lines = [], qc_error_count = 0\<rparr>) = Inr 1"
proof -
  let ?q = "\<lparr>qc_lines = [], qc_error_count = 0\<rparr>"
  let ?es = "[\<lparr>start_ms = 1000, end_ms = 3000, entry_text = ''A'', alignment = 2\<rparr>,
    \<lparr>start_ms = 3000, end_ms = 3000, entry_text = ''B'', alignment = 2\<rparr>]"
  have p: "map_sum id fst (parse_srt_internal sample_env (Some sample_srt) ?q) = Inr ?es"
    by (rule sample_parse)
  then obtain q' where q': "parse_srt_internal sample_env (Some sample_srt) ?q = Inr (?es, q')"
    by (cases "parse_srt_internal sample_env (Some sample_srt) ?q") auto
  with parsed_cues_ordered [OF q'] p show ?thesis by simp
qed

end
