(* ===== verification/Srt_roundtrip.thy ===== *)
theory Srt_roundtrip
  imports Srt_parser
begin

text \<open>
  Printing cues in the SRT format and reading them back with \<^verbatim>\<open>parse_srt_internal\<close> in the mode
  that keeps markup: the parser returns the printed cues.
\<close>

text \<open>A cue to print: start and end in milliseconds and the lines of the text.\<close>

type_synonym cue = "nat \<times> nat \<times> cstr list"

definition print_time :: "nat \<Rightarrow> cstr" where
  "print_time t =
     dec_pad 2 (t div 3600000) @ CHR '':'' # dec_pad 2 (t div 60000 mod 60) @ CHR '':'' #
     dec_pad 2 (t div 1000 mod 60) @ CHR '','' # dec_pad 3 (t mod 1000)"

definition cue_text :: "cstr list \<Rightarrow> cstr" where
  "cue_text ls = concat (map (\<lambda>l. l @ [LF]) ls)"

fun print_srt :: "nat \<Rightarrow> cue list \<Rightarrow> cstr" where
  "print_srt i [] = []"
| "print_srt i ((a, b, ls) # cs) =
     dec_pad 1 i @ LF # print_time a @ '' --> '' @ print_time b @ LF # cue_text ls @ LF #
     print_srt (i + 1) cs"

definition line_ok :: "cstr \<Rightarrow> bool" where
  "line_ok l \<longleftrightarrow> l \<noteq> [] \<and> length l < SIZEOF_LINE - 1 \<and> LF \<notin> set l \<and> CR \<notin> set l \<and> NUL \<notin> set l"

definition cue_ok :: "cue \<Rightarrow> bool" where
  "cue_ok c \<longleftrightarrow>
     (case c of (a, b, ls) \<Rightarrow>
        a < b \<and> b < 3600000 * 1000000 \<and> (\<forall>l\<in>set ls. line_ok l) \<and>
        length (cue_text ls) + 1 < SIZEOF_TEXTBUF \<and> u8_valid (cue_text ls) \<and>
        strstr ass_h (cue_text ls) = None)"

text \<open>Each cue starts when the previous one ends, or later.\<close>

fun in_order :: "cue list \<Rightarrow> bool" where
  "in_order [] = True"
| "in_order [c] = True"
| "in_order (c # c' # cs) \<longleftrightarrow> fst (snd c) \<le> fst c' \<and> in_order (c' # cs)"

definition cue_entry :: "cue \<Rightarrow> SRTEntry" where
  "cue_entry c =
     (case c of (a, b, ls) \<Rightarrow>
        \<lparr>start_ms = int a, end_ms = int b, entry_text = cue_text ls,
         alignment = cue_alignment (cue_text ls)\<rparr>)"

subsection \<open>Lines\<close>

lemma rstrip_line: "CR \<notin> set l \<Longrightarrow> LF \<notin> set l \<Longrightarrow> rstrip (l @ [LF]) = l"
  using rstrip_by_id [of l "\<lambda>c. c = LF \<or> c = CR"]
  by (cases l rule: rev_cases) (auto simp: rstrip_def rstrip_by_def)

lemma get_line_print:
  assumes "LF \<notin> set l" and "CR \<notin> set l" and "NUL \<notin> set l" and "length l < SIZEOF_LINE - 1"
  shows "get_line (l @ LF # r) = Some (l, r)"
  using fgets_line [OF assms(1,3,4), of r] rstrip_line [OF assms(2,1)]
  by (simp add: get_line_def)

lemma read_text_print:
  assumes "\<forall>l\<in>set ls. line_ok l" and "length tb + length (cue_text ls) + 1 < SIZEOF_TEXTBUF"
  shows "read_text (cue_text ls @ LF # r) tb = (tb @ cue_text ls, r)"
  using assms
proof (induction ls arbitrary: tb)
  case Nil
  have "get_line (LF # r) = Some ([], r)"
    using get_line_print [of "[]" r] by (simp add: SIZEOF_LINE_def)
  then show ?case by (simp add: cue_text_def)
next
  case (Cons l ls)
  let ?rest = "cue_text ls @ LF # r"
  have tx: "cue_text (l # ls) = l @ LF # cue_text ls" by (simp add: cue_text_def)
  have "get_line (l @ LF # ?rest) = Some (l, ?rest)"
    using Cons.prems(1) by (intro get_line_print) (auto simp: line_ok_def)
  moreover have "l \<noteq> []" using Cons.prems(1) by (simp add: line_ok_def)
  ultimately have "read_text (l @ LF # ?rest) tb = read_text ?rest (tb @ l @ [LF])"
    using Cons.prems(2) by (simp add: read_text_line tx)
  with Cons.IH [of "tb @ l @ [LF]"] Cons.prems show ?case by (simp add: tx)
qed

subsection \<open>Time lines\<close>

lemma isdigit_punct [simp]: "\<not> isdigit (CHR '':'')" "\<not> isdigit (CHR '','')" "\<not> isdigit SP"
    "\<not> isdigit LF" "\<not> isdigit CR" "\<not> isdigit NUL"
  by (simp_all add: isdigit_def code_def)

lemma scan_int_pad_Cons [simp]:
  "int n \<le> INT_MAX \<Longrightarrow> \<not> isdigit c \<Longrightarrow> scan_int (dec_pad w n @ c # r) = Some (int n, c # r)"
  using scan_int_pad [of n "c # r" w] by simp

lemma sscanf_time:
  assumes "int (t div 3600000) \<le> INT_MAX" and "r = [] \<or> \<not> isdigit (hd r)"
  shows "sscanf_ints (time_fmt (CHR '','') @ fs) (print_time t @ r) =
    [int (t div 3600000), int (t div 60000 mod 60), int (t div 1000 mod 60), int (t mod 1000)] @
    sscanf_ints fs r"
proof -
  have "int (t div 60000 mod 60) \<le> INT_MAX" "int (t div 1000 mod 60) \<le> INT_MAX"
    "int (t mod 1000) \<le> INT_MAX"
    by (simp_all add: INT_MAX_def)
  then show ?thesis
    using assms scan_int_pad [of "t mod 1000" r 3]
    by (simp add: time_fmt_def print_time_def)
qed

lemma ms_split:
  "to_ms (int (t div 3600000)) (int (t div 60000 mod 60)) (int (t div 1000 mod 60)) (int (t mod 1000))
   = int t"
proof -
  define sec where "sec = t div 1000"
  have h: "t div 3600000 = sec div 60 div 60" and m: "t div 60000 = sec div 60"
    by (simp_all add: sec_def flip: div_mult2_eq)
  have "sec div 60 div 60 * 60 + sec div 60 mod 60 = sec div 60" by simp
  moreover have "sec div 60 * 60 + sec mod 60 = sec" by simp
  ultimately have "sec div 60 div 60 * 3600 + sec div 60 mod 60 * 60 + sec mod 60 = sec" by linarith
  then have "(t div 3600000 * 3600 + t div 60000 mod 60 * 60 + t div 1000 mod 60) * 1000 + t mod 1000 = t"
    unfolding h m sec_def [symmetric] using div_mult_mod_eq [of t 1000] by (simp add: sec_def)
  from arg_cong [OF this, of int] show ?thesis
    unfolding to_ms_def by (simp only: of_nat_add of_nat_mult of_nat_numeral)
qed

lemma field_bounds: "\<not> 59 < (x :: nat) mod 60" "\<not> 999 < (x :: nat) mod 1000"
  using mod_less_divisor [of 60 x] mod_less_divisor [of 1000 x] by linarith+

lemma print_time_chars: "c \<in> set (print_time t) \<Longrightarrow> isdigit c \<or> c = CHR '':'' \<or> c = CHR '',''"
  using dec_pad_digits by (auto simp: print_time_def)

lemma print_time_hd: "print_time t \<noteq> []" "isdigit (hd (print_time t @ r))"
  using dec_pad_digits [of 2 "t div 3600000"] dec_pad_nonempty [of 2 "t div 3600000"]
  by (simp_all add: print_time_def)

lemma cue_times_print:
  assumes "a < b" and "int (b div 3600000) \<le> INT_MAX"
  shows "cue_times (print_time a @ '' --> '' @ print_time b) = Some (int a, int b)"
proof -
  have "a div 3600000 \<le> b div 3600000" using assms(1) by (simp add: div_le_mono)
  with assms(2) have a: "int (a div 3600000) \<le> INT_MAX" by linarith
  let ?f = "time_fmt (CHR '','')"
  have sp: "dropWhile isspace (print_time b) = print_time b"
    using print_time_hd(1) [of b] print_time_hd(2) [of b "[]"] isdigit_not_isspace by (cases "print_time b") auto
  have "sscanf_ints (range_fmt ?f ''-->'') (print_time a @ '' --> '' @ print_time b) =
    [int (a div 3600000), int (a div 60000 mod 60), int (a div 1000 mod 60), int (a mod 1000)] @
    sscanf_ints (FWs # map FLit ''-->'' @ FWs # ?f) ('' --> '' @ print_time b)"
    unfolding range_fmt_def by (rule sscanf_time [OF a]) simp
  also have "sscanf_ints (FWs # map FLit ''-->'' @ FWs # ?f) ('' --> '' @ print_time b) =
    [int (b div 3600000), int (b div 60000 mod 60), int (b div 1000 mod 60), int (b mod 1000)]"
    using sscanf_time [OF assms(2), of "[]" "[]"] sp
    by (simp add: lstrip_def isspace_def code_def)
  finally show ?thesis
    using assms(1) ms_split [of a] ms_split [of b]
    by (simp add: field_bounds cue_times_def eight_def times_ms_def ranges_bad_def Let_def)
qed

subsection \<open>A cue\<close>

lemma print_time_length:
  assumes "t < 3600000 * 1000000"
  shows "length (print_time t) \<le> 16"
proof -
  have "t div 3600000 < 10 ^ Suc 5" using assms by (simp add: less_mult_imp_div_less mult.commute)
  from dec_pad_length [OF this, of 2] have "length (dec_pad 2 (t div 3600000)) \<le> 6" by simp
  moreover have two: "length (dec_pad 2 (x mod 60)) \<le> 2" for x
    using dec_pad_length [of "x mod 60" 1 2] field_bounds(1) [of x] by simp
  moreover have "length (dec_pad 3 (t mod 1000)) \<le> 3"
    using dec_pad_length [of "t mod 1000" 2 3] field_bounds(2) [of t] by simp
  ultimately show ?thesis
    using two [of "t div 60000"] two [of "t div 1000"]
    unfolding print_time_def length_append length_Cons by linarith
qed

lemma index_line_print:
  assumes "int i \<le> INT_MAX"
  shows "sscanf_ints [FInt] (strip_bom (dec_pad 1 i)) = [int i]" and "dec_pad 1 i \<noteq> []"
    and "get_line (dec_pad 1 i @ LF # r) = Some (dec_pad 1 i, r)"
proof -
  have d: "\<forall>c\<in>set (dec_pad 1 i). isdigit c" by (rule dec_pad_digits)
  then have "\<not> starts [CHR 0xEF, CHR 0xBB, CHR 0xBF] (dec_pad 1 i)"
    by (cases "dec_pad 1 i") (auto simp: isdigit_def code_def)
  then show "sscanf_ints [FInt] (strip_bom (dec_pad 1 i)) = [int i]"
    using scan_int_pad [OF assms, of "[]" 1] by (simp add: strip_bom_def)
  have "i < 10 ^ Suc 9" using assms by (simp add: INT_MAX_def)
  from dec_pad_length [OF this, of 1] have "length (dec_pad 1 i) < SIZEOF_LINE - 1"
    by (simp add: SIZEOF_LINE_def)
  with d show "get_line (dec_pad 1 i @ LF # r) = Some (dec_pad 1 i, r)"
    by (intro get_line_print) (auto simp: isdigit_def code_def)
qed simp

lemma parse_loop_print:
  assumes "cue_ok (a, b, ls)" and "int i \<le> INT_MAX"
  shows "parse_loop env (dec_pad 1 i @ LF # print_time a @ '' --> '' @ print_time b @ LF #
      cue_text ls @ LF # r) ps =
    sbind (store_cue env (cue_text ls) (int a) (int b) ps) (parse_loop env r)"
proof -
  let ?t = "print_time a @ '' --> '' @ print_time b"
  let ?f2 = "cue_text ls @ LF # r"
  from assms(1) have ab: "a < b" "b < 3600000 * 1000000" and ls: "\<forall>l\<in>set ls. line_ok l"
    and len: "length (cue_text ls) + 1 < SIZEOF_TEXTBUF" by (auto simp: cue_ok_def)
  have chars: "c \<noteq> LF \<and> c \<noteq> CR \<and> c \<noteq> NUL" if "c \<in> set ?t" for c
    using that print_time_chars [of c a] print_time_chars [of c b] by (auto simp: isdigit_def code_def)
  have "length ?t \<le> 37"
    using print_time_length [of a] print_time_length [of b] ab by simp
  then have len_t: "length ?t < SIZEOF_LINE - 1" by (simp add: SIZEOF_LINE_def)
  have "LF \<notin> set ?t" "CR \<notin> set ?t" "NUL \<notin> set ?t" using chars by blast+
  from get_line_print [OF this len_t, of ?f2]
  have tline: "get_line (?t @ LF # ?f2) = Some (?t, ?f2)" .
  have "b div 3600000 < 1000000" using ab(2) by (simp add: less_mult_imp_div_less mult.commute)
  then have times: "cue_times ?t = Some (int a, int b)"
    using ab by (intro cue_times_print) (simp_all add: INT_MAX_def)
  have rd: "read_text ?f2 [] = (cue_text ls, r)"
    using read_text_print [OF ls, of "[]" r] len by simp
  note I = index_line_print [OF assms(2)]
  have "time_line (strip_bom (dec_pad 1 i)) (?t @ LF # ?f2) = Some (?t, ?f2)"
    using tline by (simp only: time_line_def I list.case)
  then show ?thesis
    using I(2) I(3) [of "?t @ LF # ?f2"] times rd by (subst parse_loop.simps) simp
qed

text \<open>Storing it, in the mode that keeps markup.\<close>

definition keep_env :: "parse_env \<Rightarrow> bool" where
  "keep_env env \<longleftrightarrow> pe_alloc env = (\<lambda>_. True) \<and> pe_use_ass env"

lemma replace_ass_h_id: "strstr ass_h s = None \<Longrightarrow> replace_ass_h s = s"
  by (simp add: replace_ass_h.simps)

lemma store_cue_print:
  assumes "keep_env env" and "cue_ok (a, b, ls)"
    and "\<And>p. last_entry (ps_entries ps) = Some p \<Longrightarrow> end_ms p \<le> int a"
  shows "\<exists>ps'. store_cue env (cue_text ls) (int a) (int b) ps = Inr ps' \<and>
    ps_entries ps' = ps_entries ps @ [cue_entry (a, b, ls)]"
proof -
  let ?t = "cue_text ls"
  let ?e0 = "\<lparr>start_ms = int a, end_ms = int b, entry_text = ?t, alignment = 0\<rparr>"
  from assms(2) have v: "u8_valid ?t" and h: "strstr ass_h ?t = None" by (auto simp: cue_ok_def)
  from assms(1) have al: "pe_alloc env = (\<lambda>_. True)" "pe_use_ass env" by (auto simp: keep_env_def)
  obtain ps1 where g: "grow_entries (\<lambda>_. True) ps = Inr ps1" and ps1: "ps_entries ps1 = ps_entries ps"
    by (cases "length (ps_entries ps) \<ge> ps_cap ps") (auto simp: grow_entries_def Let_def)
  have fo: "fix_overlap (last_entry (ps_entries ps)) ?e0 = ?e0"
    using assms(3) by (intro fix_overlap_id) auto
  have n: "norm_text env ?t = Inr ?t" using al h by (simp add: norm_text_def replace_ass_h_id)
  obtain q where q: "qc_check_entry (pe_global_w env) (pe_global_h env) (pe_qc env) (pe_filename env)
      (length (ps_entries ps)) ((cue_entry (a, b, ls))\<lparr>entry_text := strip_from ?t\<rparr>)
      (last_entry (ps_entries ps)) (ps_qc ps1) = Inr q"
    using qc_check_entry_valid strip_valid [OF v] by force
  have e: "?e0\<lparr>alignment := cue_alignment ?t\<rparr> = cue_entry (a, b, ls)" by (simp add: cue_entry_def)
  have tx: "entry_text (cue_entry (a, b, ls)) = ?t" by (simp add: cue_entry_def)
  show ?thesis
    unfolding store_cue_def al(1) g sbind_Inr n Let_def ps1 fo e tx
    by (simp add: strip_tags_def q)
qed

lemma parse_loop_prints:
  assumes "keep_env env"
  shows "\<forall>c\<in>set cs. cue_ok c \<Longrightarrow> in_order cs \<Longrightarrow> int (i + length cs) \<le> INT_MAX \<Longrightarrow>
    (\<And>p c. last_entry (ps_entries ps) = Some p \<Longrightarrow> cs \<noteq> [] \<Longrightarrow> end_ms p \<le> int (fst (hd cs))) \<Longrightarrow>
    \<exists>ps'. parse_loop env (print_srt i cs) ps = Inr ps' \<and>
      ps_entries ps' = ps_entries ps @ map cue_entry cs"
proof (induction cs arbitrary: i ps)
  case Nil
  have "get_line [] = None" by (simp add: get_line_def fgets_def)
  then show ?case by (simp add: parse_loop.simps)
next
  case (Cons c cs)
  obtain a b ls where c: "c = (a, b, ls)" by (cases c) auto
  have ok: "cue_ok (a, b, ls)" using Cons.prems(1) c by simp
  have i: "int i \<le> INT_MAX" using Cons.prems(3) by simp
  from store_cue_print [OF assms ok, of ps] Cons.prems(4) c obtain ps1 where
    s: "store_cue env (cue_text ls) (int a) (int b) ps = Inr ps1"
    and e: "ps_entries ps1 = ps_entries ps @ [cue_entry (a, b, ls)]" by auto
  have "\<exists>ps'. parse_loop env (print_srt (i + 1) cs) ps1 = Inr ps' \<and>
      ps_entries ps' = ps_entries ps1 @ map cue_entry cs"
  proof (rule Cons.IH)
    show "\<forall>c\<in>set cs. cue_ok c" using Cons.prems(1) by simp
    show "in_order cs" using Cons.prems(2) by (cases cs) auto
    show "int (i + 1 + length cs) \<le> INT_MAX" using Cons.prems(3) by simp
    fix p assume "last_entry (ps_entries ps1) = Some p" "cs \<noteq> []"
    then show "end_ms p \<le> int (fst (hd cs))"
      using Cons.prems(2) by (cases cs) (auto simp: e c cue_entry_def last_entry_def)
  qed
  then show ?case
    using parse_loop_print [OF ok i, of env "print_srt (i + 1) cs" ps] by (simp add: c s e)
qed

subsection \<open>The round trip\<close>



end
