(* ===== verification/Pool_alloc.thy ===== *)
theory Pool_alloc
  imports Prelude
begin

text \<open>
  \<^verbatim>\<open>pool_alloc.c\<close>: buffers of one size are kept in a bucket, linked through their first bytes.
  The heap is a map from addresses to blocks; a cached block holds the link to the next one, any
  other block holds data. \<^verbatim>\<open>av_mallocz\<close> and \<^verbatim>\<open>av_free\<close> belong to libavutil: which requests they
  grant and which address they return are parameters. The lemmas show that the pool is a correct
  allocator: it satisfies the contract \<open>allocator\<close>, on which its clients rely.
\<close>

type_synonym addr = nat

datatype content = Link "addr option" | Bytes "8 word list"

datatype block = Block (blk_size: nat) (blk_content: content)

type_synonym heap = "addr \<Rightarrow> block option"

text \<open>What is relied on of the addresses: a new block does not lie on one in use. The type holds
  all the ways of choosing addresses with that property.\<close>

typedef chooser = "{f :: heap \<Rightarrow> addr. \<forall>h. finite (dom h) \<longrightarrow> h (f h) = None}"
  morphisms pick Chooser
proof (intro exI CollectI allI impI)
  fix h :: heap
  assume "finite (dom h)"
  then obtain a where "a \<notin> dom h" using ex_new_if_finite [OF infinite_UNIV_nat] by blast
  then have "h a = None" by (simp add: domIff)
  then show "h (LEAST a. h a = None) = None" by (rule LeastI)
qed

record av_mem =
  av_ok :: "nat \<Rightarrow> bool"
  av_fresh :: chooser

lemma pick_fresh: "finite (dom h) \<Longrightarrow> h (pick f h) = None"
  using pick [of f] by simp

record Bucket =
  bk_size :: nat
  bk_head :: "addr option"
  bk_count :: nat

record pool =
  p_heap :: heap
  p_buckets :: "Bucket list"

definition MAX_PER_BUCKET :: nat where "MAX_PER_BUCKET = 32"
definition SIZEOF_BUCKET :: nat where "SIZEOF_BUCKET = 32"
definition SIZEOF_PTR :: nat where "SIZEOF_PTR = 8"

definition av_mallocz :: "av_mem \<Rightarrow> nat \<Rightarrow> pool \<Rightarrow> addr option \<times> pool" where
  "av_mallocz av n st =
     (if av_ok av n then
        (let a = pick (av_fresh av) (p_heap st)
         in (Some a, st\<lparr>p_heap := (p_heap st)(a \<mapsto> Block n (Bytes (replicate n 0)))\<rparr>))
      else (None, st))"

definition av_free :: "addr \<Rightarrow> pool \<Rightarrow> pool cres" where
  "av_free a st =
     (if p_heap st a = None then Inl Invalid_free
      else Inr (st\<lparr>p_heap := (p_heap st)(a := None)\<rparr>))"

text \<open>The index of the bucket in the list.\<close>

fun find_bucket_unlocked :: "nat \<Rightarrow> Bucket list \<Rightarrow> nat option" where
  "find_bucket_unlocked sz [] = None"
| "find_bucket_unlocked sz (b # bs) =
     (if bk_size b = sz then Some 0 else map_option Suc (find_bucket_unlocked sz bs))"

text \<open>Pop the head of a bucket: read the link, unlink, clear.\<close>

definition pop_head :: "nat \<Rightarrow> nat \<Rightarrow> addr \<Rightarrow> pool \<Rightarrow> (addr option \<times> pool) cres" where
  "pop_head sz i node st =
     (case p_heap st node of
        Some (Block n (Link next)) \<Rightarrow>
          if n < sz then Inl Out_of_bounds
          else
            let b = p_buckets st ! i
            in Inr (Some node,
                 st\<lparr>p_buckets := (p_buckets st)[i := b\<lparr>bk_head := next, bk_count := bk_count b - 1\<rparr>],
                    p_heap := (p_heap st)(node \<mapsto>
                      Block n (Bytes (replicate sz 0)))\<rparr>)
      | _ \<Rightarrow> Inl Out_of_bounds)"

definition pool_alloc :: "av_mem \<Rightarrow> nat \<Rightarrow> pool \<Rightarrow> (addr option \<times> pool) cres" where
  "pool_alloc av sz st =
     (if sz = 0 then Inr (None, st)
      else
        (case find_bucket_unlocked sz (p_buckets st) of
           Some i \<Rightarrow>
             (case bk_head (p_buckets st ! i) of
                Some node \<Rightarrow> pop_head sz i node st
              | None \<Rightarrow> Inr (av_mallocz av sz st))
         | None \<Rightarrow> Inr (av_mallocz av sz st)))"

text \<open>Push a buffer: the link is written into its first bytes.\<close>

definition push_head :: "nat \<Rightarrow> addr \<Rightarrow> pool \<Rightarrow> pool cres" where
  "push_head i ptr st =
     (case p_heap st ptr of
        None \<Rightarrow> Inl Out_of_bounds
      | Some blk \<Rightarrow>
          if blk_size blk < SIZEOF_PTR then Inl Out_of_bounds
          else
            let b = p_buckets st ! i
            in Inr (st\<lparr>p_heap := (p_heap st)(ptr \<mapsto> Block (blk_size blk) (Link (bk_head b))),
                       p_buckets := (p_buckets st)
                         [i := b\<lparr>bk_head := Some ptr, bk_count := bk_count b + 1\<rparr>]\<rparr>))"

definition pool_free :: "av_mem \<Rightarrow> addr option \<Rightarrow> nat \<Rightarrow> pool \<Rightarrow> pool cres" where
  "pool_free av p sz st =
     (case p of
        None \<Rightarrow> Inr st
      | Some ptr \<Rightarrow>
          if sz = 0 then Inr st
          else
            (case
               (case find_bucket_unlocked sz (p_buckets st) of
                  Some i \<Rightarrow> Some (i, st)
                | None \<Rightarrow>
                    if av_ok av SIZEOF_BUCKET
                    then Some (0, st\<lparr>p_buckets :=
                           \<lparr>bk_size = sz, bk_head = None, bk_count = 0\<rparr> # p_buckets st\<rparr>)
                    else None) of
               None \<Rightarrow> av_free ptr st
             | Some (i, st1) \<Rightarrow>
                 if bk_count (p_buckets st1 ! i) < MAX_PER_BUCKET then push_head i ptr st1
                 else av_free ptr st1))"

text \<open>The loop that frees a cached list; it reads the link before it frees. \<open>None\<close>: out of fuel.\<close>

fun free_chain :: "nat \<Rightarrow> addr option \<Rightarrow> pool \<Rightarrow> pool cres option" where
  "free_chain fuel None st = Some (Inr st)"
| "free_chain 0 (Some node) st = None"
| "free_chain (Suc fuel) (Some node) st =
     (case p_heap st node of
        Some (Block _ (Link next)) \<Rightarrow>
          (case av_free node st of
             Inl e \<Rightarrow> Some (Inl e)
           | Inr st' \<Rightarrow> free_chain fuel next st')
      | _ \<Rightarrow> Some (Inl Out_of_bounds))"

fun free_buckets :: "nat \<Rightarrow> Bucket list \<Rightarrow> pool \<Rightarrow> pool cres option" where
  "free_buckets fuel [] st = Some (Inr (st\<lparr>p_buckets := []\<rparr>))"
| "free_buckets fuel (b # bs) st =
     (case free_chain fuel (bk_head b) st of
        None \<Rightarrow> None
      | Some (Inl e) \<Rightarrow> Some (Inl e)
      | Some (Inr st') \<Rightarrow> free_buckets fuel bs st')"

definition pool_destroy :: "nat \<Rightarrow> pool \<Rightarrow> pool cres option" where
  "pool_destroy fuel st = free_buckets fuel (p_buckets st) st"

subsection \<open>The contract of an allocator\<close>

text \<open>The operations may fault; \<open>used\<close> gives the blocks that belong to clients, with their sizes;
  \<open>fits\<close> says which blocks may be given back.\<close>

locale allocator =
  fixes alloc :: "nat \<Rightarrow> 's \<Rightarrow> (addr option \<times> 's) cres"
    and free :: "addr option \<Rightarrow> nat \<Rightarrow> 's \<Rightarrow> 's cres"
    and used :: "'s \<Rightarrow> addr \<Rightarrow> nat option"
    and inv :: "'s \<Rightarrow> bool"
    and fits :: "nat \<Rightarrow> bool"
  assumes alloc_total: "inv s \<Longrightarrow> \<exists>r. alloc n s = Inr r"
    and alloc_inv: "inv s \<Longrightarrow> alloc n s = Inr (p, s') \<Longrightarrow> inv s'"
    and alloc_None: "inv s \<Longrightarrow> alloc n s = Inr (None, s') \<Longrightarrow> used s' = used s"
    and alloc_Some:
      "inv s \<Longrightarrow> alloc n s = Inr (Some a, s') \<Longrightarrow> used s a = None \<and> used s' = (used s)(a \<mapsto> n)"
    and free_ok: "inv s \<Longrightarrow> used s a = Some n \<Longrightarrow> fits n \<Longrightarrow>
      \<exists>s'. free (Some a) n s = Inr s' \<and> inv s' \<and> used s' = (used s)(a := None)"
begin

text \<open>What is taken and given back leaves the client's blocks as they were.\<close>

lemma alloc_free:
  assumes "inv s" and "alloc n s = Inr (Some a, s1)" and "fits n"
  shows "\<exists>s2. free (Some a) n s1 = Inr s2 \<and> inv s2 \<and> used s2 = used s"
proof -
  from alloc_Some [OF assms(1,2)] have u: "used s a = None" "used s1 = (used s)(a \<mapsto> n)" by auto
  from free_ok [OF alloc_inv [OF assms(1,2)], of a n] u(2) assms(3) obtain s2 where
    "free (Some a) n s1 = Inr s2" "inv s2" "used s2 = (used s1)(a := None)" by auto
  moreover have "(used s)(a \<mapsto> n, a := None) = used s" using u(1) by (auto simp: fun_eq_iff)
  ultimately show ?thesis using u(2) by auto
qed

text \<open>Two blocks at a time are different blocks.\<close>

lemma alloc_distinct:
  assumes "inv s" and "alloc n s = Inr (Some a, s1)" and "alloc m s1 = Inr (Some b, s2)"
  shows "a \<noteq> b" and "used s2 a = Some n" and "used s2 b = Some m"
  using alloc_Some [OF assms(1,2)] alloc_Some [OF alloc_inv [OF assms(1,2)] assms(3)] by auto

end

subsection \<open>Lists of lists\<close>

lemma concat_split:
  assumes "i < length ls"
  shows "concat ls = concat (take i ls) @ ls ! i @ concat (drop (Suc i) ls)"
  by (subst id_take_nth_drop [OF assms]) simp

lemma concat_update:
  assumes "i < length ls"
  shows "concat (ls[i := x]) = concat (take i ls) @ x @ concat (drop (Suc i) ls)"
  using assms by (simp add: upd_conv_take_nth_drop)

lemma concat_nth_disjoint:
  assumes "distinct (concat ls)" and "i < length ls" and "j < length ls" and "j \<noteq> i" and "a \<in> set (ls ! i)"
  shows "a \<notin> set (ls ! j)"
proof (cases "j < i")
  case True
  then have "ls ! j \<in> set (take i ls)" using assms(2,3) by (auto simp: in_set_conv_nth)
  with assms(1,5) concat_split [OF assms(2)] show ?thesis by auto
next
  case False
  then have "ls ! j = drop (Suc i) ls ! (j - Suc i)" "j - Suc i < length (drop (Suc i) ls)"
    using assms(3,4) by auto
  then have "ls ! j \<in> set (drop (Suc i) ls)" by (metis nth_mem)
  with assms(1,5) concat_split [OF assms(2)] show ?thesis by auto
qed

subsection \<open>The invariant\<close>

fun chain :: "heap \<Rightarrow> addr option \<Rightarrow> addr list \<Rightarrow> bool" where
  "chain h p [] \<longleftrightarrow> p = None"
| "chain h p (a # as) \<longleftrightarrow>
     p = Some a \<and> (case h a of Some (Block n (Link next)) \<Rightarrow> chain h next as | _ \<Rightarrow> False)"

lemma chain_other: "a \<notin> set as \<Longrightarrow> chain (h(a := x)) p as = chain h p as"
  by (induction as arbitrary: p) (auto split: option.split block.split content.split)

lemma chain_link: "chain h p as \<Longrightarrow> a \<in> set as \<Longrightarrow> \<exists>n nx. h a = Some (Block n (Link nx))"
  by (induction as arbitrary: p) (auto split: option.splits block.splits content.splits)

definition bucket_ok :: "heap \<Rightarrow> Bucket \<Rightarrow> addr list \<Rightarrow> bool" where
  "bucket_ok h b xs \<longleftrightarrow>
     chain h (bk_head b) xs \<and> bk_count b = length xs \<and> length xs \<le> MAX_PER_BUCKET \<and>
     (\<forall>a\<in>set xs. \<exists>c. h a = Some (Block (bk_size b) c))"

lemma bucket_ok_other: "a \<notin> set xs \<Longrightarrow> bucket_ok (h(a := x)) b xs = bucket_ok h b xs"
  by (auto simp: bucket_ok_def chain_other)

definition links :: "heap \<Rightarrow> addr set" where
  "links h = {a. \<exists>n nx. h a = Some (Block n (Link nx))}"

text \<open>\<open>ls\<close> lists the cached blocks of each bucket.\<close>

definition pool_rep :: "pool \<Rightarrow> addr list list \<Rightarrow> bool" where
  "pool_rep st ls \<longleftrightarrow>
     finite (dom (p_heap st)) \<and> list_all2 (bucket_ok (p_heap st)) (p_buckets st) ls \<and>
     distinct (concat ls) \<and> distinct (map bk_size (p_buckets st)) \<and>
     links (p_heap st) = set (concat ls)"

definition pool_inv :: "pool \<Rightarrow> bool" where
  "pool_inv st \<longleftrightarrow> (\<exists>ls. pool_rep st ls)"

text \<open>The blocks that belong to clients.\<close>

definition pool_used :: "pool \<Rightarrow> addr \<Rightarrow> nat option" where
  "pool_used st a =
     (case p_heap st a of Some (Block n (Bytes _)) \<Rightarrow> Some n | _ \<Rightarrow> None)"

lemma find_bucket_Some:
  "find_bucket_unlocked sz bs = Some i \<Longrightarrow> i < length bs \<and> bk_size (bs ! i) = sz"
  by (induction bs arbitrary: i) (auto split: if_splits)

lemma find_bucket_None: "find_bucket_unlocked sz bs = None \<longleftrightarrow> sz \<notin> bk_size ` set bs"
  by (induction bs) auto

text \<open>Changing one bucket and one block.\<close>

lemma buckets_update:
  assumes all: "list_all2 (bucket_ok h) bs ls" and i: "i < length bs"
    and b: "bucket_ok (h(a := x)) b xs"
    and other: "\<And>j. j < length ls \<Longrightarrow> j \<noteq> i \<Longrightarrow> a \<notin> set (ls ! j)"
  shows "list_all2 (bucket_ok (h(a := x))) (bs[i := b]) (ls[i := xs])"
  unfolding list_all2_conv_all_nth
proof (intro conjI allI impI)
  show "length (bs[i := b]) = length (ls[i := xs])"
    using all by (simp add: list_all2_lengthD)
  fix j assume j: "j < length (bs[i := b])"
  then have "j < length ls" using all by (simp add: list_all2_lengthD)
  show "bucket_ok (h(a := x)) (bs[i := b] ! j) (ls[i := xs] ! j)"
  proof (cases "j = i")
    case True
    with b j \<open>j < length ls\<close> show ?thesis by simp
  next
    case False
    then have "bucket_ok h (bs ! j) (ls ! j)" using all j by (simp add: list_all2_nthD)
    with False other [OF \<open>j < length ls\<close> False] show ?thesis by (simp add: bucket_ok_other)
  qed
qed

lemma av_mallocz_rep:
  assumes rep: "pool_rep st ls" and m: "av_mallocz av n st = (p, st')"
  shows "pool_rep st' ls"
    and "p = None \<Longrightarrow> st' = st"
    and "p = Some a \<Longrightarrow> pool_used st a = None \<and> pool_used st' = (pool_used st)(a \<mapsto> n)"
proof -
  let ?a = "pick (av_fresh av) (p_heap st)"
  have fresh: "p_heap st ?a = None" using rep by (simp add: pool_rep_def pick_fresh)
  have "?a \<notin> links (p_heap st)" using fresh by (simp add: links_def)
  with rep have nin: "?a \<notin> set (concat ls)" by (simp only: pool_rep_def not_False_eq_True)
  have all: "list_all2 (bucket_ok ((p_heap st)(?a := x))) (p_buckets st) ls" for x
  proof -
    have "?a \<notin> set (ls ! j)" if "j < length ls" for j using nin that by auto
    with rep show ?thesis by (simp add: pool_rep_def list_all2_conv_all_nth bucket_ok_other)
  qed
  have "links ((p_heap st)(?a \<mapsto> Block n (Bytes bs))) = links (p_heap st)" for bs
    using fresh by (auto simp: links_def)
  then show "pool_rep st' ls"
    using m rep all
    by (auto simp: av_mallocz_def Let_def pool_rep_def simp del: set_concat split: if_splits)
  show "p = None \<Longrightarrow> st' = st" using m by (auto simp: av_mallocz_def Let_def split: if_splits)
  show "p = Some a \<Longrightarrow> pool_used st a = None \<and> pool_used st' = (pool_used st)(a \<mapsto> n)"
    using m fresh by (auto simp: av_mallocz_def Let_def pool_used_def fun_eq_iff split: if_splits)
qed

lemma pop_head_rep:
  assumes rep: "pool_rep st ls" and i: "i < length (p_buckets st)"
    and sz: "bk_size (p_buckets st ! i) = sz" and hd: "bk_head (p_buckets st ! i) = Some node"
  obtains st' ls' where "pop_head sz i node st = Inr (Some node, st')" and "pool_rep st' ls'"
    and "pool_used st node = None" and "pool_used st' = (pool_used st)(node \<mapsto> sz)"
proof -
  let ?b = "p_buckets st ! i" and ?h = "p_heap st"
  have il: "i < length ls" using rep i by (auto simp: pool_rep_def list_all2_lengthD)
  have ok: "bucket_ok ?h ?b (ls ! i)"
    using rep i by (auto simp: pool_rep_def dest: list_all2_nthD)
  then obtain rest nx where l: "ls ! i = node # rest" and hn: "?h node = Some (Block sz (Link nx))"
    and ch: "chain ?h nx rest"
    using hd sz by (cases "ls ! i") (auto simp: bucket_ok_def split: option.splits block.splits content.splits)
  let ?b' = "?b\<lparr>bk_head := nx, bk_count := bk_count ?b - 1\<rparr>"
  let ?x = "Some (Block sz (Bytes (replicate sz 0)))"
  let ?st = "st\<lparr>p_buckets := (p_buckets st)[i := ?b'], p_heap := ?h(node := ?x)\<rparr>"
  have d: "distinct (concat ls)" using rep by (simp add: pool_rep_def)
  have nr: "node \<notin> set rest" "node \<notin> set (concat (ls[i := rest]))"
    using d by (auto simp: concat_split [OF il] concat_update [OF il] l simp del: set_concat)
  have "bucket_ok (?h(node := ?x)) ?b' rest"
    using ok l nr(1) ch by (auto simp: bucket_ok_def chain_other)
  then have "list_all2 (bucket_ok (?h(node := ?x))) ((p_buckets st)[i := ?b']) (ls[i := rest])"
    using rep i il concat_nth_disjoint [OF d il, of _ node] l
    by (intro buckets_update) (auto simp: pool_rep_def)
  moreover have "links (?h(node := ?x)) = links ?h - {node}" by (auto simp: links_def)
  moreover have "set (concat (ls[i := rest])) = set (concat ls) - {node}"
    using nr(2) by (auto simp: concat_split [OF il] concat_update [OF il] l simp del: set_concat)
  moreover have "map bk_size ((p_buckets st)[i := ?b']) = map bk_size (p_buckets st)"
    by (simp add: map_update list_update_same_conv i)
  moreover have "distinct (concat (ls[i := rest]))"
    using d by (auto simp: concat_split [OF il] concat_update [OF il] l simp del: set_concat)
  ultimately have rep': "pool_rep ?st (ls[i := rest])"
    using rep by (simp add: pool_rep_def del: set_concat)
  have "pop_head sz i node st = Inr (Some node, ?st)"
    by (simp add: pop_head_def hn Let_def)
  then show thesis
    by (rule that [OF _ rep']) (auto simp: pool_used_def hn fun_eq_iff)
qed

lemma push_head_rep:
  assumes rep: "pool_rep st ls" and i: "i < length (p_buckets st)"
    and sz: "bk_size (p_buckets st ! i) = sz" and room: "bk_count (p_buckets st ! i) < MAX_PER_BUCKET"
    and u: "pool_used st ptr = Some sz" and fits: "SIZEOF_PTR \<le> sz"
  obtains st' ls' where "push_head i ptr st = Inr st'" and "pool_rep st' ls'"
    and "pool_used st' = (pool_used st)(ptr := None)"
proof -
  let ?b = "p_buckets st ! i" and ?h = "p_heap st"
  have il: "i < length ls" using rep i by (auto simp: pool_rep_def list_all2_lengthD)
  have ok: "bucket_ok ?h ?b (ls ! i)"
    using rep i by (auto simp: pool_rep_def dest: list_all2_nthD)
  from u obtain c where hp: "?h ptr = Some (Block sz (Bytes c))"
    by (auto simp: pool_used_def split: option.splits block.splits content.splits)
  then have "ptr \<notin> links ?h" by (simp add: links_def)
  with rep have nin: "ptr \<notin> set (concat ls)" by (simp only: pool_rep_def not_False_eq_True)
  have nj: "ptr \<notin> set (ls ! j)" if "j < length ls" for j
    using nin that by auto
  let ?b' = "?b\<lparr>bk_head := Some ptr, bk_count := bk_count ?b + 1\<rparr>"
  let ?x = "Some (Block sz (Link (bk_head ?b)))"
  let ?st = "st\<lparr>p_heap := ?h(ptr := ?x), p_buckets := (p_buckets st)[i := ?b']\<rparr>"
  have "bucket_ok (?h(ptr := ?x)) ?b' (ptr # ls ! i)"
    using ok nj [OF il] room sz by (auto simp: bucket_ok_def chain_other)
  then have "list_all2 (bucket_ok (?h(ptr := ?x))) ((p_buckets st)[i := ?b']) (ls[i := ptr # ls ! i])"
    using rep i nj by (intro buckets_update) (auto simp: pool_rep_def)
  moreover have "links (?h(ptr := ?x)) = insert ptr (links ?h)" by (auto simp: links_def)
  moreover have "set (concat (ls[i := ptr # ls ! i])) = insert ptr (set (concat ls))"
    by (auto simp: concat_split [OF il] concat_update [OF il] simp del: set_concat)
  moreover have "map bk_size ((p_buckets st)[i := ?b']) = map bk_size (p_buckets st)"
    by (simp add: map_update list_update_same_conv i)
  moreover have "distinct (concat (ls[i := ptr # ls ! i]))"
    using rep nin unfolding pool_rep_def
    by (auto simp: concat_split [OF il] concat_update [OF il] simp del: set_concat)
  ultimately have rep': "pool_rep ?st (ls[i := ptr # ls ! i])"
    using rep by (simp add: pool_rep_def del: set_concat)
  have "push_head i ptr st = Inr ?st"
    using fits by (simp add: push_head_def hp Let_def)
  then show thesis
    by (rule that [OF _ rep']) (auto simp: pool_used_def hp fun_eq_iff)
qed

text \<open>The two operations.\<close>

lemma pool_alloc_inv:
  assumes inv: "pool_inv st"
  shows "\<exists>r. pool_alloc av n st = Inr r"
    and "pool_alloc av n st = Inr (p, st') \<Longrightarrow> pool_inv st'"
    and "pool_alloc av n st = Inr (None, st') \<Longrightarrow> pool_used st' = pool_used st"
    and "pool_alloc av n st = Inr (Some a, st') \<Longrightarrow>
      pool_used st a = None \<and> pool_used st' = (pool_used st)(a \<mapsto> n)"
proof -
  from inv obtain ls where rep: "pool_rep st ls" by (auto simp: pool_inv_def)
  consider (zero) "n = 0" | (pop) node st1 ls1 where "pool_alloc av n st = Inr (Some node, st1)"
      "pool_rep st1 ls1" "pool_used st node = None" "pool_used st1 = (pool_used st)(node \<mapsto> n)"
    | (fresh) "pool_alloc av n st = Inr (av_mallocz av n st)"
  proof (cases "n = 0 \<or> find_bucket_unlocked n (p_buckets st) = None")
    case True
    then show thesis using that(1,3) by (cases "n = 0") (simp_all add: pool_alloc_def)
  next
    case False
    then obtain i where n: "n \<noteq> 0" and i: "find_bucket_unlocked n (p_buckets st) = Some i" by auto
    show thesis
    proof (cases "bk_head (p_buckets st ! i)")
      case None
      with n i show thesis using that(3) by (simp add: pool_alloc_def)
    next
      case (Some node)
      have "i < length (p_buckets st)" "bk_size (p_buckets st ! i) = n"
        using find_bucket_Some [OF i] by auto
      from pop_head_rep [OF rep this Some] obtain st1 ls1 where
        s1: "pop_head n i node st = Inr (Some node, st1)" "pool_rep st1 ls1"
        "pool_used st node = None" "pool_used st1 = (pool_used st)(node \<mapsto> n)" .
      from s1(1) n i Some have "pool_alloc av n st = Inr (Some node, st1)"
        by (simp add: pool_alloc_def)
      from that(2) [OF this s1(2-4)] show thesis .
    qed
  qed
  then have "(\<exists>r. pool_alloc av n st = Inr r) \<and>
    (\<forall>p st'. pool_alloc av n st = Inr (p, st') \<longrightarrow> pool_inv st' \<and>
      (p = None \<longrightarrow> pool_used st' = pool_used st) \<and>
      (\<forall>a. p = Some a \<longrightarrow> pool_used st a = None \<and> pool_used st' = (pool_used st)(a \<mapsto> n)))"
  proof cases
    case zero
    with inv show ?thesis by (simp add: pool_alloc_def)
  next
    case pop
    then show ?thesis by (auto simp: pool_inv_def)
  next
    case fresh
    obtain q st1 where m: "av_mallocz av n st = (q, st1)" by force
    from av_mallocz_rep [OF rep m] have "pool_inv st1" "q = None \<Longrightarrow> st1 = st"
      "\<And>a. q = Some a \<Longrightarrow> pool_used st a = None \<and> pool_used st1 = (pool_used st)(a \<mapsto> n)"
      by (auto simp: pool_inv_def)
    then show ?thesis by (auto simp: fresh m)
  qed
  then show "\<exists>r. pool_alloc av n st = Inr r"
    and "pool_alloc av n st = Inr (p, st') \<Longrightarrow> pool_inv st'"
    and "pool_alloc av n st = Inr (None, st') \<Longrightarrow> pool_used st' = pool_used st"
    and "pool_alloc av n st = Inr (Some a, st') \<Longrightarrow>
      pool_used st a = None \<and> pool_used st' = (pool_used st)(a \<mapsto> n)"
    by blast+
qed

lemma av_free_rep:
  assumes rep: "pool_rep st ls" and u: "pool_used st a = Some n"
  shows "\<exists>st'. av_free a st = Inr st' \<and> pool_rep st' ls \<and> pool_used st' = (pool_used st)(a := None)"
proof -
  from u obtain c where ha: "p_heap st a = Some (Block n (Bytes c))"
    by (auto simp: pool_used_def split: option.splits block.splits content.splits)
  then have "a \<notin> links (p_heap st)" by (simp add: links_def)
  with rep have nin: "a \<notin> set (concat ls)" by (simp only: pool_rep_def not_False_eq_True)
  have nj: "a \<notin> set (ls ! j)" if "j < length ls" for j using nin that by auto
  have "links ((p_heap st)(a := None)) = links (p_heap st)" using ha by (auto simp: links_def)
  with rep nj have "pool_rep (st\<lparr>p_heap := (p_heap st)(a := None)\<rparr>) ls"
    by (simp add: pool_rep_def list_all2_conv_all_nth bucket_ok_other del: set_concat)
  moreover have "pool_used (st\<lparr>p_heap := (p_heap st)(a := None)\<rparr>) = (pool_used st)(a := None)"
    by (auto simp: pool_used_def fun_eq_iff)
  ultimately show ?thesis using ha by (auto simp: av_free_def)
qed

lemma new_bucket_rep:
  "pool_rep st ls \<Longrightarrow> find_bucket_unlocked n (p_buckets st) = None \<Longrightarrow>
   pool_rep (st\<lparr>p_buckets := \<lparr>bk_size = n, bk_head = None, bk_count = 0\<rparr> # p_buckets st\<rparr>) ([] # ls)"
  by (auto simp: pool_rep_def find_bucket_None bucket_ok_def)

lemma pool_free_inv:
  assumes inv: "pool_inv st" and u: "pool_used st a = Some n" and fits: "SIZEOF_PTR \<le> n"
  shows "\<exists>st'. pool_free av (Some a) n st = Inr st' \<and> pool_inv st' \<and>
    pool_used st' = (pool_used st)(a := None)"
proof -
  from inv obtain ls where rep: "pool_rep st ls" by (auto simp: pool_inv_def)
  have n0: "n \<noteq> 0" using fits by (simp add: SIZEOF_PTR_def)
  have put: "\<exists>st'. (if bk_count (p_buckets st1 ! i) < MAX_PER_BUCKET then push_head i a st1
       else av_free a st1) = Inr st' \<and> pool_inv st' \<and> pool_used st' = (pool_used st)(a := None)"
    if r1: "pool_rep st1 ls1" and i: "i < length (p_buckets st1)" "bk_size (p_buckets st1 ! i) = n"
      and u1: "pool_used st1 = pool_used st" for st1 ls1 i
  proof (cases "bk_count (p_buckets st1 ! i) < MAX_PER_BUCKET")
    case True
    from push_head_rep [OF r1 i True _ fits, of a] u u1 obtain st' ls' where
      "push_head i a st1 = Inr st'" "pool_rep st' ls'" "pool_used st' = (pool_used st1)(a := None)"
      by auto
    with True u1 show ?thesis by (auto simp: pool_inv_def)
  next
    case False
    with av_free_rep [OF r1, of a n] u u1 show ?thesis by (auto simp: pool_inv_def)
  qed
  show ?thesis
  proof (cases "find_bucket_unlocked n (p_buckets st)")
    case (Some i)
    with put [OF rep] find_bucket_Some [OF Some] n0 show ?thesis by (simp add: pool_free_def)
  next
    case None
    show ?thesis
    proof (cases "av_ok av SIZEOF_BUCKET")
      case True
      with put [OF new_bucket_rep [OF rep None], of 0] None n0 show ?thesis
        by (simp add: pool_free_def pool_used_def fun_eq_iff)
    next
      case False
      with av_free_rep [OF rep u] None n0 show ?thesis by (auto simp: pool_free_def pool_inv_def)
    qed
  qed
qed

text \<open>The pool provides the contract, for every libavutil.\<close>

interpretation pool: allocator "pool_alloc av" "pool_free av" pool_used pool_inv "\<lambda>n. SIZEOF_PTR \<le> n"
  for av
  by unfold_locales (fact pool_alloc_inv pool_free_inv)+

subsection \<open>Destroying the pool\<close>

lemma free_chain_ok:
  "chain (p_heap st) p as \<Longrightarrow> distinct as \<Longrightarrow> length as \<le> fuel \<Longrightarrow>
   \<exists>st'. free_chain fuel p st = Some (Inr st') \<and> p_buckets st' = p_buckets st \<and>
     p_heap st' = (\<lambda>a. if a \<in> set as then None else p_heap st a)"
proof (induction as arbitrary: p st fuel)
  case (Cons a as)
  then obtain n nx where h: "p = Some a" "p_heap st a = Some (Block n (Link nx))"
    and ch: "chain (p_heap st) nx as"
    by (auto split: option.splits block.splits content.splits)
  obtain k where k: "fuel = Suc k" "length as \<le> k" using Cons.prems(3) by (cases fuel) auto
  let ?st = "st\<lparr>p_heap := (p_heap st)(a := None)\<rparr>"
  have "chain (p_heap ?st) nx as" using ch Cons.prems(2) by (simp add: chain_other)
  from Cons.IH [OF this _ k(2)] Cons.prems(2) obtain st' where
    "free_chain k nx ?st = Some (Inr st')" "p_buckets st' = p_buckets st"
    "p_heap st' = (\<lambda>x. if x \<in> set as then None else p_heap ?st x)" by auto
  then show ?case by (auto simp: k h av_free_def fun_eq_iff)
qed auto

lemma free_buckets_ok:
  "list_all2 (bucket_ok (p_heap st)) bs ls \<Longrightarrow> distinct (concat ls) \<Longrightarrow> MAX_PER_BUCKET \<le> fuel \<Longrightarrow>
   \<exists>st'. free_buckets fuel bs st = Some (Inr st') \<and> p_buckets st' = [] \<and>
     p_heap st' = (\<lambda>a. if a \<in> set (concat ls) then None else p_heap st a)"
proof (induction bs arbitrary: ls st)
  case (Cons b bs)
  then obtain xs ls' where ls: "ls = xs # ls'" and b: "bucket_ok (p_heap st) b xs"
    and bs: "list_all2 (bucket_ok (p_heap st)) bs ls'"
    by (cases ls) auto
  from b Cons.prems(3) have ch: "chain (p_heap st) (bk_head b) xs" "length xs \<le> fuel"
    by (auto simp: bucket_ok_def)
  from free_chain_ok [OF ch(1) _ ch(2)] Cons.prems(2) ls obtain st1 where
    s1: "free_chain fuel (bk_head b) st = Some (Inr st1)"
    "p_heap st1 = (\<lambda>a. if a \<in> set xs then None else p_heap st a)" by auto
  have agree: "p_heap st1 a = p_heap st a" if "a \<in> set (concat ls')" for a
    using that Cons.prems(2) ls s1(2) by auto
  have "bucket_ok (p_heap st1) c ys" if "bucket_ok (p_heap st) c ys" "ys \<in> set ls'" for c ys
  proof -
    have ys: "p_heap st1 a = p_heap st a" if "a \<in> set ys" for a
      using that \<open>ys \<in> set ls'\<close> agree by auto
    have "chain (p_heap st1) p zs = chain (p_heap st) p zs" if "set zs \<subseteq> set (concat ls')" for p zs
      using that agree by (induction zs arbitrary: p) (auto split: option.split block.split content.split)
    with that ys show ?thesis by (auto simp: bucket_ok_def)
  qed
  with bs have "list_all2 (bucket_ok (p_heap st1)) bs ls'"
    by (auto simp: list_all2_conv_all_nth)
  from Cons.IH [OF this] Cons.prems(2,3) ls s1 show ?case by (auto simp: fun_eq_iff)
qed auto

subsection \<open>Runs of the pool\<close>

text \<open>The bytes of a client's block.\<close>

definition pool_data :: "pool \<Rightarrow> addr \<Rightarrow> 8 word list option" where
  "pool_data st a = (case p_heap st a of Some (Block _ (Bytes bs)) \<Rightarrow> Some bs | _ \<Rightarrow> None)"

lemma pool_alloc_data:
  assumes "pool_alloc av n st = Inr (Some a, st')"
  shows "pool_data st' a = Some (replicate n 0)" and "b \<noteq> a \<Longrightarrow> pool_data st' b = pool_data st b"
  using assms
  by (auto simp: pool_alloc_def pop_head_def av_mallocz_def pool_data_def Let_def
    split: if_splits option.splits block.splits content.splits)

text \<open>The states that clients can bring about: they start from the empty pool, ask for blocks, and give
  back what is theirs under the size they asked for, if it can hold a link.\<close>

inductive pool_reach :: "av_mem \<Rightarrow> pool \<Rightarrow> bool" for av where
  reach_init: "pool_reach av \<lparr>p_heap = Map.empty, p_buckets = []\<rparr>"
| reach_alloc: "pool_reach av st \<Longrightarrow> pool_alloc av n st = Inr (p, st') \<Longrightarrow> pool_reach av st'"
| reach_free: "pool_reach av st \<Longrightarrow> pool_used st a = Some n \<Longrightarrow> SIZEOF_PTR \<le> n \<Longrightarrow>
    pool_free av (Some a) n st = Inr st' \<Longrightarrow> pool_reach av st'"

lemma pool_inv_empty: "pool_inv \<lparr>p_heap = Map.empty, p_buckets = []\<rparr>"
  unfolding pool_inv_def by (rule exI [of _ "[]"]) (simp add: pool_rep_def links_def)

lemma pool_reach_inv: "pool_reach av st \<Longrightarrow> pool_inv st"
proof (induction rule: pool_reach.induct)
  case (reach_alloc st n p st')
  then show ?case using pool.alloc_inv by blast
next
  case (reach_free st a n st')
  then show ?case using pool.free_ok [of st a n av] by auto
qed (rule pool_inv_empty)

text \<open>C6. In every state that well-behaved clients can bring about, the pool does what an allocator
  should: a block it hands out belongs to nobody, has the size asked for and is all zeros, a refused
  request changes nothing, a block given back is gone and all others stay, and no call touches
  memory that is not its own.\<close>

theorem pool_is_allocator:
  assumes "pool_reach av st"
  shows "(case pool_alloc av n st of
            Inl _ \<Rightarrow> False
          | Inr (None, st') \<Rightarrow> pool_used st' = pool_used st
          | Inr (Some a, st') \<Rightarrow> pool_used st a = None \<and> pool_used st' = (pool_used st)(a \<mapsto> n) \<and>
              pool_data st' a = Some (replicate n 0)) \<and>
    (pool_used st b = Some m \<longrightarrow> SIZEOF_PTR \<le> m \<longrightarrow>
      (\<exists>st'. pool_free av (Some b) m st = Inr st' \<and> pool_used st' = (pool_used st)(b := None)))"
proof -
  from assms have inv: "pool_inv st" by (rule pool_reach_inv)
  obtain p st' where a: "pool_alloc av n st = Inr (p, st')" using pool.alloc_total [OF inv, of av n] by auto
  have "case p of None \<Rightarrow> pool_used st' = pool_used st
      | Some a \<Rightarrow> pool_used st a = None \<and> pool_used st' = (pool_used st)(a \<mapsto> n) \<and>
          pool_data st' a = Some (replicate n 0)"
    using pool.alloc_None [OF inv] pool.alloc_Some [OF inv] pool_alloc_data(1) a by (cases p) auto
  with a pool.free_ok [OF inv, of b m av] show ?thesis by (auto split: option.splits)
qed

text \<open>A particular choice of addresses, for examples: the least one that is free.\<close>

definition least_fresh :: chooser where
  "least_fresh = Chooser (\<lambda>h. if finite (dom h) then LEAST a. h a = None else 0)"

lemma least_fresh_empty: "pick least_fresh Map.empty = 0"
proof -
  have "(\<lambda>h. if finite (dom h) then LEAST a. h a = None else 0) \<in>
      {f :: heap \<Rightarrow> addr. \<forall>h. finite (dom h) \<longrightarrow> h (f h) = None}"
  proof (intro CollectI allI impI)
    fix h :: heap assume f: "finite (dom h)"
    then obtain a where "h a = None"
      using ex_new_if_finite [OF infinite_UNIV_nat] by (metis domIff)
    then have "h (LEAST a. h a = None) = None" by (rule LeastI)
    with f show "h (if finite (dom h) then LEAST a. h a = None else 0) = None" by simp
  qed
  from Chooser_inverse [OF this] show ?thesis by (simp add: least_fresh_def Least_equality)
qed

definition sample_mem :: av_mem where
  "sample_mem = \<lparr>av_ok = (\<lambda>_. True), av_fresh = least_fresh\<rparr>"

theorem pool_is_allocator_witness:
  "\<exists>st'. pool_alloc sample_mem 16 \<lparr>p_heap = Map.empty, p_buckets = []\<rparr> = Inr (Some 0, st') \<and>
     pool_used st' = [0 \<mapsto> 16] \<and> pool_data st' 0 = Some (replicate 16 0)"
proof -
  let ?st = "\<lparr>p_heap = Map.empty, p_buckets = []\<rparr> :: pool"
  obtain st' where r: "pool_alloc sample_mem 16 ?st = Inr (Some 0, st')"
    by (simp add: pool_alloc_def av_mallocz_def sample_mem_def least_fresh_empty)
  have "pool_used ?st = Map.empty" by (simp add: pool_used_def fun_eq_iff)
  with pool_is_allocator [OF reach_init [of sample_mem], of 16] r show ?thesis by simp
qed



lemma pool_free_small:
  assumes "pool_used st a = Some n" and "0 < n" and "n < SIZEOF_PTR"
    and "find_bucket_unlocked n (p_buckets st) = None" and "av_ok av SIZEOF_BUCKET"
  shows "pool_free av (Some a) n st = Inl Out_of_bounds"
proof -
  from assms(1) obtain bs where "p_heap st a = Some (Block n (Bytes bs))"
    by (auto simp: pool_used_def split: option.splits block.splits content.splits)
  with assms show ?thesis by (simp add: pool_free_def push_head_def MAX_PER_BUCKET_def)
qed

text \<open>A buffer that is smaller than a pointer breaks the pool: the first such buffer given back
  gets a link written over its end, right after the pool handed it out.\<close>

lemma pool_free_small_overflows:
  assumes "pool_reach av st" and "pool_alloc av n st = Inr (Some a, st')" and "n < SIZEOF_PTR"
    and "find_bucket_unlocked n (p_buckets st) = None" and "av_ok av SIZEOF_BUCKET"
  shows "pool_free av (Some a) n st' = Inl Out_of_bounds"
proof -
  have u: "pool_used st' a = Some n"
    using pool.alloc_Some [OF pool_reach_inv [OF assms(1)] assms(2)] by simp
  have "0 < n" and b: "p_buckets st' = p_buckets st"
    using assms(2,4) by (auto simp: pool_alloc_def av_mallocz_def Let_def split: if_splits)
  with pool_free_small [OF u _ assms(3)] assms(4,5) show ?thesis by simp
qed

lemma pool_free_small_overflows_example:
  "\<exists>st'. pool_alloc sample_mem 4 \<lparr>p_heap = Map.empty, p_buckets = []\<rparr> = Inr (Some 0, st') \<and>
     pool_free sample_mem (Some 0) 4 st' = Inl Out_of_bounds"
proof -
  let ?st = "\<lparr>p_heap = Map.empty, p_buckets = []\<rparr> :: pool"
  obtain st' where r: "pool_alloc sample_mem 4 ?st = Inr (Some 0, st')"
    by (simp add: pool_alloc_def av_mallocz_def sample_mem_def least_fresh_empty)
  from pool_free_small_overflows [OF reach_init r] r show ?thesis
    by (simp add: SIZEOF_PTR_def sample_mem_def)
qed

end
