(* ===== verification/Dvb_sub.thy ===== *)
theory Dvb_sub
  imports Pool_alloc
begin

text \<open>
  \<^verbatim>\<open>dvb_sub.c\<close>: a rendered bitmap becomes an \<^verbatim>\<open>AVSubtitle\<close>. Every block, the structures
  included, is a block of the heap of \<open>Pool_alloc\<close>; the planes come from the pool. The sizes of
  the two libavcodec structures are parameters. The lemmas use the allocator contract only: a
  call that fails gives every block back, a call that succeeds owns exactly the blocks of the
  subtitle.
\<close>

record Bitmap =
  bm_idxbuf :: "8 word list option"
  bm_palette :: "8 word list option"
  bm_w :: int
  bm_h :: int
  bm_x :: int
  bm_y :: int
  bm_nb_colors :: int
  bm_idxbuf_len :: nat
  bm_palette_bytes :: nat

record AVSubtitleRect =
  r_x :: int
  r_y :: int
  r_w :: int
  r_h :: int
  r_nb_colors :: int
  r_linesize0 :: int
  r_linesize1 :: int
  r_data0 :: "addr option"
  r_data1 :: "addr option"

text \<open>The subtitle with the addresses of its structures: the \<^verbatim>\<open>AVSubtitle\<close> itself, the array of
  pointers and the rectangle.\<close>

record subtitle =
  s_self :: addr
  s_rects :: "(addr \<times> addr \<times> AVSubtitleRect) option"
  s_start_display_time :: int
  s_end_display_time :: int

record sizes =
  sz_sub :: nat
  sz_rect :: nat

definition UINT_MAX :: int where "UINT_MAX = 4294967295"
definition AVPALETTE_SIZE :: nat where "AVPALETTE_SIZE = 1024"
definition SIZE_MAX :: nat where "SIZE_MAX = 18446744073709551615"

definition safe_av_mallocz_array :: "av_mem \<Rightarrow> nat \<Rightarrow> nat \<Rightarrow> pool \<Rightarrow> addr option \<times> pool" where
  "safe_av_mallocz_array av nmemb elsize st =
     (if nmemb = 0 \<or> elsize = 0 then (None, st)
      else if nmemb > SIZE_MAX div elsize then (None, st)
      else av_mallocz av (nmemb * elsize) st)"

text \<open>\<^verbatim>\<open>memcpy\<close> of a caller's bytes into a block.\<close>

definition heap_copy :: "addr \<Rightarrow> 8 word list \<Rightarrow> nat \<Rightarrow> pool \<Rightarrow> pool cres" where
  "heap_copy a src n st =
     (case p_heap st a of
        Some (Block m (Bytes old)) \<Rightarrow>
          if length src < n \<or> m < n then Inl Out_of_bounds
          else Inr (st\<lparr>p_heap := (p_heap st)(a \<mapsto> Block m (Bytes (take n src @ drop n old)))\<rparr>)
      | _ \<Rightarrow> Inl Out_of_bounds)"

definition free_sub_and_rects :: "av_mem \<Rightarrow> subtitle \<Rightarrow> pool \<Rightarrow> pool cres" where
  "free_sub_and_rects av sub st =
     sbind
       (case s_rects sub of
          None \<Rightarrow> Inr st
        | Some (arr, rect, r) \<Rightarrow>
            sbind
              (case r_data1 r of
                 None \<Rightarrow> Inr st
               | Some a \<Rightarrow>
                   pool_free av (Some a)
                     (if r_linesize1 r = 0 then nat (r_nb_colors r) * 4 else nat (r_linesize1 r)) st)
              (\<lambda>st1. sbind
                 (case r_data0 r of
                    None \<Rightarrow> Inr st1
                  | Some a \<Rightarrow> pool_free av (Some a) (nat (r_w r) * nat (r_h r)) st1)
                 (\<lambda>st2. sbind (av_free rect st2) (\<lambda>st3. av_free arr st3))))
       (\<lambda>st'. av_free (s_self sub) st')"

definition clamp_duration :: "int \<Rightarrow> int \<Rightarrow> int" where
  "clamp_duration start endt =
     (let dur = endt - start;
          dur1 = (if dur < 0 then 0 else dur)
      in if dur1 > UINT_MAX then UINT_MAX else dur1)"

definition clamp_colors :: "int \<Rightarrow> int" where
  "clamp_colors n =
     (let nb = (if n > 0 then n else 16); max_colors = int (AVPALETTE_SIZE div 4)
      in if nb > max_colors then max_colors else nb)"

text \<open>The planes, once the structures are there: the subtitle, or \<open>None\<close> after the cleanup. The
  multiplication wraps at the width of \<^verbatim>\<open>size_t\<close>.\<close>

definition rect_sub :: "addr \<Rightarrow> addr \<Rightarrow> addr \<Rightarrow> AVSubtitleRect \<Rightarrow> subtitle" where
  "rect_sub self arr rect r =
     \<lparr>s_self = self, s_rects = Some (arr, rect, r), s_start_display_time = 0, s_end_display_time = 0\<rparr>"

definition fail_sub :: "av_mem \<Rightarrow> subtitle \<Rightarrow> pool \<Rightarrow> (subtitle option \<times> pool) cres" where
  "fail_sub av sub st = sbind (free_sub_and_rects av sub st) (\<lambda>st'. Inr (None, st'))"

definition palette_size :: "int \<Rightarrow> nat" where
  "palette_size nb = min (nat nb * 4) AVPALETTE_SIZE"

definition fill_palette :: "av_mem \<Rightarrow> Bitmap \<Rightarrow> int \<Rightarrow> int \<Rightarrow> addr \<Rightarrow> addr \<Rightarrow> addr \<Rightarrow> AVSubtitleRect \<Rightarrow>
    pool \<Rightarrow> (subtitle option \<times> pool) cres" where
  "fill_palette av bm start endt self arr rect r1 st =
     (let palette_bytes = palette_size (r_nb_colors r1)
      in sbind (pool_alloc av palette_bytes st) (\<lambda>(d1, st3).
         let r2 = r1\<lparr>r_data1 := d1, r_linesize1 := int palette_bytes\<rparr>;
             sub = rect_sub self arr rect r2;
             done = (\<lambda>st. Inr (Some (sub\<lparr>s_end_display_time := clamp_duration start endt\<rparr>), st))
         in case d1 of
              None \<Rightarrow> fail_sub av sub st3
            | Some a1 \<Rightarrow>
                (case bm_palette bm of
                   None \<Rightarrow> done st3
                 | Some pal \<Rightarrow>
                     if bm_palette_bytes bm < palette_bytes then fail_sub av sub st3
                     else sbind (heap_copy a1 pal palette_bytes st3) done)))"

definition new_rect :: "Bitmap \<Rightarrow> AVSubtitleRect" where
  "new_rect bm =
     \<lparr>r_x = bm_x bm, r_y = bm_y bm, r_w = bm_w bm, r_h = bm_h bm,
      r_nb_colors = clamp_colors (bm_nb_colors bm), r_linesize0 = 0, r_linesize1 = 0,
      r_data0 = None, r_data1 = None\<rparr>"

definition fill_rect :: "av_mem \<Rightarrow> Bitmap \<Rightarrow> int \<Rightarrow> int \<Rightarrow> 8 word list \<Rightarrow> addr \<Rightarrow> addr \<Rightarrow> addr \<Rightarrow> pool \<Rightarrow>
    (subtitle option \<times> pool) cres" where
  "fill_rect av bm start endt idx self arr rect st =
     (let r = new_rect bm;
          pixel_count = nat (bm_w bm) * nat (bm_h bm) mod (SIZE_MAX + 1)
      in if pixel_count div nat (bm_w bm) \<noteq> nat (bm_h bm) then fail_sub av (rect_sub self arr rect r) st
         else
           sbind (pool_alloc av pixel_count st) (\<lambda>(d0, st1).
           let r1 = r\<lparr>r_data0 := d0, r_linesize0 := bm_w bm\<rparr>
           in case d0 of
                None \<Rightarrow> fail_sub av (rect_sub self arr rect r1) st1
              | Some a0 \<Rightarrow>
                  if bm_idxbuf_len bm = 0 \<or> bm_idxbuf_len bm < pixel_count
                  then fail_sub av (rect_sub self arr rect r1) st1
                  else
                    sbind (heap_copy a0 idx pixel_count st1) (\<lambda>st2.
                    fill_palette av bm start endt self arr rect r1 st2)))"

definition make_subtitle ::
    "av_mem \<Rightarrow> sizes \<Rightarrow> Bitmap \<Rightarrow> int \<Rightarrow> int \<Rightarrow> pool \<Rightarrow> (subtitle option \<times> pool) cres" where
  "make_subtitle av sz bm start endt st =
     (case av_mallocz av (sz_sub sz) st of
        (None, st1) \<Rightarrow> Inr (None, st1)
      | (Some self, st1) \<Rightarrow>
          if bm_w bm \<le> 0 \<or> bm_h bm \<le> 0 \<or> bm_idxbuf bm = None then
            Inr (Some \<lparr>s_self = self, s_rects = None, s_start_display_time = 0,
                       s_end_display_time = clamp_duration start endt\<rparr>, st1)
          else
            (case safe_av_mallocz_array av 1 8 st1 of
               (None, st2) \<Rightarrow> sbind (av_free self st2) (\<lambda>st'. Inr (None, st'))
             | (Some arr, st2) \<Rightarrow>
                 (case av_mallocz av (sz_rect sz) st2 of
                    (None, st3) \<Rightarrow>
                      sbind (av_free arr st3) (\<lambda>st4. sbind (av_free self st4) (\<lambda>st'. Inr (None, st')))
                  | (Some rect, st3) \<Rightarrow>
                      fill_rect av bm start endt (the (bm_idxbuf bm)) self arr rect st3)))"

subsection \<open>Blocks taken and given back\<close>

text \<open>\<^verbatim>\<open>av_mallocz\<close> and \<^verbatim>\<open>av_free\<close> on the same heap are an allocator too.\<close>

lemma av_free_inv:
  "pool_inv st \<Longrightarrow> pool_used st a = Some n \<Longrightarrow>
   \<exists>st'. av_free a st = Inr st' \<and> pool_inv st' \<and> pool_used st' = (pool_used st)(a := None)"
  unfolding pool_inv_def using av_free_rep by blast

interpretation raw: allocator "\<lambda>n s. Inr (av_mallocz av n s)"
    "\<lambda>p n s. case p of None \<Rightarrow> Inr s | Some a \<Rightarrow> av_free a s" pool_used pool_inv "\<lambda>_. True" for av
proof unfold_locales
  fix s n p s' a
  assume inv: "pool_inv s"
  show "\<exists>r. Inr (av_mallocz av n s) = Inr r" by simp
  show "Inr (av_mallocz av n s) = Inr (p, s') \<Longrightarrow> pool_inv s'"
    using inv av_mallocz_rep(1) by (force simp: pool_inv_def)
  show "Inr (av_mallocz av n s) = Inr (None, s') \<Longrightarrow> pool_used s' = pool_used s"
    by (auto simp: av_mallocz_def Let_def split: if_splits)
  show "Inr (av_mallocz av n s) = Inr (Some a, s') \<Longrightarrow>
      pool_used s a = None \<and> pool_used s' = (pool_used s)(a \<mapsto> n)"
    using inv av_mallocz_rep(3) by (force simp: pool_inv_def)
  show "pool_used s a = Some n \<Longrightarrow> \<exists>s'. (case Some a of None \<Rightarrow> Inr s | Some a \<Rightarrow> av_free a s) = Inr s' \<and>
      pool_inv s' \<and> pool_used s' = (pool_used s)(a := None)"
    using av_free_inv [OF inv] by simp
qed

lemma heap_copy_inv:
  assumes "pool_inv st" and "heap_copy a src n st = Inr st'"
  shows "pool_inv st'" and "pool_used st' = pool_used st"
proof -
  from assms(2) obtain m old where h: "p_heap st a = Some (Block m (Bytes old))"
    and st': "st' = st\<lparr>p_heap := (p_heap st)(a \<mapsto> Block m (Bytes (take n src @ drop n old)))\<rparr>"
    by (auto simp: heap_copy_def split: option.splits block.splits content.splits if_splits)
  from assms(1) obtain ls where rep: "pool_rep st ls" by (auto simp: pool_inv_def)
  have "a \<notin> links (p_heap st)" using h by (simp add: links_def)
  with rep have nin: "a \<notin> set (concat ls)" by (simp only: pool_rep_def not_False_eq_True)
  have nj: "a \<notin> set (ls ! j)" if "j < length ls" for j using nin that by auto
  have "links ((p_heap st)(a \<mapsto> Block m (Bytes x))) = links (p_heap st)" for x
    using h by (auto simp: links_def)
  with rep nj have "pool_rep st' ls"
    by (simp add: st' pool_rep_def list_all2_conv_all_nth bucket_ok_other del: set_concat)
  then show "pool_inv st'" by (auto simp: pool_inv_def)
  show "pool_used st' = pool_used st" using h by (auto simp: st' pool_used_def fun_eq_iff)
qed

text \<open>Giving back a plane that may be missing, and a structure.\<close>

lemma free_plane:
  assumes "pool_inv st" and "\<And>a. p = Some a \<Longrightarrow> pool_used st a = Some n \<and> SIZEOF_PTR \<le> n"
  shows "\<exists>st'. (case p of None \<Rightarrow> Inr st | Some a \<Rightarrow> pool_free av (Some a) n st) = Inr st' \<and>
    pool_inv st' \<and> pool_used st' = pool_used st |` (- set_option p)"
proof (cases p)
  case None
  with assms(1) show ?thesis by (simp add: restrict_map_def)
next
  case (Some a)
  with pool.free_ok [OF assms(1), of a n] assms(2) show ?thesis
    by (auto simp: restrict_complement_singleton_eq)
qed

lemma free_struct:
  assumes "pool_inv st" and "pool_used st a = Some n"
  shows "\<exists>st'. av_free a st = Inr st' \<and> pool_inv st' \<and> pool_used st' = pool_used st |` (- {a})"
  using av_free_inv [OF assms] by (simp add: restrict_complement_singleton_eq)

definition rect_blocks :: "subtitle \<Rightarrow> addr set" where
  "rect_blocks sub =
     (case s_rects sub of
        None \<Rightarrow> {}
      | Some (arr, rect, r) \<Rightarrow> {arr, rect} \<union> set_option (r_data0 r) \<union> set_option (r_data1 r))"

text \<open>The blocks of a subtitle: its structures and planes, all different, with their sizes.\<close>

definition owns :: "pool \<Rightarrow> subtitle \<Rightarrow> bool" where
  "owns st sub \<longleftrightarrow>
     pool_used st (s_self sub) \<noteq> None \<and> s_self sub \<notin> rect_blocks sub \<and>
     (case s_rects sub of
        None \<Rightarrow> True
      | Some (arr, rect, r) \<Rightarrow>
          arr \<noteq> rect \<and> pool_used st arr \<noteq> None \<and> pool_used st rect \<noteq> None \<and>
          (\<forall>a. r_data0 r = Some a \<longrightarrow> a \<noteq> arr \<and> a \<noteq> rect \<and>
             pool_used st a = Some (nat (r_w r) * nat (r_h r)) \<and> SIZEOF_PTR \<le> nat (r_w r) * nat (r_h r)) \<and>
          (\<forall>a. r_data1 r = Some a \<longrightarrow> a \<noteq> arr \<and> a \<noteq> rect \<and> r_data0 r \<noteq> Some a \<and>
             0 < r_linesize1 r \<and>
             pool_used st a = Some (nat (r_linesize1 r)) \<and> SIZEOF_PTR \<le> nat (r_linesize1 r)))"

lemma free_sub_ok:
  assumes inv: "pool_inv st" and own: "owns st sub" and s: "s_rects sub = Some (arr, rect, r)"
  shows "\<exists>st'. free_sub_and_rects av sub st = Inr st' \<and> pool_inv st' \<and>
    pool_used st' = pool_used st |` (- insert (s_self sub) (rect_blocks sub))"
proof -
  let ?n1 = "if r_linesize1 r = 0 then nat (r_nb_colors r) * 4 else nat (r_linesize1 r)"
  note own' = own [unfolded owns_def rect_blocks_def s option.case prod.case]
  obtain st1 where s1: "(case r_data1 r of None \<Rightarrow> Inr st | Some a \<Rightarrow> pool_free av (Some a) ?n1 st) = Inr st1"
    "pool_inv st1" "pool_used st1 = pool_used st |` (- set_option (r_data1 r))"
    using free_plane [OF inv, of "r_data1 r" ?n1 av] own' by force
  obtain st2 where s2: "(case r_data0 r of None \<Rightarrow> Inr st1
      | Some a \<Rightarrow> pool_free av (Some a) (nat (r_w r) * nat (r_h r)) st1) = Inr st2"
    "pool_inv st2" "pool_used st2 = pool_used st1 |` (- set_option (r_data0 r))"
    using free_plane [OF s1(2), of "r_data0 r" "nat (r_w r) * nat (r_h r)" av] own' s1(3) by force
  have "pool_used st2 rect \<noteq> None" using own' by (auto simp: s1(3) s2(3) restrict_map_def)
  then obtain st3 where s3: "av_free rect st2 = Inr st3" "pool_inv st3"
    "pool_used st3 = pool_used st2 |` (- {rect})" using free_struct [OF s2(2)] by blast
  have "pool_used st3 arr \<noteq> None" using own' by (auto simp: s1(3) s2(3) s3(3) restrict_map_def)
  then obtain st4 where s4: "av_free arr st3 = Inr st4" "pool_inv st4"
    "pool_used st4 = pool_used st3 |` (- {arr})" using free_struct [OF s3(2)] by blast
  have "pool_used st4 (s_self sub) \<noteq> None" 
    using own' by (auto simp: s1(3) s2(3) s3(3) s4(3) restrict_map_def)
  then obtain st5 where s5: "av_free (s_self sub) st4 = Inr st5" "pool_inv st5"
    "pool_used st5 = pool_used st4 |` (- {s_self sub})" using free_struct [OF s4(2)] by blast
  have "pool_used st5 = pool_used st |` (- insert (s_self sub) (rect_blocks sub))"
    unfolding s5(3) s4(3) s3(3) s2(3) s1(3) restrict_restrict
    by (rule arg_cong [where f = "restrict_map (pool_used st)"]) (auto simp: rect_blocks_def s)
  with s5(1,2) show ?thesis
    by (simp add: free_sub_and_rects_def s s1(1) s2(1) s3(1) s4(1))
qed

subsection \<open>\<^verbatim>\<open>make_subtitle\<close>\<close>

text \<open>A bitmap as the renderers build it: the lengths are those of the buffers, the dimensions are
  \<^verbatim>\<open>int\<close>s. The last two conditions keep the cleanup from pushing a buffer that is smaller than the
  link the pool writes into it.\<close>

definition bitmap_ok :: "Bitmap \<Rightarrow> bool" where
  "bitmap_ok bm \<longleftrightarrow>
     bm_w bm \<le> 2147483647 \<and> bm_h bm \<le> 2147483647 \<and>
     (\<forall>idx. bm_idxbuf bm = Some idx \<longrightarrow> bm_idxbuf_len bm = length idx) \<and>
     (\<forall>pal. bm_palette bm = Some pal \<longrightarrow> bm_palette_bytes bm = length pal) \<and>
     (0 < bm_w bm \<longrightarrow> 0 < bm_h bm \<longrightarrow> 8 \<le> bm_w bm * bm_h bm) \<and> bm_nb_colors bm \<noteq> 1"

lemma clamp_colors_range: "n \<noteq> 1 \<Longrightarrow> 2 \<le> clamp_colors n \<and> clamp_colors n \<le> 256"
  by (simp add: clamp_colors_def Let_def AVPALETTE_SIZE_def)

lemma pixel_count_exact:
  assumes "0 < w" and "0 < h" and "w \<le> 2147483647" and "h \<le> 2147483647"
  shows "nat w * nat h mod (SIZE_MAX + 1) = nat w * nat h"
proof -
  have "nat w * nat h \<le> 2147483647 * 2147483647" using assms by (intro mult_mono) auto
  then show ?thesis by (simp add: SIZE_MAX_def)
qed

lemma heap_copy_ok:
  assumes "pool_used st a = Some m" and "n \<le> m" and "n \<le> length src"
  shows "\<exists>st'. heap_copy a src n st = Inr st'"
  using assms by (auto simp: heap_copy_def pool_used_def split: option.splits block.splits content.splits)

text \<open>A subtitle under construction, on top of the blocks \<open>U\<close> that were in use before.\<close>

definition building :: "(addr \<Rightarrow> nat option) \<Rightarrow> pool \<Rightarrow> subtitle \<Rightarrow> bool" where
  "building U st sub \<longleftrightarrow>
     pool_inv st \<and> owns st sub \<and>
     (\<forall>a. a \<in> insert (s_self sub) (rect_blocks sub) \<longrightarrow> U a = None) \<and>
     pool_used st |` (- insert (s_self sub) (rect_blocks sub)) = U"

lemma building_free:
  assumes "building U st sub" and "s_rects sub = Some x"
  shows "\<exists>st'. free_sub_and_rects av sub st = Inr st' \<and> pool_inv st' \<and> pool_used st' = U"
proof -
  obtain arr rect r where "s_rects sub = Some (arr, rect, r)" using assms(2) by (cases x) auto
  with free_sub_ok [of st sub] assms(1) show ?thesis by (auto simp: building_def)
qed

lemma restrict_grow: "V a = None \<Longrightarrow> (V(a \<mapsto> n)) |` (- insert a B) = V |` (- B)"
  by (auto simp: restrict_map_def fun_eq_iff)

text \<open>Adding a plane.\<close>

lemma building_data0:
  assumes b: "building U st sub" and s: "s_rects sub = Some (arr, rect, r)"
    and d: "r_data0 r = None" "r_data1 r = None" and n: "n = nat (r_w r) * nat (r_h r)" "SIZEOF_PTR \<le> n"
    and al: "pool_alloc av n st = Inr (Some a, st')"
    and s': "s_rects sub' = Some (arr, rect, r')" "s_self sub' = s_self sub"
    and r': "r_data0 r' = Some a" "r_data1 r' = None" "r_w r' = r_w r" "r_h r' = r_h r"
  shows "building U st' sub'"
proof -
  from b have inv: "pool_inv st" by (simp add: building_def)
  note A = pool.alloc_Some [OF inv al] and I = pool.alloc_inv [OF inv al]
  have "a \<notin> {s_self sub, arr, rect}" using A b s by (auto simp: building_def owns_def)
  then have "owns st' sub'"
    using A b s s' r' n d by (auto simp: building_def owns_def rect_blocks_def)
  moreover have "insert (s_self sub') (rect_blocks sub') = insert a (insert (s_self sub) (rect_blocks sub))"
    using s s' r' d by (auto simp: rect_blocks_def)
  moreover have "pool_used st' |` (- insert a (insert (s_self sub) (rect_blocks sub))) = U"
    using A b restrict_grow [of "pool_used st" a n] by (simp add: building_def)
  moreover have "U a = None" using A b by (auto simp: building_def restrict_map_def)
  ultimately show ?thesis using I b by (auto simp: building_def)
qed

lemma building_data1:
  assumes b: "building U st sub" and s: "s_rects sub = Some (arr, rect, r)"
    and d: "r_data1 r = None" and n: "SIZEOF_PTR \<le> n"
    and al: "pool_alloc av n st = Inr (Some a, st')"
    and s': "s_rects sub' = Some (arr, rect, r')" "s_self sub' = s_self sub"
    and r': "r_data0 r' = r_data0 r" "r_data1 r' = Some a" "r_w r' = r_w r" "r_h r' = r_h r"
      "r_linesize1 r' = int n"
  shows "building U st' sub'"
proof -
  from b have inv: "pool_inv st" by (simp add: building_def)
  note A = pool.alloc_Some [OF inv al] and I = pool.alloc_inv [OF inv al]
  have ne: "a \<noteq> s_self sub" "a \<noteq> arr" "a \<noteq> rect" "r_data0 r \<noteq> Some a"
    using A b s by (auto simp: building_def owns_def)
  then have "owns st' sub'"
    using A b s s' r' n d by (auto simp: building_def owns_def rect_blocks_def SIZEOF_PTR_def)
  moreover have "insert (s_self sub') (rect_blocks sub') = insert a (insert (s_self sub) (rect_blocks sub))"
    using s s' r' d by (auto simp: rect_blocks_def)
  moreover have "pool_used st' |` (- insert a (insert (s_self sub) (rect_blocks sub))) = U"
    using A b restrict_grow [of "pool_used st" a n] by (simp add: building_def)
  moreover have "U a = None" using A b by (auto simp: building_def restrict_map_def)
  ultimately show ?thesis using I b by (auto simp: building_def)
qed

lemma owns_used:
  assumes "pool_used st' = pool_used st"
  shows "owns st' sub = owns st sub"
  unfolding owns_def assms ..

lemma building_copy:
  assumes "building U st sub" and "heap_copy a src n st = Inr st'"
  shows "building U st' sub"
  using assms heap_copy_inv [of st a src n st'] owns_used [of st' st sub] by (simp add: building_def)

lemma building_alloc_None:
  assumes "building U st sub" and "pool_alloc av n st = Inr (None, st')"
  shows "building U st' sub"
  using assms pool.alloc_None [of st av n st'] pool.alloc_inv [of st av n None st']
    owns_used [of st' st sub]
  by (simp add: building_def)

lemma building_cong:
  assumes "building U st sub" and "s_rects sub = Some (arr, rect, r)"
    and "s_rects sub' = Some (arr, rect, r')" and "s_self sub' = s_self sub"
    and "r_data0 r' = r_data0 r" and "r_data1 r' = None" and "r_data1 r = None"
    and "r_w r' = r_w r" and "r_h r' = r_h r"
  shows "building U st sub'"
  using assms by (auto simp: building_def owns_def rect_blocks_def)

text \<open>What a call has done to the blocks in use: nothing when it returns NULL, else it added the
  blocks of the subtitle.\<close>

definition sub_result :: "(addr \<Rightarrow> nat option) \<Rightarrow> (subtitle option \<times> pool) cres \<Rightarrow> bool" where
  "sub_result U res \<longleftrightarrow>
     (case res of
        Inl _ \<Rightarrow> False
      | Inr (None, st') \<Rightarrow> pool_inv st' \<and> pool_used st' = U
      | Inr (Some sub, st') \<Rightarrow> building U st' sub)"

lemma building_fail:
  assumes "building U st sub" and "s_rects sub = Some x"
  shows "sub_result U (fail_sub av sub st)"
  using building_free [OF assms, of av] by (auto simp: sub_result_def fail_sub_def)

lemma rect_sub_sel [simp]:
  "s_rects (rect_sub self arr rect r) = Some (arr, rect, r)" "s_self (rect_sub self arr rect r) = self"
  by (simp_all add: rect_sub_def)

lemma building_duration: "building U st (sub\<lparr>s_end_display_time := t\<rparr>) = building U st sub"
  by (simp add: building_def owns_def rect_blocks_def)

lemma fill_palette_ok:
  assumes B: "building U st (rect_sub self arr rect r)" and d: "r_data1 r = None"
    and nb: "2 \<le> r_nb_colors r" and pal: "\<And>p. bm_palette bm = Some p \<Longrightarrow> bm_palette_bytes bm = length p"
  shows "sub_result U (fill_palette av bm start endt self arr rect r st)"
proof -
  let ?pb = "palette_size (r_nb_colors r)"
  have pb8: "SIZEOF_PTR \<le> ?pb" using nb by (simp add: palette_size_def SIZEOF_PTR_def AVPALETTE_SIZE_def)
  from B have inv: "pool_inv st" by (simp add: building_def)
  obtain d1 st3 where a1: "pool_alloc av ?pb st = Inr (d1, st3)"
    using pool.alloc_total [OF inv, of av ?pb] by auto
  let ?r2 = "r\<lparr>r_data1 := d1, r_linesize1 := int ?pb\<rparr>"
  let ?sub = "rect_sub self arr rect ?r2"
  have "building U st3 ?sub"
  proof (cases d1)
    case None
    from building_alloc_None [OF B a1 [unfolded None]] show ?thesis
      by (rule building_cong [where arr = arr and rect = rect and r = r and r' = ?r2]) (simp_all add: d None)
  next
    case (Some a)
    show ?thesis
      by (rule building_data1 [OF B _ d pb8 a1 [unfolded Some], where arr = arr and rect = rect and r' = ?r2])
        (simp_all add: Some)
  qed
  note F = this building_fail [OF this, of _ av]
  have copy: "\<exists>st4. heap_copy a p ?pb st3 = Inr st4"
    if "d1 = Some a" "?pb \<le> length p" for a p
  proof (rule heap_copy_ok [OF _ order_refl that(2)])
    show "pool_used st3 a = Some ?pb" using F(1) that(1) by (simp add: building_def owns_def)
  qed
  show ?thesis
  proof (cases "d1 = None \<or> bm_palette bm = None")
    case True
    with a1 F show ?thesis
      by (cases d1) (simp_all add: fill_palette_def Let_def sub_result_def building_duration)
  next
    case False
    then obtain a p where s: "d1 = Some a" "bm_palette bm = Some p" by auto
    show ?thesis
    proof (cases "?pb \<le> length p")
      case True
      from copy [OF s(1) True] obtain st4 where c: "heap_copy a p ?pb st3 = Inr st4" ..
      from building_copy [OF F(1) c] a1 s c True pal [OF s(2)] show ?thesis
        by (simp add: fill_palette_def Let_def sub_result_def building_duration)
    next
      case False
      with a1 F s pal [OF s(2)] show ?thesis by (simp add: fill_palette_def Let_def)
    qed
  qed
qed

lemma fill_rect_ok:
  assumes b: "building U st (rect_sub self arr rect (new_rect bm))"
    and bm: "bitmap_ok bm" "0 < bm_w bm" "0 < bm_h bm" "bm_idxbuf bm = Some idx"
  shows "sub_result U (fill_rect av bm start endt idx self arr rect st)"
proof -
  let ?px = "nat (bm_w bm) * nat (bm_h bm)" and ?r = "new_rect bm"
  have px: "?px mod (SIZE_MAX + 1) = ?px"
    using bm by (intro pixel_count_exact) (simp_all add: bitmap_ok_def)
  have d: "?px div nat (bm_w bm) = nat (bm_h bm)" using bm by simp
  have "nat 8 \<le> nat (bm_w bm * bm_h bm)" using bm by (intro nat_mono) (simp add: bitmap_ok_def)
  then have px8: "SIZEOF_PTR \<le> ?px" using bm by (simp add: SIZEOF_PTR_def nat_mult_distrib)
  have r: "r_data0 ?r = None" "r_data1 ?r = None" "r_w ?r = bm_w bm" "r_h ?r = bm_h bm"
    "2 \<le> r_nb_colors ?r"
    using bm clamp_colors_range by (simp_all add: new_rect_def bitmap_ok_def)
  obtain d0 st1 where a0: "pool_alloc av ?px st = Inr (d0, st1)"
    using b pool.alloc_total [of st av ?px] by (auto simp: building_def)
  let ?r1 = "?r\<lparr>r_data0 := d0, r_linesize0 := bm_w bm\<rparr>"
  have B1: "building U st1 (rect_sub self arr rect ?r1)"
  proof (cases d0)
    case None
    from building_alloc_None [OF b a0 [unfolded None]] show ?thesis
      by (rule building_cong [where arr = arr and rect = rect and r = ?r and r' = ?r1])
        (simp_all add: r None)
  next
    case (Some a)
    show ?thesis
      by (rule building_data0 [OF b _ r(1,2) _ px8 a0 [unfolded Some],
            where arr = arr and rect = rect and r' = ?r1]) (simp_all add: r Some)
  qed
  note F = building_fail [OF B1, of _ av]
  show ?thesis
  proof (cases "d0 = None \<or> bm_idxbuf_len bm < ?px \<or> bm_idxbuf_len bm = 0")
    case True
    with a0 F show ?thesis by (cases d0) (auto simp: fill_rect_def Let_def px d simp del: add_Suc_right One_nat_def)
  next
    case False
    then obtain a where s: "d0 = Some a" and n: "?px \<le> length idx" using bm by (auto simp: bitmap_ok_def)
    have "pool_used st1 a = Some ?px" using B1 s by (simp add: building_def owns_def r)
    from heap_copy_ok [OF this order_refl n] obtain st2 where c: "heap_copy a idx ?px st1 = Inr st2" ..
    have "sub_result U (fill_palette av bm start endt self arr rect ?r1 st2)"
      by (rule fill_palette_ok [OF building_copy [OF B1 c]]) (use r bm in \<open>simp_all add: bitmap_ok_def\<close>)
    with a0 s c False show ?thesis by (simp add: fill_rect_def Let_def px d del: add_Suc_right One_nat_def)
  qed
qed

lemma make_rects_ok:
  assumes i1: "pool_inv st1" and u1: "U self = None" "pool_used st1 = U(self \<mapsto> n1)"
    and m2: "av_mallocz av n2 st1 = (q, st2)" and m3: "av_mallocz av n3 st2 = (v, st3)"
    and bm: "bitmap_ok bm" "0 < bm_w bm" "0 < bm_h bm" "bm_idxbuf bm = Some idx"
  shows "q = None \<Longrightarrow> sub_result U (sbind (av_free self st2) (\<lambda>st'. Inr (None, st')))"
    and "q = Some arr \<Longrightarrow> v = None \<Longrightarrow>
      sub_result U (sbind (av_free arr st3) (\<lambda>st4. sbind (av_free self st4) (\<lambda>st'. Inr (None, st'))))"
    and "q = Some arr \<Longrightarrow> v = Some rect \<Longrightarrow>
      sub_result U (fill_rect av bm start endt idx self arr rect st3)"
proof -
  have i2: "pool_inv st2" using raw.alloc_inv [OF i1] m2 by simp
  have i3: "pool_inv st3" using raw.alloc_inv [OF i2] m3 by simp
  have undo1: "U(self := None) = U" using u1(1) by (auto simp: fun_eq_iff)
  show "sub_result U (sbind (av_free self st2) (\<lambda>st'. Inr (None, st')))" if "q = None"
  proof -
    have "pool_used st2 = U(self \<mapsto> n1)" using raw.alloc_None [OF i1] m2 u1(2) that by simp
    with av_free_inv [OF i2, of self n1] undo1 show ?thesis by (auto simp: sub_result_def)
  qed
  assume arr: "q = Some arr"
  with raw.alloc_Some [OF i1] m2 u1(2) have a: "(U(self \<mapsto> n1)) arr = None"
    "pool_used st2 = U(self \<mapsto> n1, arr \<mapsto> n2)" by auto
  then have ne: "arr \<noteq> self" "U arr = None" by (auto split: if_splits)
  have undo2: "U(self \<mapsto> n1, arr := None) = U(self \<mapsto> n1)" using ne by (auto simp: fun_eq_iff)
  show "sub_result U (sbind (av_free arr st3) (\<lambda>st4. sbind (av_free self st4) (\<lambda>st'. Inr (None, st'))))"
    if "v = None"
  proof -
    have "pool_used st3 = U(self \<mapsto> n1, arr \<mapsto> n2)" using raw.alloc_None [OF i2] m3 a(2) that by simp
    with av_free_inv [OF i3, of arr n2] undo2 obtain st4 where
      f: "av_free arr st3 = Inr st4" "pool_inv st4" "pool_used st4 = U(self \<mapsto> n1)" by auto
    with av_free_inv [OF f(2), of self n1] undo1 show ?thesis by (auto simp: sub_result_def)
  qed
  show "sub_result U (fill_rect av bm start endt idx self arr rect st3)" if "v = Some rect"
  proof (rule fill_rect_ok [OF _ bm])
    have r: "(U(self \<mapsto> n1, arr \<mapsto> n2)) rect = None" "pool_used st3 = U(self \<mapsto> n1, arr \<mapsto> n2, rect \<mapsto> n3)"
      using raw.alloc_Some [OF i2] m3 a(2) that by auto
    then have "rect \<noteq> arr" "rect \<noteq> self" "U rect = None" by (auto split: if_splits)
    moreover have "(U(self \<mapsto> n1, arr \<mapsto> n2, rect \<mapsto> n3)) |` (- {self, arr, rect}) = U"
      using ne \<open>U rect = None\<close> u1(1) by (auto simp: restrict_map_def fun_eq_iff)
    ultimately show "building U st3 (rect_sub self arr rect (new_rect bm))"
      using i3 r(2) ne u1(1)
      by (simp add: building_def owns_def rect_blocks_def new_rect_def insert_commute)
  qed
qed

lemma make_subtitle_result:
  assumes inv: "pool_inv st" and bm: "bitmap_ok bm"
  shows "sub_result (pool_used st) (make_subtitle av sz bm start endt st)"
proof -
  let ?U = "pool_used st"
  obtain p st1 where m1: "av_mallocz av (sz_sub sz) st = (p, st1)" by fastforce
  note R1 = raw.alloc_inv [of st av "sz_sub sz" p st1] raw.alloc_None [of st av "sz_sub sz" st1]
    raw.alloc_Some [of st av "sz_sub sz" _ st1]
  show ?thesis
  proof (cases p)
    case None
    with m1 R1 inv show ?thesis by (simp add: make_subtitle_def sub_result_def)
  next
    case (Some self)
    with m1 R1 inv have i1: "pool_inv st1" and u1: "?U self = None" "pool_used st1 = ?U(self \<mapsto> sz_sub sz)"
      by auto
    show ?thesis
    proof (cases "bm_w bm \<le> 0 \<or> bm_h bm \<le> 0 \<or> bm_idxbuf bm = None")
      case True
      have "pool_used st1 |` (- {self}) = ?U" using u1 by (auto simp: restrict_map_def fun_eq_iff)
      with True Some m1 i1 u1 show ?thesis
        by (simp add: make_subtitle_def sub_result_def building_def owns_def rect_blocks_def)
    next
      case False
      then obtain idx where b: "0 < bm_w bm" "0 < bm_h bm" "bm_idxbuf bm = Some idx" by auto
      obtain q st2 where m2: "safe_av_mallocz_array av 1 8 st1 = (q, st2)" by fastforce
      then have m2': "av_mallocz av 8 st1 = (q, st2)" by (simp add: safe_av_mallocz_array_def SIZE_MAX_def)
      obtain v st3 where m3: "av_mallocz av (sz_rect sz) st2 = (v, st3)" by fastforce
      note M = make_rects_ok [OF i1 u1 m2' m3 bm b]
      show ?thesis
      proof (cases q)
        case None
        with M(1) Some m1 m2 b show ?thesis by (simp add: make_subtitle_def)
      next
        case (Some arr)
        with M(2,3) \<open>p = Some self\<close> m1 m2 m3 b show ?thesis
          by (cases v) (simp_all add: make_subtitle_def)
      qed
    qed
  qed
qed

subsection \<open>What the subtitle shows\<close>

lemma heap_copy_data:
  assumes "heap_copy a src n st = Inr st'" and "pool_data st a = Some old" and "length old = n"
  shows "pool_data st' a = Some (take n src)" and "b \<noteq> a \<Longrightarrow> pool_data st' b = pool_data st b"
  using assms
  by (auto simp: heap_copy_def pool_data_def split: if_splits option.splits block.splits content.splits)

lemma fail_sub_None: "fail_sub av sub st = Inr (Some x, st') \<longleftrightarrow> False"
  by (auto simp: fail_sub_def sbind_eq_Inr_iff)

lemma fill_palette_data:
  assumes inv: "pool_inv st" and u: "pool_used st a0 \<noteq> None"
    and f: "fill_palette av bm start endt self arr rect r st = Inr (Some sub, st')"
  obtains a1 where "sub = (rect_sub self arr rect (r\<lparr>r_data1 := Some a1,
      r_linesize1 := int (palette_size (r_nb_colors r))\<rparr>))\<lparr>s_end_display_time := clamp_duration start endt\<rparr>"
    and "pool_data st' a0 = pool_data st a0"
    and "pool_data st' a1 = Some (case bm_palette bm of
        None \<Rightarrow> replicate (palette_size (r_nb_colors r)) 0
      | Some pal \<Rightarrow> take (palette_size (r_nb_colors r)) pal)"
proof -
  let ?pb = "palette_size (r_nb_colors r)"
  from f obtain d1 st3 where a1: "pool_alloc av ?pb st = Inr (d1, st3)"
    by (auto simp: fill_palette_def Let_def sbind_eq_Inr_iff)
  with f obtain a where d1: "d1 = Some a"
    by (cases d1) (auto simp: fill_palette_def Let_def fail_sub_None)
  note P = pool_alloc_data [OF a1 [unfolded d1]]
  have ne: "a0 \<noteq> a" using pool.alloc_Some [OF inv a1 [unfolded d1]] u by auto
  show thesis
  proof (cases "bm_palette bm")
    case None
    with f a1 d1 ne P that [of a] show thesis by (simp add: fill_palette_def Let_def)
  next
    case (Some p)
    with f a1 d1 obtain c: "heap_copy a p ?pb st3 = Inr st'"
      and sub: "sub = (rect_sub self arr rect (r\<lparr>r_data1 := Some a,
        r_linesize1 := int ?pb\<rparr>))\<lparr>s_end_display_time := clamp_duration start endt\<rparr>"
      by (auto simp: fill_palette_def Let_def fail_sub_None sbind_eq_Inr_iff split: if_splits)
    from heap_copy_data [OF c P(1)] ne P(2) Some that [OF sub] show thesis by simp
  qed
qed

lemma fill_rect_data:
  assumes inv: "pool_inv st" and f: "fill_rect av bm start endt idx self arr rect st = Inr (Some sub, st')"
    and px: "nat (bm_w bm) * nat (bm_h bm) mod (SIZE_MAX + 1) = n"
  obtains a0 a1 where
    "sub = (rect_sub self arr rect ((new_rect bm)\<lparr>r_data0 := Some a0, r_linesize0 := bm_w bm,
       r_data1 := Some a1, r_linesize1 := int (palette_size (clamp_colors (bm_nb_colors bm)))\<rparr>))
       \<lparr>s_end_display_time := clamp_duration start endt\<rparr>"
    and "pool_data st' a0 = Some (take n idx)"
    and "pool_data st' a1 = Some (case bm_palette bm of
        None \<Rightarrow> replicate (palette_size (clamp_colors (bm_nb_colors bm))) 0
      | Some pal \<Rightarrow> take (palette_size (clamp_colors (bm_nb_colors bm))) pal)"
proof -
  from f obtain d0 st1 where a0: "pool_alloc av n st = Inr (d0, st1)"
    unfolding fill_rect_def Let_def px
    by (auto simp: fail_sub_None sbind_eq_Inr_iff split: if_splits)
  with f obtain a where d0: "d0 = Some a"
    unfolding fill_rect_def Let_def px by (cases d0) (auto simp: fail_sub_None split: if_splits)
  note P = pool_alloc_data [OF a0 [unfolded d0]] and I = pool.alloc_inv [OF inv a0]
    and u = pool.alloc_Some [OF inv a0 [unfolded d0]]
  let ?r1 = "(new_rect bm)\<lparr>r_data0 := Some a, r_linesize0 := bm_w bm\<rparr>"
  from f a0 d0 obtain st2 where c: "heap_copy a idx n st1 = Inr st2"
    and f2: "fill_palette av bm start endt self arr rect ?r1 st2 = Inr (Some sub, st')"
    unfolding fill_rect_def Let_def px
    by (auto simp: fail_sub_None sbind_eq_Inr_iff split: if_splits)
  note C = heap_copy_inv [OF I c] and D = heap_copy_data [OF c P(1) length_replicate]
  have "pool_used st2 a \<noteq> None" using u C by simp
  then obtain a1 where
    s: "sub = (rect_sub self arr rect (?r1\<lparr>r_data1 := Some a1,
      r_linesize1 := int (palette_size (r_nb_colors ?r1))\<rparr>))\<lparr>s_end_display_time := clamp_duration start endt\<rparr>"
    and d: "pool_data st' a = pool_data st2 a"
      "pool_data st' a1 = Some (case bm_palette bm of
        None \<Rightarrow> replicate (palette_size (r_nb_colors ?r1)) 0
      | Some pal \<Rightarrow> take (palette_size (r_nb_colors ?r1)) pal)"
    by (rule fill_palette_data [OF C(1) _ f2])
  have nb: "r_nb_colors ?r1 = clamp_colors (bm_nb_colors bm)" by (simp add: new_rect_def)
  show thesis by (rule that [OF s [unfolded nb] d(1) [unfolded D(1)] d(2) [unfolded nb]])
qed

subsection \<open>What \<^verbatim>\<open>make_subtitle\<close> delivers\<close>

lemma building_free_any:
  assumes "building U st sub"
  shows "\<exists>st'. free_sub_and_rects av sub st = Inr st' \<and> pool_used st' = U"
proof (cases "s_rects sub")
  case None
  with assms have "pool_inv st" "pool_used st (s_self sub) \<noteq> None" "pool_used st |` (- {s_self sub}) = U"
    by (auto simp: building_def owns_def rect_blocks_def)
  with free_struct [of st "s_self sub"] None show ?thesis
    by (auto simp: free_sub_and_rects_def)
next
  case (Some x)
  from building_free [OF assms Some] show ?thesis by blast
qed

text \<open>C12. \<^verbatim>\<open>make_subtitle\<close> never leaks and never faults on a bitmap whose planes can hold a link:
  where it returns NULL, at whatever step it failed, the blocks in use are those from before; where
  it returns a subtitle, \<^verbatim>\<open>free_sub_and_rects\<close> brings that state back.\<close>

theorem make_subtitle_no_leak:
  assumes "pool_inv st" and "bitmap_ok bm"
  shows "case make_subtitle av sz bm start endt st of
      Inl _ \<Rightarrow> False
    | Inr (None, st') \<Rightarrow> pool_used st' = pool_used st
    | Inr (Some sub, st') \<Rightarrow>
        (\<exists>st''. free_sub_and_rects av sub st' = Inr st'' \<and> pool_used st'' = pool_used st)"
  using make_subtitle_result [OF assms, of av sz start endt] building_free_any
  by (auto simp: sub_result_def split: sum.splits option.splits)

definition sample_bitmap :: Bitmap where
  "sample_bitmap =
     \<lparr>bm_idxbuf = Some (replicate 8 3), bm_palette = None, bm_w = 4, bm_h = 2, bm_x = 10, bm_y = 20,
      bm_nb_colors = 4, bm_idxbuf_len = 8, bm_palette_bytes = 0\<rparr>"

lemma sample_bitmap_ok: "bitmap_ok sample_bitmap"
  by (simp add: bitmap_ok_def sample_bitmap_def)

theorem make_subtitle_no_leak_witness:
  "case make_subtitle sample_mem \<lparr>sz_sub = 32, sz_rect = 64\<rparr> sample_bitmap 0 1000
       \<lparr>p_heap = Map.empty, p_buckets = []\<rparr> of
      Inl _ \<Rightarrow> False
    | Inr (None, st') \<Rightarrow> pool_used st' = pool_used \<lparr>p_heap = Map.empty, p_buckets = []\<rparr>
    | Inr (Some sub, st') \<Rightarrow> (\<exists>st''. free_sub_and_rects sample_mem sub st' = Inr st'' \<and>
        pool_used st'' = pool_used \<lparr>p_heap = Map.empty, p_buckets = []\<rparr>)"
  by (rule make_subtitle_no_leak [OF pool_inv_empty sample_bitmap_ok])

lemma make_subtitle_rect:
  assumes mk: "make_subtitle av sz bm start endt st = Inr (Some sub, st')"
    and bm: "0 < bm_w bm" "0 < bm_h bm" "bm_idxbuf bm = Some idx" and inv: "pool_inv st"
  obtains self arr rect st3 where "pool_inv st3"
    and "fill_rect av bm start endt idx self arr rect st3 = Inr (Some sub, st')"
proof -
  obtain p st1 where m1: "av_mallocz av (sz_sub sz) st = (p, st1)" by fastforce
  obtain q st2 where m2: "av_mallocz av 8 st1 = (q, st2)" by fastforce
  obtain v st3 where m3: "av_mallocz av (sz_rect sz) st2 = (v, st3)" by fastforce
  have i1: "pool_inv st1" by (rule raw.alloc_inv [OF inv, of av]) (rule arg_cong [OF m1])
  have i2: "pool_inv st2" by (rule raw.alloc_inv [OF i1, of av]) (rule arg_cong [OF m2])
  have i3: "pool_inv st3" by (rule raw.alloc_inv [OF i2, of av]) (rule arg_cong [OF m3])
  have m2': "safe_av_mallocz_array av 1 8 st1 = (q, st2)"
    using m2 by (simp add: safe_av_mallocz_array_def SIZE_MAX_def)
  have none: "sbind m (\<lambda>st'. Inr (None, st')) \<noteq> Inr (Some x, y)" for m :: "pool cres" and x :: subtitle and y
    by (auto simp: sbind_eq_Inr_iff)
  have none2: "sbind m (\<lambda>st4. sbind (av_free z st4) (\<lambda>st'. Inr (None, st'))) \<noteq> Inr (Some x, y)"
    for m :: "pool cres" and x :: subtitle and y z
    by (auto simp: sbind_eq_Inr_iff)
  obtain self where p: "p = Some self"
    using mk m1 by (cases p) (simp_all add: make_subtitle_def)
  obtain arr where q: "q = Some arr"
    using mk m1 p m2' bm none by (cases q) (simp_all add: make_subtitle_def)
  obtain rect where v: "v = Some rect"
    using mk m1 p m2' q m3 bm none2 by (cases v) (simp_all add: make_subtitle_def)
  show thesis
    by (rule that [OF i3, of self arr rect]) (use mk m1 p m2' q m3 v bm in \<open>simp add: make_subtitle_def\<close>)
qed



text \<open>On a bitmap of fewer than eight pixels the cleanup of \<^verbatim>\<open>make_subtitle\<close> writes past the
  index plane: it puts a plane smaller than a pointer into the pool.\<close>

lemma make_subtitle_tiny_bitmap_overflows:
  assumes "pool_inv st" and "p_buckets st = []" and "av_ok av = (\<lambda>_. True)"
    and "0 < bm_w bm" and "0 < bm_h bm" and "bm_w bm * bm_h bm < 8"
    and "bm_idxbuf bm = Some idx" and "bm_idxbuf_len bm = 0"
  shows "make_subtitle av sz bm start endt st = Inl Out_of_bounds"
proof -
  let ?n = "nat (bm_w bm) * nat (bm_h bm)"
  have n: "0 < ?n" "?n < SIZEOF_PTR"
    using assms(4-6) by (simp_all add: SIZEOF_PTR_def flip: nat_mult_distrib)
  then have px: "?n mod (SIZE_MAX + 1) = ?n" by (simp add: SIZE_MAX_def SIZEOF_PTR_def)
  obtain self st1 arr st2 rect st3 a st4 where
    m: "av_mallocz av (sz_sub sz) st = (Some self, st1)" "av_mallocz av 8 st1 = (Some arr, st2)"
      "av_mallocz av (sz_rect sz) st2 = (Some rect, st3)" "av_mallocz av ?n st3 = (Some a, st4)"
    by (simp add: av_mallocz_def assms(3) Let_def)
  then have b: "p_buckets st3 = []" "p_buckets st4 = []"
    using assms(2) by (auto simp: av_mallocz_def assms(3) Let_def)
  have i1: "pool_inv st1" by (rule raw.alloc_inv [OF assms(1), of av]) (rule arg_cong [OF m(1)])
  have i2: "pool_inv st2" by (rule raw.alloc_inv [OF i1, of av]) (rule arg_cong [OF m(2)])
  have i3: "pool_inv st3" by (rule raw.alloc_inv [OF i2, of av]) (rule arg_cong [OF m(3)])
  have "pool_used st4 a = Some ?n" using raw.alloc_Some [OF i3, of av ?n a st4] m by simp
  from pool_free_small [OF this n] b(2) assms(3) have
    f: "pool_free av (Some a) ?n st4 = Inl Out_of_bounds" by simp
  have "fill_rect av bm start endt idx self arr rect st3 = Inl Out_of_bounds"
    unfolding fill_rect_def Let_def px
    using f b(1) m(4) n assms(4,5,8)
    by (simp add: pool_alloc_def fail_sub_def free_sub_and_rects_def new_rect_def)
  with m assms(4,5,7) show ?thesis
    by (simp add: make_subtitle_def safe_av_mallocz_array_def SIZE_MAX_def)
qed

lemma make_subtitle_tiny_bitmap_overflows_example:
  "make_subtitle sample_mem \<lparr>sz_sub = 32, sz_rect = 64\<rparr>
     (sample_bitmap\<lparr>bm_h := 1, bm_idxbuf := Some [], bm_idxbuf_len := 0\<rparr>) 0 1000
     \<lparr>p_heap = Map.empty, p_buckets = []\<rparr> = Inl Out_of_bounds"
  by (rule make_subtitle_tiny_bitmap_overflows [OF pool_inv_empty])
    (simp_all add: sample_mem_def sample_bitmap_def)

end
