(* ===== verification/Batch.thy ===== *)
theory Batch
  imports Clib Dvb_sub "HOL-Library.List_Lexorder" "HOL-Library.Char_ord"
begin

text \<open>
  \<^verbatim>\<open>batch_encode.c\<close>: for every transport stream under a directory the subtitle files that belong to it
  are found by templates, and the encoder is run with a command line made of them. Vectors of strings
  have their capacity, so that each failing allocation is part of the model; an element is \<open>None\<close> when
  the string it points to has been freed. The file system, the encoder and the request to stop are
  parameters, and so is the list of files that the directory walk finds.
\<close>

subsection \<open>Vectors of strings\<close>

record StrVec =
  sv_data :: "cstr option list"
  sv_cap :: nat

definition strvec_init :: StrVec where "strvec_init = \<lparr>sv_data = [], sv_cap = 0\<rparr>"

definition strvec_free :: "StrVec \<Rightarrow> StrVec cres" where
  "strvec_free sv = (if None \<in> set (sv_data sv) then Inl Invalid_free else Inr strvec_init)"

function double_until :: "nat \<Rightarrow> nat \<Rightarrow> nat" where
  "double_until need new_cap = (if 0 < new_cap \<and> new_cap < need then double_until need (new_cap * 2) else new_cap)"
  by pat_completeness auto
termination
  by (relation "measure (\<lambda>(need, c). need - c)") auto

declare double_until.simps [simp del]

definition strvec_reserve :: "(nat \<Rightarrow> bool) \<Rightarrow> nat \<Rightarrow> StrVec \<Rightarrow> StrVec option" where
  "strvec_reserve alloc need sv =
     (if need \<le> sv_cap sv then Some sv
      else
        let new_cap = double_until need (if sv_cap sv \<noteq> 0 then sv_cap sv * 2 else 8)
        in if alloc (new_cap * 8) then Some (sv\<lparr>sv_cap := new_cap\<rparr>) else None)"

definition strvec_push :: "(nat \<Rightarrow> bool) \<Rightarrow> cstr \<Rightarrow> StrVec \<Rightarrow> StrVec option" where
  "strvec_push alloc v sv =
     (case strvec_reserve alloc (length (sv_data sv) + 1) sv of
        None \<Rightarrow> None
      | Some sv1 \<Rightarrow> Some (sv1\<lparr>sv_data := sv_data sv1 @ [Some v]\<rparr>))"

definition strvec_push_dup :: "(nat \<Rightarrow> bool) \<Rightarrow> cstr \<Rightarrow> StrVec \<Rightarrow> StrVec option" where
  "strvec_push_dup alloc v sv = (if alloc (length v + 1) then strvec_push alloc v sv else None)"

text \<open>The NULL at the end is not counted, so only the capacity changes.\<close>

definition strvec_push_null :: "(nat \<Rightarrow> bool) \<Rightarrow> StrVec \<Rightarrow> StrVec option" where
  "strvec_push_null alloc sv = strvec_reserve alloc (length (sv_data sv) + 1) sv"

definition sv_strings :: "StrVec \<Rightarrow> cstr list" where
  "sv_strings sv = map (case_option [] id) (sv_data sv)"

definition strvec_join :: "(nat \<Rightarrow> bool) \<Rightarrow> char option \<Rightarrow> StrVec \<Rightarrow> cstr option" where
  "strvec_join alloc delim sv =
     (let parts = sv_strings sv;
          joined = (case delim of None \<Rightarrow> concat parts | Some d \<Rightarrow> join d parts)
      in if alloc (length joined + 1) then Some joined else None)"

subsection \<open>Paths\<close>

definition SLASH :: char where "SLASH = CHR ''/''"

definition path_has_ext :: "cstr \<Rightarrow> cstr \<Rightarrow> bool" where
  "path_has_ext path ext \<longleftrightarrow>
     length path \<ge> length ext \<and> strcasecmp_eq (drop (length path - length ext) path) ext"

definition path_join3 :: "(nat \<Rightarrow> bool) \<Rightarrow> cstr \<Rightarrow> cstr option \<Rightarrow> cstr option \<Rightarrow> cstr option" where
  "path_join3 alloc a b c =
     (let seg_b = (case b of None \<Rightarrow> [] | Some s \<Rightarrow> s);
          seg_c = (case c of None \<Rightarrow> [] | Some s \<Rightarrow> s);
          la = length a; lb = length seg_b; lc = length seg_c
      in if int la > (int SIZE_MAX - int lb - int lc - 3) mod (int SIZE_MAX + 1) then None
         else if \<not> alloc (la + lb + lc + 3) then None
         else
           let out1 =
                 (if seg_b \<noteq> [] then
                    let o1 = a @ (if a \<noteq> [] \<and> last a \<noteq> SLASH then [SLASH] else []) @ seg_b
                    in o1 @ (if last o1 \<noteq> SLASH \<and> lc > 0 \<and> hd seg_c \<noteq> SLASH then [SLASH] else [])
                  else
                    a @ (if lc > 0 \<and> a \<noteq> [] \<and> last a \<noteq> SLASH \<and> hd seg_c \<noteq> SLASH then [SLASH] else []))
           in Some (out1 @ (if lc > 0 \<and> hd seg_c = SLASH then tl seg_c else seg_c)))"

text \<open>\<^verbatim>\<open>dirname\<close> and \<^verbatim>\<open>basename\<close> of POSIX.\<close>

definition strip_slashes :: "cstr \<Rightarrow> cstr" where
  "strip_slashes s = rstrip_by (\<lambda>c. c = SLASH) s"

definition dirname :: "cstr \<Rightarrow> cstr" where
  "dirname p =
     (if p = [] then ''.''
      else
        let q = strip_slashes p
        in if q = [] then ''/''
           else if SLASH \<notin> set q then ''.''
           else
             let r = strip_slashes (rev (dropWhile (\<lambda>c. c \<noteq> SLASH) (rev q)))
             in if r = [] then ''/'' else r)"

definition basename :: "cstr \<Rightarrow> cstr" where
  "basename p =
     (if p = [] then ''.''
      else
        let q = strip_slashes p
        in if q = [] then ''/'' else rev (takeWhile (\<lambda>c. c \<noteq> SLASH) (rev q)))"

definition trim_trailing_delims :: "cstr \<Rightarrow> cstr" where
  "trim_trailing_delims s =
     rstrip_by (\<lambda>c. c = CHR ''.'' \<or> c = CHR ''_'' \<or> c = CHR ''-'' \<or> isspace c) s"

function safe_loop :: "cstr \<Rightarrow> bool" where
  "safe_loop p =
     (if p = [] then True
      else
        let seg_start = dropWhile (\<lambda>c. c = SLASH) p;
            seg = takeWhile (\<lambda>c. c \<noteq> SLASH) seg_start;
            p1 = dropWhile (\<lambda>c. c \<noteq> SLASH) seg_start
        in if seg = [] then safe_loop p1
           else if seg = ''..'' then False
           else if seg = ''.'' then False
           else safe_loop p1)"
  by pat_completeness auto
termination
proof (relation "measure length", simp, goal_cases)
  case (1 p ss seg p1)
  have "ss = []"
  proof (rule ccontr)
    assume n: "ss \<noteq> []"
    with 1 have "hd ss \<noteq> SLASH" using hd_dropWhile [of "\<lambda>c. c = SLASH" p] by simp
    with n have "takeWhile (\<lambda>c. c \<noteq> SLASH) ss \<noteq> []" by (cases ss) auto
    with 1 show False by simp
  qed
  with 1 show ?case by simp
next
  case (2 p ss seg p1)
  then have "takeWhile (\<lambda>c. c \<noteq> SLASH) ss \<noteq> []" by simp
  then obtain c r where s: "ss = c # r" "c \<noteq> SLASH" by (cases ss) (simp_all split: if_splits)
  have "length (dropWhile (\<lambda>c. c \<noteq> SLASH) ss) < length ss"
    using s length_dropWhile_le [of "\<lambda>c. c \<noteq> SLASH" r] by simp
  moreover have "length ss \<le> length p" using 2 by (simp add: length_dropWhile_le)
  ultimately show ?case using 2 by simp
qed

declare safe_loop.simps [simp del]

definition path_is_safe_relative :: "cstr \<Rightarrow> bool" where
  "path_is_safe_relative path =
     (if path = [] then False else if hd path = SLASH then False else safe_loop path)"

definition relative_dir :: "(nat \<Rightarrow> bool) \<Rightarrow> cstr \<Rightarrow> cstr \<Rightarrow> cstr option" where
  "relative_dir alloc root path =
     (if \<not> starts root path then None
      else
        let rest = drop (length root) path;
            root_has_trailing_slash = (root \<noteq> [] \<and> last root = SLASH)
        in if \<not> root_has_trailing_slash \<and> rest \<noteq> [] \<and> hd rest \<noteq> SLASH then None
           else
             let rel = (if rest \<noteq> [] \<and> hd rest = SLASH then tl rest else rest)
             in if \<not> alloc (length rel + 1) then None
                else
                  let out = dirname rel
                  in if \<not> alloc (length out + 1) then None
                     else if out = ''.'' then Some [] else Some out)"

definition basename_no_ext :: "(nat \<Rightarrow> bool) \<Rightarrow> cstr \<Rightarrow> cstr option" where
  "basename_no_ext alloc path =
     (if \<not> alloc (length path + 1) then None
      else
        let base = basename path;
            base1 = (if CHR ''.'' \<in> set base then rev (tl (dropWhile (\<lambda>c. c \<noteq> CHR ''.'') (rev base))) else base)
        in if alloc (length base1 + 1) then Some base1 else None)"

subsection \<open>Episode names\<close>

record EpisodeMeta =
  em_show :: "cstr option"
  em_season :: cstr
  em_episode :: cstr

definition fill_two_digit :: "int \<Rightarrow> cstr" where
  "fill_two_digit val =
     (let v = (if val < 0 then 0 else val); w = (if v > 99 then 99 else v) in dec_pad 2 (nat w))"

text \<open>
  The regular expressions all have the shape \<^verbatim>\<open>^(.*)A([0-9]+)B([0-9]+)$\<close>, or end in \<^verbatim>\<open>.*$\<close>, with
  sequences \<open>A\<close> and \<open>B\<close> of character classes, in both cases of the letters. \<^verbatim>\<open>regexec\<close> makes the first
  group as long as it can, and then the groups of digits, which no character of \<open>B\<close> can continue.
\<close>

record pattern =
  pt_open :: "cstr list"
  pt_mid :: "cstr list"
  pt_exact :: bool

fun match_classes :: "cstr list \<Rightarrow> cstr \<Rightarrow> cstr option" where
  "match_classes [] s = Some s"
| "match_classes (k # ks) [] = None"
| "match_classes (k # ks) (c # s) = (if c \<in> set k then match_classes ks s else None)"

text \<open>The strings from the first digit of the season and of the episode.\<close>

definition match_rest :: "pattern \<Rightarrow> cstr \<Rightarrow> (cstr \<times> cstr) option" where
  "match_rest pt s =
     (case match_classes (pt_open pt) s of
        None \<Rightarrow> None
      | Some season \<Rightarrow>
          if takeWhile isdigit season = [] then None
          else
            (case match_classes (pt_mid pt) (dropWhile isdigit season) of
               None \<Rightarrow> None
             | Some episode \<Rightarrow>
                 if takeWhile isdigit episode = [] then None
                 else if pt_exact pt \<and> dropWhile isdigit episode \<noteq> [] then None
                 else Some (season, episode)))"

fun match_at :: "pattern \<Rightarrow> cstr \<Rightarrow> nat \<Rightarrow> (nat \<times> cstr \<times> cstr) option" where
  "match_at pt s i =
     (case match_rest pt (drop i s) of
        Some (a, b) \<Rightarrow> Some (i, a, b)
      | None \<Rightarrow> (case i of 0 \<Rightarrow> None | Suc k \<Rightarrow> match_at pt s k))"

declare match_at.simps [simp del]

definition episode_patterns :: "pattern list" where
  "episode_patterns =
     concat (map (\<lambda>(a, b). [\<lparr>pt_open = a, pt_mid = b, pt_exact = True\<rparr>, \<lparr>pt_open = a, pt_mid = b, pt_exact = False\<rparr>])
       [([''_'', ''Ss''], [''_'', ''Ee'']),
        ([''.'', ''Ss''], [''.'', ''Ee'']),
        ([''.'', ''Ss''], [''Ee'']),
        ([''.''], [''Xx'']),
        ([''_-''], [''Xx'']),
        ([''._-'', ''Ss''], [''._-'', ''Ee'']),
        ([[SP], ''Ss''], [''Ee'']),
        ([[SP], ''Ss''], [[SP], ''Ee'']),
        ([[SP]], [''Xx''])])"

fun meta_loop :: "(nat \<Rightarrow> bool) \<Rightarrow> cstr \<Rightarrow> pattern list \<Rightarrow> EpisodeMeta" where
  "meta_loop alloc base [] = \<lparr>em_show = None, em_season = [], em_episode = []\<rparr>"
| "meta_loop alloc base (pt # pts) =
     (case match_at pt base (length base) of
        None \<Rightarrow> meta_loop alloc base pts
      | Some (n, season, episode) \<Rightarrow>
          \<lparr>em_show = (if n > 0 \<and> alloc (n + 1) then Some (trim_trailing_delims (take n base)) else None),
           em_season = fill_two_digit (atoi season), em_episode = fill_two_digit (atoi episode)\<rparr>)"

definition parse_episode_meta :: "(nat \<Rightarrow> bool) \<Rightarrow> cstr \<Rightarrow> EpisodeMeta" where
  "parse_episode_meta alloc base = meta_loop alloc base episode_patterns"

subsection \<open>Templates\<close>

text \<open>The results of the pushes are not looked at.\<close>

definition push_chunk :: "(nat \<Rightarrow> bool) \<Rightarrow> cstr \<Rightarrow> StrVec \<Rightarrow> StrVec" where
  "push_chunk alloc v sv = (case strvec_push_dup alloc v sv of None \<Rightarrow> sv | Some sv1 \<Rightarrow> sv1)"

function template_loop :: "(nat \<Rightarrow> bool) \<Rightarrow> EpisodeMeta \<Rightarrow> cstr \<Rightarrow> cstr \<Rightarrow> StrVec \<Rightarrow> StrVec" where
  "template_loop alloc meta base p chunks =
     (if p = [] then chunks
      else if starts ''${BASENAME}'' p then
        template_loop alloc meta base (drop 11 p) (push_chunk alloc base chunks)
      else if starts ''${SHOW}'' p then
        template_loop alloc meta base (drop 7 p) (push_chunk alloc (case_option [] id (em_show meta)) chunks)
      else if starts ''${SEASON}'' p then
        template_loop alloc meta base (drop 9 p) (push_chunk alloc (em_season meta) chunks)
      else if starts ''${EPISODE}'' p then
        template_loop alloc meta base (drop 10 p) (push_chunk alloc (em_episode meta) chunks)
      else template_loop alloc meta base (tl p) (push_chunk alloc [hd p] chunks))"
  by pat_completeness auto
termination
  by (relation "measure (\<lambda>(_, _, _, p, _). length p)") auto

declare template_loop.simps [simp del]

definition substitute_template :: "(nat \<Rightarrow> bool) \<Rightarrow> cstr \<Rightarrow> EpisodeMeta \<Rightarrow> cstr \<Rightarrow> cstr option" where
  "substitute_template alloc pat meta base =
     strvec_join alloc None (template_loop alloc meta base pat strvec_init)"

record BatchEncodeTemplate =
  bt_pattern :: cstr
  bt_lang :: cstr

record BatchEncodeConfig =
  bc_input_dir :: "cstr option"
  bc_output_dir :: "cstr option"
  bc_srt_dir :: "cstr option"
  bc_templates :: "BatchEncodeTemplate list"
  bc_forward_args :: "cstr list"
  bc_dry_run :: bool

definition add_template_internal :: "(nat \<Rightarrow> bool) \<Rightarrow> cstr option \<Rightarrow> cstr \<Rightarrow> BatchEncodeConfig \<Rightarrow>
    BatchEncodeConfig option" where
  "add_template_internal alloc pat lang cfg =
     (case pat of
        None \<Rightarrow> None
      | Some p \<Rightarrow>
          if length lang \<noteq> 3 then None
          else if \<not> alloc ((length (bc_templates cfg) + 1) * 16) then None
          else if \<not> alloc (length p + 1) then None
          else Some (cfg\<lparr>bc_templates := bc_templates cfg @ [\<lparr>bt_pattern = p, bt_lang = lang\<rparr>]\<rparr>))"

definition batch_encode_add_template :: "(nat \<Rightarrow> bool) \<Rightarrow> cstr \<Rightarrow> BatchEncodeConfig \<Rightarrow> BatchEncodeConfig option" where
  "batch_encode_add_template alloc entry cfg =
     (case strchr (CHR ''|'') entry of
        None \<Rightarrow> None
      | Some sep \<Rightarrow>
          let pat = take (length entry - length sep) entry
          in add_template_internal alloc (if alloc (length pat + 1) then Some pat else None) (tl sep) cfg)"

definition batch_encode_init_defaults :: "(nat \<Rightarrow> bool) \<Rightarrow> BatchEncodeConfig option" where
  "batch_encode_init_defaults alloc =
     (let cfg = \<lparr>bc_input_dir = None, bc_output_dir = None, bc_srt_dir = None, bc_templates = [],
                 bc_forward_args = [], bc_dry_run = False\<rparr>
      in (case batch_encode_add_template alloc ''${BASENAME}.en.subtitles.srt|eng'' cfg of
            None \<Rightarrow> None
          | Some cfg1 \<Rightarrow> batch_encode_add_template alloc ''${BASENAME}.en.srt|eng'' cfg1))"

subsection \<open>The command line\<close>

definition batch_encode_requested :: "cstr list \<Rightarrow> bool" where
  "batch_encode_requested argv = list_ex (\<lambda>a. a = ''--batch-encode'') (tl argv)"

definition match_eq_prefix :: "cstr \<Rightarrow> cstr \<Rightarrow> cstr option" where
  "match_eq_prefix arg key =
     (if \<not> starts key arg then None
      else
        (case drop (length key) arg of
           [] \<Rightarrow> None
         | c # v \<Rightarrow> if c = CHR ''='' then Some v else None))"

text \<open>An option with a value: not this one, without its value, or the value and the arguments after it.\<close>

datatype optval = Not_this | Missing | Val cstr "cstr list"

definition opt_value :: "cstr \<Rightarrow> cstr \<Rightarrow> cstr list \<Rightarrow> optval" where
  "opt_value key arg args =
     (case match_eq_prefix arg key of
        Some v \<Rightarrow> Val v args
      | None \<Rightarrow>
          if arg = key then (case args of [] \<Rightarrow> Missing | v # args' \<Rightarrow> Val v args') else Not_this)"

lemma opt_value_shorter: "opt_value key arg args = Val v args' \<Longrightarrow> length args' \<le> length args"
  by (auto simp: opt_value_def split: option.splits if_splits list.splits)

definition dup_string :: "(nat \<Rightarrow> bool) \<Rightarrow> cstr \<Rightarrow> cstr option" where
  "dup_string alloc v = (if alloc (length v + 1) then Some v else None)"

record cli_state =
  cs_saw_batch :: bool
  cs_forward :: StrVec
  cs_cfg :: BatchEncodeConfig

text \<open>\<open>None\<close> is the early \<^verbatim>\<open>return 1\<close>.\<close>

function cli_loop :: "(nat \<Rightarrow> bool) \<Rightarrow> cstr list \<Rightarrow> cli_state \<Rightarrow> cli_state option" where
  "cli_loop alloc [] st = Some st"
| "cli_loop alloc (arg # args) st =
     (if arg = ''--batch-encode'' then cli_loop alloc args (st\<lparr>cs_saw_batch := True\<rparr>)
      else (case opt_value ''--batch-input'' arg args of
        Missing \<Rightarrow> None
      | Val v args' \<Rightarrow> cli_loop alloc args' (st\<lparr>cs_cfg := (cs_cfg st)\<lparr>bc_input_dir := dup_string alloc v\<rparr>\<rparr>)
      | Not_this \<Rightarrow> (case opt_value ''--batch-output'' arg args of
        Missing \<Rightarrow> None
      | Val v args' \<Rightarrow> cli_loop alloc args' (st\<lparr>cs_cfg := (cs_cfg st)\<lparr>bc_output_dir := dup_string alloc v\<rparr>\<rparr>)
      | Not_this \<Rightarrow> (case opt_value ''--batch-srt'' arg args of
        Missing \<Rightarrow> None
      | Val v args' \<Rightarrow> cli_loop alloc args' (st\<lparr>cs_cfg := (cs_cfg st)\<lparr>bc_srt_dir := dup_string alloc v\<rparr>\<rparr>)
      | Not_this \<Rightarrow> (case opt_value ''--batch-template'' arg args of
        Missing \<Rightarrow> None
      | Val v args' \<Rightarrow>
          (case batch_encode_add_template alloc v (cs_cfg st) of
             None \<Rightarrow> None
           | Some cfg \<Rightarrow> cli_loop alloc args' (st\<lparr>cs_cfg := cfg\<rparr>))
      | Not_this \<Rightarrow>
          if arg = ''--batch-clear-templates'' then
            cli_loop alloc args (st\<lparr>cs_cfg := (cs_cfg st)\<lparr>bc_templates := []\<rparr>\<rparr>)
          else if arg = ''--batch-dry-run'' then
            cli_loop alloc args (st\<lparr>cs_cfg := (cs_cfg st)\<lparr>bc_dry_run := True\<rparr>\<rparr>)
          else if arg = ''--batch-sequential'' then cli_loop alloc args st
          else
            (case strvec_push_dup alloc arg (cs_forward st) of
               None \<Rightarrow> None
             | Some fwd \<Rightarrow> cli_loop alloc args (st\<lparr>cs_forward := fwd\<rparr>)))))))"
  by pat_completeness auto
termination
  by (relation "measure (\<lambda>(_, args, _). length args)") (auto dest: opt_value_shorter)

text \<open>The return value and, on success, the configuration.\<close>

definition batch_encode_parse_cli :: "(nat \<Rightarrow> bool) \<Rightarrow> cstr list \<Rightarrow> BatchEncodeConfig \<Rightarrow>
    int \<times> BatchEncodeConfig option" where
  "batch_encode_parse_cli alloc argv cfg =
     (case cli_loop alloc (tl argv) \<lparr>cs_saw_batch = False, cs_forward = strvec_init, cs_cfg = cfg\<rparr> of
        None \<Rightarrow> (1, None)
      | Some st \<Rightarrow>
          if \<not> cs_saw_batch st then (-1, None)
          else if bc_input_dir (cs_cfg st) = None \<or> bc_output_dir (cs_cfg st) = None \<or>
              bc_srt_dir (cs_cfg st) = None then (1, None)
          else (-1, Some ((cs_cfg st)\<lparr>bc_forward_args := sv_strings (cs_forward st)\<rparr>)))"

subsection \<open>Finding the subtitles\<close>

record batch_env =
  be_alloc :: "nat \<Rightarrow> bool"
  be_file_exists :: "cstr \<Rightarrow> bool"
  be_dir_exists :: "cstr \<Rightarrow> bool"
  be_mkdir_p :: "cstr \<Rightarrow> bool"
  be_run_cli :: "cstr list \<Rightarrow> int"
  be_stop :: "nat \<Rightarrow> bool"

definition find_srt :: "batch_env \<Rightarrow> cstr \<Rightarrow> cstr \<Rightarrow> cstr \<Rightarrow> cstr \<Rightarrow> cstr option" where
  "find_srt env srt_dir rel_dir ts_dir resolved =
     (case path_join3 (be_alloc env) srt_dir (Some rel_dir) (Some resolved) of
        Some p \<Rightarrow>
          if be_file_exists env p then Some p
          else
            (case path_join3 (be_alloc env) ts_dir (Some []) (Some resolved) of
               Some p' \<Rightarrow> if be_file_exists env p' then Some p' else None
             | None \<Rightarrow> None)
      | None \<Rightarrow>
          (case path_join3 (be_alloc env) ts_dir (Some []) (Some resolved) of
             Some p' \<Rightarrow> if be_file_exists env p' then Some p' else None
           | None \<Rightarrow> None))"

text \<open>A match goes to both vectors. Where the second push fails, the path is freed although the first
  vector holds it by then. \<open>Inl\<close> is the \<^verbatim>\<open>return 1\<close>.\<close>

definition push_match :: "(nat \<Rightarrow> bool) \<Rightarrow> cstr \<Rightarrow> cstr \<Rightarrow> StrVec \<Rightarrow> StrVec \<Rightarrow>
    (StrVec \<times> StrVec) + (StrVec \<times> StrVec)" where
  "push_match alloc path lang srts langs =
     (case strvec_push alloc path srts of
        None \<Rightarrow> Inl (srts, langs)
      | Some srts1 \<Rightarrow>
          (case strvec_push_dup alloc lang langs of
             None \<Rightarrow> Inl (srts1\<lparr>sv_data := butlast (sv_data srts1) @ [None]\<rparr>, langs)
           | Some langs1 \<Rightarrow> Inr (srts1, langs1)))"

fun resolve_loop :: "batch_env \<Rightarrow> cstr \<Rightarrow> cstr \<Rightarrow> cstr \<Rightarrow> cstr \<Rightarrow> EpisodeMeta \<Rightarrow>
    BatchEncodeTemplate list \<Rightarrow> StrVec \<Rightarrow> StrVec \<Rightarrow> (StrVec \<times> StrVec) + (StrVec \<times> StrVec)" where
  "resolve_loop env srt_dir rel_dir ts_dir base meta [] srts langs = Inr (srts, langs)"
| "resolve_loop env srt_dir rel_dir ts_dir base meta (tpl # tpls) srts langs =
     (case substitute_template (be_alloc env) (bt_pattern tpl) meta base of
        None \<Rightarrow> resolve_loop env srt_dir rel_dir ts_dir base meta tpls srts langs
      | Some resolved \<Rightarrow>
          if \<not> path_is_safe_relative resolved then
            resolve_loop env srt_dir rel_dir ts_dir base meta tpls srts langs
          else
            (case find_srt env srt_dir rel_dir ts_dir resolved of
               None \<Rightarrow> resolve_loop env srt_dir rel_dir ts_dir base meta tpls srts langs
             | Some path \<Rightarrow>
                 (case push_match (be_alloc env) path (bt_lang tpl) srts langs of
                    Inl r \<Rightarrow> Inl r
                  | Inr (srts1, langs1) \<Rightarrow>
                      resolve_loop env srt_dir rel_dir ts_dir base meta tpls srts1 langs1)))"

definition resolve_subtitles_for_ts :: "batch_env \<Rightarrow> cstr \<Rightarrow> BatchEncodeTemplate list \<Rightarrow> cstr \<Rightarrow> cstr \<Rightarrow>
    cstr \<Rightarrow> int \<times> StrVec \<times> StrVec" where
  "resolve_subtitles_for_ts env srt_dir tpls rel_dir ts_dir base =
     (case resolve_loop env srt_dir rel_dir ts_dir base (parse_episode_meta (be_alloc env) base) tpls
         strvec_init strvec_init of
        Inl (srts, langs) \<Rightarrow> (1, srts, langs)
      | Inr (srts, langs) \<Rightarrow> (if sv_data srts \<noteq> [] then 0 else 1, srts, langs))"

subsection \<open>The batch\<close>

fun push_all :: "(nat \<Rightarrow> bool) \<Rightarrow> cstr list \<Rightarrow> StrVec \<Rightarrow> StrVec option" where
  "push_all alloc [] sv = Some sv"
| "push_all alloc (v # vs) sv =
     (case strvec_push_dup alloc v sv of None \<Rightarrow> None | Some sv1 \<Rightarrow> push_all alloc vs sv1)"

definition build_command :: "(nat \<Rightarrow> bool) \<Rightarrow> cstr \<Rightarrow> cstr list \<Rightarrow> cstr \<Rightarrow> cstr \<Rightarrow> StrVec \<Rightarrow> StrVec \<Rightarrow>
    StrVec option" where
  "build_command alloc argv0 forward ts_path output_path srts langs =
     (case push_all alloc (argv0 # forward @ [''--input'', ts_path, ''--output'', output_path]) strvec_init of
        None \<Rightarrow> None
      | Some cmd \<Rightarrow>
          (case (strvec_join alloc (Some (CHR '','')) srts, strvec_join alloc (Some (CHR '','')) langs) of
             (Some srt_list, Some lang_list) \<Rightarrow>
               (case strvec_push_dup alloc ''--srt'' cmd of
                  None \<Rightarrow> None
                | Some c1 \<Rightarrow>
                    (case strvec_push alloc srt_list c1 of
                       None \<Rightarrow> None
                     | Some c2 \<Rightarrow>
                         (case strvec_push_dup alloc ''--languages'' c2 of
                            None \<Rightarrow> None
                          | Some c3 \<Rightarrow>
                              (case strvec_push alloc lang_list c3 of
                                 None \<Rightarrow> None
                               | Some c4 \<Rightarrow> strvec_push_null alloc c4))))
           | _ \<Rightarrow> None))"

datatype outcome = Skipped | Failed | Processed

text \<open>One file: what became of it, whether the encoder was reached, and the command that was run.\<close>

definition process_file :: "batch_env \<Rightarrow> BatchEncodeConfig \<Rightarrow> cstr \<Rightarrow> cstr \<Rightarrow> cstr \<Rightarrow> cstr \<Rightarrow> cstr \<Rightarrow>
    (outcome \<times> bool \<times> cstr list list) cres" where
  "process_file env cfg input_dir output_dir srt_dir argv0 ts_path =
     (if \<not> starts input_dir ts_path then Inr (Failed, False, [])
      else
        let skip = (if last input_dir = SLASH then 0 else 1);
            rel_path = drop (length input_dir + skip) ts_path
        in (case relative_dir (be_alloc env) input_dir ts_path of
              None \<Rightarrow> Inr (Failed, False, [])
            | Some rel_dir \<Rightarrow>
                if \<not> be_alloc env (length ts_path + 1) then Inr (Failed, False, [])
                else
                  let ts_dir = dirname ts_path
                  in (case basename_no_ext (be_alloc env) ts_path of
                        None \<Rightarrow> Inr (Failed, False, [])
                      | Some base \<Rightarrow>
                          (case resolve_subtitles_for_ts env srt_dir (bc_templates cfg) rel_dir ts_dir base of
                             (rc, srts, langs) \<Rightarrow>
                               sbind
                                 (if rc \<noteq> 0 then Inr (Skipped, False, [])
                                  else
                                    (case path_join3 (be_alloc env) output_dir (Some rel_dir) (Some []) of
                                       None \<Rightarrow> Inr (Failed, False, [])
                                     | Some rel_output \<Rightarrow>
                                         if \<not> bc_dry_run cfg \<and> \<not> be_mkdir_p env rel_output then Inr (Failed, False, [])
                                         else
                                           (case path_join3 (be_alloc env) output_dir (Some []) (Some rel_path) of
                                              None \<Rightarrow> Inr (Failed, False, [])
                                            | Some output_path \<Rightarrow>
                                                (case build_command (be_alloc env) argv0 (bc_forward_args cfg)
                                                    ts_path output_path srts langs of
                                                   None \<Rightarrow> Inr (Failed, True, [])
                                                 | Some cmd \<Rightarrow>
                                                     if bc_dry_run cfg then Inr (Processed, True, [])
                                                     else
                                                       let argv = sv_strings cmd
                                                       in Inr (if be_run_cli env argv = 0 then Processed else Failed,
                                                               True, [argv])))))
                                 (\<lambda>res. sbind (strvec_free srts) (\<lambda>_. sbind (strvec_free langs) (\<lambda>_. Inr res)))))))"

text \<open>The files in order, up to an interruption; the numbers of files processed and failed.\<close>

fun run_files :: "batch_env \<Rightarrow> BatchEncodeConfig \<Rightarrow> cstr \<Rightarrow> cstr \<Rightarrow> cstr \<Rightarrow> cstr \<Rightarrow> cstr list \<Rightarrow> nat \<Rightarrow> nat \<Rightarrow>
    (nat \<times> nat \<times> cstr list list) cres" where
  "run_files env cfg input_dir output_dir srt_dir argv0 [] processed failed = Inr (processed, failed, [])"
| "run_files env cfg input_dir output_dir srt_dir argv0 (f # fs) processed failed =
     sbind (process_file env cfg input_dir output_dir srt_dir argv0 f) (\<lambda>(res, reached, cmds).
       let p = (if res = Processed then processed + 1 else processed);
           q = (if res = Failed then failed + 1 else failed)
       in if reached \<and> be_stop env (p + q) then Inr (p, q, cmds)
          else
            sbind (run_files env cfg input_dir output_dir srt_dir argv0 fs p q) (\<lambda>(p', q', cmds').
              Inr (p', q', cmds @ cmds')))"

definition batch_encode_run :: "batch_env \<Rightarrow> BatchEncodeConfig \<Rightarrow> cstr list option \<Rightarrow> cstr \<Rightarrow>
    (int \<times> cstr list list) cres" where
  "batch_encode_run env cfg walk argv0 =
     (case (bc_input_dir cfg, bc_output_dir cfg, bc_srt_dir cfg) of
        (Some input_dir, Some output_dir, Some srt_dir) \<Rightarrow>
          if \<not> be_dir_exists env input_dir then Inr (1, [])
          else if \<not> be_dir_exists env srt_dir then Inr (1, [])
          else if \<not> bc_dry_run cfg \<and> \<not> be_mkdir_p env output_dir then Inr (1, [])
          else
            (case walk of
               None \<Rightarrow> Inr (1, [])
             | Some files \<Rightarrow>
                 if files = [] then Inr (0, [])
                 else
                   sbind (run_files env cfg input_dir output_dir srt_dir argv0 (sort files) 0 0)
                     (\<lambda>(processed, failed, cmds). Inr (if failed = 0 then 0 else 1, cmds)))
      | _ \<Rightarrow> Inr (1, []))"

subsection \<open>Lemmas\<close>

lemma strvec_push_data: "strvec_push alloc v sv = Some sv' \<Longrightarrow> sv_data sv' = sv_data sv @ [Some v]"
  by (auto simp: strvec_push_def strvec_reserve_def Let_def split: option.splits if_splits)

lemma strvec_push_dup_data: "strvec_push_dup alloc v sv = Some sv' \<Longrightarrow> sv_data sv' = sv_data sv @ [Some v]"
  by (auto simp: strvec_push_dup_def strvec_push_data split: if_splits)

lemma strvec_push_null_data: "strvec_push_null alloc sv = Some sv' \<Longrightarrow> sv_data sv' = sv_data sv"
  by (auto simp: strvec_push_null_def strvec_reserve_def Let_def split: if_splits)

lemma push_all_data: "push_all alloc vs sv = Some sv' \<Longrightarrow> sv_data sv' = sv_data sv @ map Some vs"
  by (induction vs arbitrary: sv) (auto split: option.splits dest: strvec_push_dup_data)

lemma strings_some: "sv_data sv = map Some vs \<Longrightarrow> sv_strings sv = vs"
  by (simp add: sv_strings_def map_idI)

lemma tokens_strip: "tokens d (dropWhile (\<lambda>c. c = d) p) = tokens d p"
  by (induction p) auto

text \<open>The check for a safe path looks at every segment.\<close>

definition plain_segments :: "cstr \<Rightarrow> bool" where
  "plain_segments p \<longleftrightarrow> list_all (\<lambda>seg. seg \<noteq> ''..'' \<and> seg \<noteq> ''.'') (tokens SLASH p)"

lemma safe_loop_segments: "safe_loop p = plain_segments p"
proof (induction p rule: safe_loop.induct)
  case (1 p)
  let ?ss = "dropWhile (\<lambda>c. c = SLASH) p"
  let ?p1 = "dropWhile (\<lambda>c. c \<noteq> SLASH) ?ss" and ?seg = "takeWhile (\<lambda>c. c \<noteq> SLASH) ?ss"
  show ?case
  proof (cases "?ss = []")
    case True
    have "tokens SLASH p = []" using tokens_strip [of SLASH p] unfolding True by simp
    moreover have "safe_loop p"
      by (subst safe_loop.simps) (simp add: True safe_loop.simps [of "[]"] del: dropWhile_eq_Nil_conv)
    ultimately show ?thesis by (simp add: plain_segments_def)
  next
    case False
    then have h: "hd ?ss \<noteq> SLASH" using hd_dropWhile [OF False] by simp
    have t: "tokens SLASH p = ?seg # tokens SLASH ?p1"
      using tokens_word [OF False h] by (simp only: tokens_strip)
    have s: "?seg \<noteq> []" using False h by (cases ?ss) auto
    then have p: "p \<noteq> []" by auto
    have "safe_loop p = (if ?seg = ''..'' then False else if ?seg = ''.'' then False else safe_loop ?p1)"
      unfolding safe_loop.simps [of p] Let_def using p s by (simp only: if_False)
    moreover have "safe_loop ?p1 = plain_segments ?p1" if "?seg \<noteq> ''..''" "?seg \<noteq> ''.''"
      by (rule 1(2) [OF p refl refl refl s that])
    ultimately show ?thesis by (auto simp: plain_segments_def t)
  qed
qed

lemma path_join3_below:
  assumes "path_join3 alloc a b (Some c) = Some p" and "c \<noteq> []" and "hd c \<noteq> SLASH"
  shows "\<exists>base. p = base @ c \<and> prefix a base \<and> (base = [] \<or> last base = SLASH)"
  using assms
  by (auto simp: path_join3_def Let_def split: if_splits option.splits)

text \<open>A path below one of two directories, reached by segments that do not lead out again.\<close>

definition path_below :: "cstr \<Rightarrow> cstr \<Rightarrow> cstr \<Rightarrow> bool" where
  "path_below root1 root2 p \<longleftrightarrow>
     (\<exists>base r. p = base @ r \<and> (prefix root1 base \<or> prefix root2 base) \<and>
        (base = [] \<or> last base = SLASH) \<and> r \<noteq> [] \<and> plain_segments r)"

lemma find_srt_below:
  assumes "find_srt env srt_dir rel_dir ts_dir r = Some p" and "path_is_safe_relative r"
  shows "be_file_exists env p \<and> path_below srt_dir ts_dir p"
proof -
  from assms(2) have r: "r \<noteq> []" "hd r \<noteq> SLASH" "plain_segments r"
    by (auto simp: path_is_safe_relative_def safe_loop_segments split: if_splits)
  from assms(1) have f: "be_file_exists env p" and
    "path_join3 (be_alloc env) srt_dir (Some rel_dir) (Some r) = Some p \<or>
     path_join3 (be_alloc env) ts_dir (Some []) (Some r) = Some p"
    by (auto simp: find_srt_def split: option.splits if_splits)
  then obtain base where "p = base @ r" "prefix srt_dir base \<or> prefix ts_dir base" "base = [] \<or> last base = SLASH"
    using path_join3_below [of _ _ _ r p] r(1,2) by metis
  with f r show ?thesis unfolding path_below_def by blast
qed

text \<open>What has been found so far: a language for each path.\<close>

definition found_ok :: "batch_env \<Rightarrow> cstr \<Rightarrow> cstr \<Rightarrow> StrVec \<Rightarrow> StrVec \<Rightarrow> bool" where
  "found_ok env srt_dir ts_dir srts langs \<longleftrightarrow>
     (\<exists>ps ls. sv_data srts = map Some ps \<and> sv_data langs = map Some ls \<and> length ps = length ls \<and>
        (\<forall>p\<in>set ps. be_file_exists env p \<and> path_below srt_dir ts_dir p))"

lemma push_match_ok:
  assumes "push_match (be_alloc env) p l srts langs = Inr (srts', langs')"
    and "found_ok env srt_dir ts_dir srts langs" and "be_file_exists env p \<and> path_below srt_dir ts_dir p"
  shows "found_ok env srt_dir ts_dir srts' langs'"
proof -
  from assms(2) obtain ps ls where d: "sv_data srts = map Some ps" "sv_data langs = map Some ls"
    "length ps = length ls" "\<forall>p\<in>set ps. be_file_exists env p \<and> path_below srt_dir ts_dir p"
    by (auto simp: found_ok_def)
  from assms(1) have "sv_data srts' = sv_data srts @ [Some p]" "sv_data langs' = sv_data langs @ [Some l]"
    by (auto simp: push_match_def split: option.splits dest: strvec_push_data strvec_push_dup_data)
  with d assms(3) show ?thesis unfolding found_ok_def
    by (intro exI [of _ "ps @ [p]"] exI [of _ "ls @ [l]"]) auto
qed

lemma resolve_loop_ok:
  "resolve_loop env srt_dir rel_dir ts_dir base meta tpls srts langs = Inr (srts', langs') \<Longrightarrow>
   found_ok env srt_dir ts_dir srts langs \<Longrightarrow> found_ok env srt_dir ts_dir srts' langs'"
proof (induction tpls arbitrary: srts langs)
  case (Cons tpl tpls)
  show ?case
  proof (cases "substitute_template (be_alloc env) (bt_pattern tpl) meta base")
    case None
    with Cons show ?thesis by simp
  next
    case (Some r)
    note sub = Some
    show ?thesis
    proof (cases "path_is_safe_relative r")
      case False
      with sub Cons show ?thesis by simp
    next
      case True
      show ?thesis
      proof (cases "find_srt env srt_dir rel_dir ts_dir r")
        case None
        with sub True Cons show ?thesis by simp
      next
        case (Some p)
        with sub True Cons.prems(1) obtain s1 l1 where
          pm: "push_match (be_alloc env) p (bt_lang tpl) srts langs = Inr (s1, l1)"
          and rest: "resolve_loop env srt_dir rel_dir ts_dir base meta tpls s1 l1 = Inr (srts', langs')"
          by (cases "push_match (be_alloc env) p (bt_lang tpl) srts langs") auto
        show ?thesis
          by (rule Cons.IH [OF rest]) (rule push_match_ok [OF pm Cons.prems(2) find_srt_below [OF Some True]])
      qed
    qed
  qed
qed simp

lemma resolve_ok:
  assumes "resolve_subtitles_for_ts env srt_dir tpls rel_dir ts_dir base = (0, srts, langs)"
  shows "found_ok env srt_dir ts_dir srts langs \<and> sv_data srts \<noteq> []"
proof -
  have "found_ok env srt_dir ts_dir strvec_init strvec_init" by (simp add: found_ok_def strvec_init_def)
  with assms resolve_loop_ok show ?thesis
    by (auto simp: resolve_subtitles_for_ts_def split: sum.splits prod.splits if_splits)
qed

lemma build_command_strings:
  assumes "build_command alloc argv0 fwd ts out srts langs = Some cmd"
    and "sv_data srts = map Some ps" and "sv_data langs = map Some ls"
  shows "sv_strings cmd =
    argv0 # fwd @ [''--input'', ts, ''--output'', out, ''--srt'', join (CHR '','') ps,
      ''--languages'', join (CHR '','') ls]"
proof (rule strings_some)
  note D = push_all_data strvec_push_data strvec_push_dup_data strvec_push_null_data
  from assms strings_some [OF assms(2)] strings_some [OF assms(3)] show "sv_data cmd =
    map Some (argv0 # fwd @ [''--input'', ts, ''--output'', out, ''--srt'', join (CHR '','') ps,
      ''--languages'', join (CHR '','') ls])"
    by (auto simp: build_command_def strvec_join_def strvec_init_def Let_def
      split: option.splits if_splits dest!: D)
qed

text \<open>The command for one file.\<close>

definition command_ok :: "batch_env \<Rightarrow> BatchEncodeConfig \<Rightarrow> cstr \<Rightarrow> cstr \<Rightarrow> cstr \<Rightarrow> cstr list \<Rightarrow> bool" where
  "command_ok env cfg srt_dir argv0 ts cmd \<longleftrightarrow>
     (\<exists>out ps ls.
        cmd = argv0 # bc_forward_args cfg @ [''--input'', ts, ''--output'', out, ''--srt'',
          join (CHR '','') ps, ''--languages'', join (CHR '','') ls] \<and>
        ps \<noteq> [] \<and> length ps = length ls \<and>
        (\<forall>p\<in>set ps. be_file_exists env p \<and> path_below srt_dir (dirname ts) p))"

lemma process_file_ok:
  assumes "process_file env cfg input_dir output_dir srt_dir argv0 ts = Inr (res, reached, cmds)"
    and "cmd \<in> set cmds"
  shows "command_ok env cfg srt_dir argv0 ts cmd"
proof -
  from assms obtain rel_dir base srts langs out c where
    r: "resolve_subtitles_for_ts env srt_dir (bc_templates cfg) rel_dir (dirname ts) base = (0, srts, langs)"
    and c: "build_command (be_alloc env) argv0 (bc_forward_args cfg) ts out srts langs = Some c"
    and cmd: "cmd = sv_strings c"
    by (auto simp: process_file_def Let_def sbind_eq_Inr_iff
      split: if_splits option.splits prod.splits)
  from resolve_ok [OF r] obtain ps ls where d: "sv_data srts = map Some ps" "sv_data langs = map Some ls"
    "length ps = length ls" "\<forall>p\<in>set ps. be_file_exists env p \<and> path_below srt_dir (dirname ts) p" "ps \<noteq> []"
    by (auto simp: found_ok_def)
  from build_command_strings [OF c d(1,2)] cmd d(3-5) show ?thesis unfolding command_ok_def by blast
qed

lemma run_files_ok:
  "run_files env cfg input_dir output_dir srt_dir argv0 fs p q = Inr (p', q', cmds) \<Longrightarrow> cmd \<in> set cmds \<Longrightarrow>
   \<exists>ts\<in>set fs. command_ok env cfg srt_dir argv0 ts cmd"
proof (induction fs arbitrary: p q p' q' cmds)
  case (Cons f fs)
  from Cons.prems(1) obtain res reached c1 where
    f: "process_file env cfg input_dir output_dir srt_dir argv0 f = Inr (res, reached, c1)"
    by (auto simp: sbind_eq_Inr_iff)
  show ?case
  proof (cases "cmd \<in> set c1")
    case True
    with process_file_ok [OF f] show ?thesis by simp
  next
    case False
    with Cons.prems f obtain p1 q1 p2 q2 c2 where
      "run_files env cfg input_dir output_dir srt_dir argv0 fs p1 q1 = Inr (p2, q2, c2)" "cmd \<in> set c2"
      by (auto simp: sbind_eq_Inr_iff Let_def split: if_splits)
    with Cons.IH show ?thesis by (meson list.set_intros(2))
  qed
qed simp

text \<open>The arguments that are no options of the batch, nor values of such.\<close>

definition valued_keys :: "cstr list" where
  "valued_keys = [''--batch-input'', ''--batch-output'', ''--batch-srt'', ''--batch-template'']"

definition batch_flags :: "cstr list" where
  "batch_flags = [''--batch-encode'', ''--batch-clear-templates'', ''--batch-dry-run'', ''--batch-sequential'']"

definition with_value :: "cstr \<Rightarrow> bool" where
  "with_value arg \<longleftrightarrow> list_ex (\<lambda>key. prefix (key @ ''='') arg) valued_keys"

function plain_args :: "cstr list \<Rightarrow> cstr list" where
  "plain_args [] = []"
| "plain_args (a # as) =
     (if a \<in> set batch_flags \<or> with_value a then plain_args as
      else if a \<in> set valued_keys then plain_args (tl as)
      else a # plain_args as)"
  by pat_completeness auto
termination
  by (relation "measure length") (auto simp: less_Suc_eq_le)

lemma match_eq_prefix_Some: "match_eq_prefix arg key = Some v \<longleftrightarrow> arg = key @ ''='' @ v"
  by (auto simp: match_eq_prefix_def starts_def prefix_def split: list.splits if_splits)

lemma opt_value_cases:
  "opt_value key arg args =
     (if prefix (key @ ''='') arg then Val (drop (length key + 1) arg) args
      else if arg = key then (case args of [] \<Rightarrow> Missing | v # as \<Rightarrow> Val v as)
      else Not_this)"
proof (cases "match_eq_prefix arg key")
  case (Some v)
  then have "arg = key @ ''='' @ v" by (simp add: match_eq_prefix_Some)
  then show ?thesis unfolding opt_value_def Some by simp
next
  case None
  then have "\<not> prefix (key @ ''='') arg" using match_eq_prefix_Some [of arg key] by (auto simp: prefix_def)
  with None show ?thesis by (simp add: opt_value_def)
qed

lemma plain_args_value:
  assumes "opt_value key arg args = Val v args'" and "key \<in> set valued_keys"
  shows "plain_args (arg # args) = plain_args args'"
proof (cases "prefix (key @ ''='') arg")
  case True
  with assms have "with_value arg" "args' = args" by (auto simp: opt_value_cases with_value_def list_ex_iff)
  then show ?thesis by simp
next
  case False
  with assms(1) have a: "arg = key" "args = v # args'"
    by (auto simp: opt_value_cases split: if_splits list.splits)
  with assms(2) have "arg \<notin> set batch_flags" "\<not> with_value arg"
    by (auto simp: valued_keys_def batch_flags_def with_value_def)
  with a assms(2) show ?thesis by simp
qed

lemma plain_args_other:
  assumes "\<forall>key\<in>set valued_keys. opt_value key arg args = Not_this"
  shows "plain_args (arg # args) = (if arg \<in> set batch_flags then plain_args args else arg # plain_args args)"
proof -
  have "\<not> with_value arg" "arg \<notin> set valued_keys"
    using assms by (fastforce simp: opt_value_cases with_value_def list_ex_iff split: if_splits list.splits)+
  then show ?thesis by simp
qed

lemma cli_loop_forward:
  "cli_loop alloc args st = Some st' \<Longrightarrow>
   sv_data (cs_forward st') = sv_data (cs_forward st) @ map Some (plain_args args)"
proof (induction alloc args st rule: cli_loop.induct)
  case (2 alloc arg args st)
  let ?o = "\<lambda>key. opt_value key arg args"
  have keys: "''--batch-input'' \<in> set valued_keys" "''--batch-output'' \<in> set valued_keys"
    "''--batch-srt'' \<in> set valued_keys" "''--batch-template'' \<in> set valued_keys" by (simp_all add: valued_keys_def)
  show ?case
  proof (cases "arg = ''--batch-encode''")
    case True
    with 2(1) [OF True] 2(10) show ?thesis by (simp add: batch_flags_def)
  next
    case e: False
    show ?thesis
    proof (cases "?o ''--batch-input''")
      case (Val v args')
      with 2(9) [OF e Val] 2(10) e plain_args_value [OF Val keys(1)] show ?thesis by simp
    next
      case i: Not_this
      show ?thesis
      proof (cases "?o ''--batch-output''")
        case (Val v args')
        with 2(8) [OF e i Val] 2(10) e i plain_args_value [OF Val keys(2)] show ?thesis by simp
      next
        case o: Not_this
        show ?thesis
        proof (cases "?o ''--batch-srt''")
          case (Val v args')
          with 2(7) [OF e i o Val] 2(10) e i o plain_args_value [OF Val keys(3)] show ?thesis by simp
        next
          case s: Not_this
          show ?thesis
          proof (cases "?o ''--batch-template''")
            case (Val v args')
            with 2(6) [OF e i o s Val] 2(10) e i o s plain_args_value [OF Val keys(4)] show ?thesis
              by (simp split: option.splits)
          next
            case t: Not_this
            have n: "plain_args (arg # args) = (if arg \<in> set batch_flags then plain_args args else arg # plain_args args)"
              by (rule plain_args_other) (simp add: valued_keys_def i o s t)
            show ?thesis
            proof (cases "arg \<in> set batch_flags")
              case True
              with e n 2(2) [OF e i o s t] 2(3) [OF e i o s t] 2(4) [OF e i o s t] 2(10) i o s t show ?thesis
                by (auto simp: batch_flags_def)
            next
              case False
              with e have f: "arg \<noteq> ''--batch-clear-templates''" "arg \<noteq> ''--batch-dry-run''" "arg \<noteq> ''--batch-sequential''"
                by (simp_all add: batch_flags_def)
              with 2(10) e i o s t obtain fwd where p: "strvec_push_dup alloc arg (cs_forward st) = Some fwd"
                and r: "cli_loop alloc args (st\<lparr>cs_forward := fwd\<rparr>) = Some st'"
                by (auto split: option.splits)
              from 2(5) [OF e i o s t f p r] strvec_push_dup_data [OF p] n False show ?thesis by simp
            qed
          qed (use 2(10) e i o s in simp)
        qed (use 2(10) e i o in simp)
      qed (use 2(10) e i in simp)
    qed (use 2(10) e in simp)
  qed
qed simp

lemma atoi_pad:
  assumes "int n \<le> INT_MAX" and "r = [] \<or> \<not> isdigit (hd r)"
  shows "atoi (dec_pad w n @ r) = int n"
proof -
  have sp: "num_split (dec_pad w n @ r) = (False, dec_pad w n, r)"
    by (rule num_split_digits) (use assms dec_pad_digits in auto)
  have b: "\<not> int n < LONG_MIN" "\<not> int n > LONG_MAX"
    using assms(1) by (auto simp: LONG_MIN_def LONG_MAX_def INT_MAX_def)
  have "to_int32 (int n) = int n" using assms(1) by (intro to_int32_id) (auto simp: INT_MIN_def)
  with b sp show ?thesis by (simp add: atoi_def strtol_def digits_val_pad)
qed

lemma dec_pad_two:
  assumes "n \<le> 99"
  obtains a b where "dec_pad 2 n = [a, b]" and "isdigit a" and "isdigit b"
proof -
  have "length (dec_pad 2 n) \<le> 2" using dec_pad_length [of n 1 2] assms by simp
  moreover have "2 \<le> length (dec_pad 2 n)" by (simp add: dec_pad_def)
  ultimately have "length (dec_pad 2 n) = 2" by simp
  then obtain a b where "dec_pad 2 n = [a, b]" by (auto simp: length_Suc_conv numeral_2_eq_2)
  with dec_pad_digits [of 2 n] show thesis by (intro that) auto
qed

text \<open>The name of an episode in the first of the supported forms.\<close>

definition episode_name :: "cstr \<Rightarrow> nat \<Rightarrow> nat \<Rightarrow> cstr" where
  "episode_name show season episode = show @ ''_S'' @ dec_pad 2 season @ ''_E'' @ dec_pad 2 episode"

lemma match_at_none: "match_rest pt (drop (Suc k) s) = None \<Longrightarrow> match_at pt s (Suc k) = match_at pt s k"
  by (subst match_at.simps) simp

lemma match_at_some: "match_rest pt (drop k s) = Some (a, b) \<Longrightarrow> match_at pt s k = Some (k, a, b)"
  by (subst match_at.simps) simp

lemma match_episode_name:
  assumes "s \<le> 99" and "e \<le> 99"
  shows "match_at \<lparr>pt_open = [''_'', ''Ss''], pt_mid = [''_'', ''Ee''], pt_exact = True\<rparr>
      (episode_name show s e) (length (episode_name show s e)) =
    Some (length show, dec_pad 2 s @ ''_E'' @ dec_pad 2 e, dec_pad 2 e)"
proof -
  let ?pt = "\<lparr>pt_open = [''_'', ''Ss''], pt_mid = [''_'', ''Ee''], pt_exact = True\<rparr>"
  obtain a b where s: "dec_pad 2 s = [a, b]" "isdigit a" "isdigit b" by (rule dec_pad_two [OF assms(1)])
  obtain c d where e: "dec_pad 2 e = [c, d]" "isdigit c" "isdigit d" by (rule dec_pad_two [OF assms(2)])
  have nd: "\<not> isdigit (CHR ''_'')" by (simp add: isdigit_def code_def)
  then have ne: "a \<noteq> CHR ''_''" "b \<noteq> CHR ''_''" "c \<noteq> CHR ''_''" "d \<noteq> CHR ''_''" using s e by auto
  let ?t = "[CHR ''_'', CHR ''S'', a, b, CHR ''_'', CHR ''E'', c, d]"
  have n: "episode_name show s e = show @ ?t" by (simp add: episode_name_def s e)
  have no: "match_rest ?pt (drop (Suc k) ?t) = None" if "k < 8" for k
  proof -
    from that consider "k = 0" | "k = 1" | "k = 2" | "k = 3" | "k = 4" | "k = 5" | "k = 6" | "k = 7" by linarith
    then show ?thesis by cases (simp_all add: match_rest_def ne)
  qed
  have down: "match_at ?pt (show @ ?t) (length show + j) = match_at ?pt (show @ ?t) (length show)" if "j \<le> 8" for j
    using that
  proof (induction j)
    case (Suc j)
    then have "match_rest ?pt (drop (Suc (length show + j)) (show @ ?t)) = None" using no [of j] by simp
    with Suc show ?case by (simp add: match_at_none)
  qed simp
  have "match_at ?pt (show @ ?t) (length (show @ ?t)) = match_at ?pt (show @ ?t) (length show)"
    unfolding length_append by (rule down) simp
  also have "\<dots> = Some (length show, [a, b, CHR ''_'', CHR ''E'', c, d], [c, d])"
    by (rule match_at_some) (simp add: match_rest_def s e nd)
  finally show ?thesis unfolding n by (simp add: s e)
qed

subsection \<open>What the batch promises\<close>


text \<open>C36. A successful parse of the command line of a batch forwards exactly the arguments that are neither
  options of the batch nor values of such options, in their order; all three directories are set. Its return
  value is -1, the one documented for an invocation that is not a batch.\<close>

theorem batch_cli_forwards:
  assumes "batch_encode_parse_cli alloc argv cfg = (rc, Some cfg')"
  shows "rc = -1 \<and> bc_forward_args cfg' = plain_args (tl argv) \<and>
    bc_input_dir cfg' \<noteq> None \<and> bc_output_dir cfg' \<noteq> None \<and> bc_srt_dir cfg' \<noteq> None"
proof -
  let ?st = "\<lparr>cs_saw_batch = False, cs_forward = strvec_init, cs_cfg = cfg\<rparr>"
  from assms obtain st where c: "cli_loop alloc (tl argv) ?st = Some st" and rc: "rc = -1"
    and cfg': "cfg' = (cs_cfg st)\<lparr>bc_forward_args := sv_strings (cs_forward st)\<rparr>"
    and d: "bc_input_dir (cs_cfg st) \<noteq> None" "bc_output_dir (cs_cfg st) \<noteq> None" "bc_srt_dir (cs_cfg st) \<noteq> None"
    by (auto simp: batch_encode_parse_cli_def split: option.splits if_splits)
  have "sv_strings (cs_forward st) = plain_args (tl argv)"
    by (rule strings_some) (use cli_loop_forward [OF c] in \<open>simp add: strvec_init_def\<close>)
  with rc cfg' d show ?thesis by simp
qed

text \<open>C29. A file named after its show, season and episode is recognised: \<^verbatim>\<open>parse_episode_meta\<close> gives back
  the show and the two numbers.\<close>

theorem episode_meta_roundtrip:
  assumes "s \<le> 99" and "e \<le> 99" and "show \<noteq> []" and "trim_trailing_delims show = show"
    and "alloc (length show + 1)"
  shows "parse_episode_meta alloc (episode_name show s e) =
    \<lparr>em_show = Some show, em_season = dec_pad 2 s, em_episode = dec_pad 2 e\<rparr>"
proof -
  have "atoi (dec_pad 2 s @ ''_E'' @ dec_pad 2 e) = int s"
    using assms(1) by (intro atoi_pad) (simp_all add: INT_MAX_def isdigit_def code_def)
  moreover have "atoi (dec_pad 2 e) = int e"
    using atoi_pad [of e "[]" 2] assms(2) by (simp add: INT_MAX_def)
  moreover have "fill_two_digit (int n) = dec_pad 2 n" if "n \<le> 99" for n using that by (simp add: fill_two_digit_def)
  moreover have "take (length show) (episode_name show s e) = show" by (simp add: episode_name_def)
  ultimately show ?thesis
    using match_episode_name [OF assms(1,2), of "show"] assms
    by (simp add: parse_episode_meta_def episode_patterns_def)
qed

text \<open>Where a subtitle has been found and the copy of its language code cannot be allocated, the path is
  freed although the vector of paths already holds it; freeing the vector frees it a second time.\<close>

lemma resolve_failure_double_free:
  assumes "substitute_template (be_alloc env) (bt_pattern tpl) (parse_episode_meta (be_alloc env) base) base = Some r"
    and "path_is_safe_relative r" and "find_srt env srt_dir rel_dir ts_dir r = Some p"
    and "be_alloc env 64" and "\<not> be_alloc env (length (bt_lang tpl) + 1)"
  shows "case resolve_subtitles_for_ts env srt_dir (tpl # tpls) rel_dir ts_dir base of
    (rc, srts, langs) \<Rightarrow> rc = 1 \<and> strvec_free srts = Inl Invalid_free"
proof -
  have "double_until (Suc 0) 8 = 8" by (simp add: double_until.simps)
  with assms(4) have "strvec_push (be_alloc env) p strvec_init = Some \<lparr>sv_data = [Some p], sv_cap = 8\<rparr>"
    by (simp add: strvec_push_def strvec_reserve_def strvec_init_def)
  with assms(5) have "push_match (be_alloc env) p (bt_lang tpl) strvec_init strvec_init =
      Inl (\<lparr>sv_data = [None], sv_cap = 8\<rparr>, strvec_init)"
    by (simp add: push_match_def strvec_push_dup_def)
  with assms(1-3) show ?thesis by (simp add: resolve_subtitles_for_ts_def strvec_free_def)
qed

subsection \<open>A run\<close>

definition sample_benv :: batch_env where
  "sample_benv =
     \<lparr>be_alloc = (\<lambda>_. True), be_file_exists = (\<lambda>p. p = ''/s/a.en.srt''), be_dir_exists = (\<lambda>_. True),
      be_mkdir_p = (\<lambda>_. True), be_run_cli = (\<lambda>_. 0), be_stop = (\<lambda>_. False)\<rparr>"

definition sample_bcfg :: BatchEncodeConfig where
  "sample_bcfg =
     \<lparr>bc_input_dir = Some ''/i'', bc_output_dir = Some ''/o'', bc_srt_dir = Some ''/s'',
      bc_templates = [\<lparr>bt_pattern = ''${BASENAME}.en.srt'', bt_lang = ''eng''\<rparr>],
      bc_forward_args = [''--hd''], bc_dry_run = False\<rparr>"

definition sample_cmd :: "cstr list" where
  "sample_cmd =
     [''srt2dvbsub'', ''--hd'', ''--input'', ''/i/a.ts'', ''--output'', ''/o/a.ts'', ''--srt'', ''/s/a.en.srt'',
      ''--languages'', ''eng'']"

lemma int_SIZE_MAX [code_unfold]: "int SIZE_MAX = 18446744073709551615"
  by (simp add: SIZE_MAX_def)

lemma sample_run_batch:
  "batch_encode_run sample_benv sample_bcfg (Some [''/i/a.ts'']) ''srt2dvbsub'' = Inr (0, [sample_cmd])"
  by code_simp


definition sample_argv :: "cstr list" where
  "sample_argv = [''srt2dvbsub'', ''--batch-encode'', ''--hd'', ''--batch-input=/i'', ''--batch-output'', ''/o'',
     ''--batch-srt'', ''/s'', ''--delay'', ''5'']"

theorem batch_cli_forwards_witness:
  "\<exists>cfg'. batch_encode_parse_cli (\<lambda>_. True) sample_argv sample_bcfg = (-1, Some cfg') \<and>
     bc_forward_args cfg' = [''--hd'', ''--delay'', ''5'']"
proof -
  have "map_prod id (\<lambda>x. x = None) (batch_encode_parse_cli (\<lambda>_. True) sample_argv sample_bcfg) = (-1, False)"
    by code_simp
  then obtain cfg' where c: "batch_encode_parse_cli (\<lambda>_. True) sample_argv sample_bcfg = (-1, Some cfg')"
    by (cases "batch_encode_parse_cli (\<lambda>_. True) sample_argv sample_bcfg") auto
  have "plain_args (tl sample_argv) = [''--hd'', ''--delay'', ''5'']" by code_simp
  with batch_cli_forwards [OF c] c show ?thesis by simp
qed

theorem episode_meta_roundtrip_witness:
  "parse_episode_meta (\<lambda>_. True) ''Show_S01_E05'' =
     \<lparr>em_show = Some ''Show'', em_season = ''01'', em_episode = ''05''\<rparr>"
proof -
  have "dec_pad 2 1 = ''01''" "dec_pad 2 5 = ''05''" "trim_trailing_delims ''Show'' = ''Show''"
    "episode_name ''Show'' 1 5 = ''Show_S01_E05''" by code_simp+
  with episode_meta_roundtrip [of 1 5 "''Show''" "\<lambda>_. True"] show ?thesis by simp
qed

lemma resolve_failure_double_free_example:
  "case resolve_subtitles_for_ts (sample_benv\<lparr>be_alloc := (\<lambda>n. n \<noteq> 4)\<rparr>) ''/s'' (bc_templates sample_bcfg) [] ''/i'' ''a'' of
     (rc, srts, langs) \<Rightarrow> rc = 1 \<and> strvec_free srts = Inl Invalid_free"
proof -
  let ?env = "sample_benv\<lparr>be_alloc := (\<lambda>n. n \<noteq> 4)\<rparr>"
  let ?tpl = "\<lparr>bt_pattern = ''${BASENAME}.en.srt'', bt_lang = ''eng''\<rparr>"
  have s: "substitute_template (be_alloc ?env) (bt_pattern ?tpl) (parse_episode_meta (be_alloc ?env) ''a'') ''a'' =
      Some ''a.en.srt''" by code_simp
  have p: "path_is_safe_relative ''a.en.srt''" by code_simp
  have f: "find_srt ?env ''/s'' [] ''/i'' ''a.en.srt'' = Some ''/s/a.en.srt''" by code_simp
  have "case resolve_subtitles_for_ts ?env ''/s'' [?tpl] [] ''/i'' ''a'' of
     (rc, srts, langs) \<Rightarrow> rc = 1 \<and> strvec_free srts = Inl Invalid_free"
    by (rule resolve_failure_double_free [OF s p f]) (simp_all add: sample_benv_def)
  then show ?thesis by (simp add: sample_bcfg_def)
qed

end
