(* ===== verification/Srt_stats.thy ===== *)
theory Srt_stats
  imports Srt_parser
begin

text \<open>
  \<^verbatim>\<open>parse_srt_with_stats\<close> and its helpers: the tolerant time line, the size check, the
  renumbering of cue ids, the statistics, and \<^verbatim>\<open>srt_analyze_gaps\<close> on the result. The lemmas
  relate the counters to the cues that are stored.
\<close>

subsection \<open>Helpers\<close>

text \<open>Integer division as in C: the quotient is truncated towards zero.\<close>

definition cdiv :: "int \<Rightarrow> int \<Rightarrow> int" where
  "cdiv a b = (if (a < 0) = (b < 0) then \<bar>a\<bar> div \<bar>b\<bar> else - (\<bar>a\<bar> div \<bar>b\<bar>))"

text \<open>The formats are tried in order; the result is the eight fields, \<^verbatim>\<open>h1\<close> and \<^verbatim>\<open>h2\<close> being 0
  where the line has none.\<close>

definition six :: "int list \<Rightarrow> times option" where
  "six v =
     (if length v = 6 then Some ((0, v ! 0, v ! 1, v ! 2), (0, v ! 3, v ! 4, v ! 5)) else None)"

definition parse_srt_timestamp ::
    "cstr \<Rightarrow> SRTParserStats option \<Rightarrow> times option \<times> SRTParserStats option" where
  "parse_srt_timestamp line stats =
     (let std = eight (sscanf_ints (range_fmt (time_fmt (CHR '','')) ''-->'') line);
          dot = eight (sscanf_ints (range_fmt (time_fmt (CHR ''.'')) ''-->'') line);
          short = six (sscanf_ints (range_fmt (short_time_fmt (CHR '','')) ''-->'') line);
          short_dot = six (sscanf_ints (range_fmt (short_time_fmt (CHR ''.'')) ''-->'') line);
          fat = eight (sscanf_ints (range_fmt (time_fmt (CHR '','')) ''=>'') line);
          thin = eight (sscanf_ints (range_fmt (time_fmt (CHR '','')) ''->'') line)
      in if std \<noteq> None then (std, stats)
         else if dot \<noteq> None then (dot, bump encoding_warnings_update stats)
         else if short \<noteq> None then (short, bump validation_warnings_update stats)
         else if short_dot \<noteq> None then (short_dot, bump encoding_warnings_update stats)
         else if fat \<noteq> None then (fat, bump validation_warnings_update stats)
         else if thin \<noteq> None then (thin, bump validation_warnings_update stats)
         else (None, stats))"

text \<open>The loop of \<^verbatim>\<open>validate_cue_size\<close>: \<open>p\<close> walks to the end, \<open>line_start\<close> trails behind. A line is
  measured from its start to the end of the \<^emph>\<open>text\<close>, as in the source.\<close>

fun size_loop :: "cstr \<Rightarrow> cstr \<Rightarrow> nat \<Rightarrow> nat \<Rightarrow> nat \<times> nat" where
  "size_loop line_start [] line_count max_line_len =
     (if line_start \<noteq> []
      then (line_count + 1, max max_line_len (visible_len line_start))
      else (line_count, max_line_len))"
| "size_loop line_start (c # p) line_count max_line_len =
     (if c = LF
      then size_loop p p (line_count + 1) (max max_line_len (visible_len line_start))
      else size_loop line_start p line_count max_line_len)"

definition validate_cue_size ::
    "cstr \<Rightarrow> int \<Rightarrow> int \<Rightarrow> SRTParserStats option \<Rightarrow> bool \<times> SRTParserStats option" where
  "validate_cue_size text max_line_length max_line_count stats =
     (let (line_count, max_line_len) = size_loop text text 0 0;
          too_many = (max_line_count > 0 \<and> int line_count > max_line_count);
          too_long = (max_line_length > 0 \<and> int max_line_len > max_line_length);
          st1 = (if too_many then bump validation_warnings_update stats else stats);
          st2 = (if too_long then bump validation_warnings_update st1 else st1)
      in (\<not> too_many \<and> \<not> too_long, st2))"

text \<open>\<^verbatim>\<open>process_cue_id\<close>: the id to use, the new \<^verbatim>\<open>*last_id\<close> and the statistics.\<close>

definition process_cue_id ::
    "int \<Rightarrow> int \<Rightarrow> SRTParserStats option \<Rightarrow> bool \<Rightarrow> int \<times> int \<times> SRTParserStats option" where
  "process_cue_id cue_id last_id stats auto_fix =
     (if stats = None then (cue_id, last_id, stats)
      else if cue_id = last_id then
        (let st = bump duplicate_ids_fixed_update stats
         in if auto_fix then let new_id = to_int32 (last_id + 1) in (new_id, new_id, st)
            else (cue_id, last_id, st))
      else if cue_id > to_int32 (last_id + 1) then
        (let st = bump sequences_fixed_update stats
         in if auto_fix then let new_id = to_int32 (last_id + 1) in (new_id, new_id, st)
            else (cue_id, cue_id, st))
      else (cue_id, cue_id, stats))"

subsection \<open>Storing a cue\<close>

record stats_state =
  ss_parse :: parse_state
  ss_last_id :: int
  ss_stats :: "SRTParserStats option"

text \<open>The duration and gap statistics of a stored cue.\<close>

definition count_cue :: "SRTEntry option \<Rightarrow> SRTEntry \<Rightarrow> SRTParserStats \<Rightarrow> SRTParserStats" where
  "count_cue prev e st =
     (let duration = end_ms e - start_ms e;
          st1 = st\<lparr>valid_cues := valid_cues st + 1,
                   min_duration := min duration (min_duration st),
                   max_duration := max duration (max_duration st)\<rparr>
      in case prev of
           None \<Rightarrow> st1
         | Some p \<Rightarrow>
             let gap = start_ms e - end_ms p
             in st1\<lparr>min_gap := min gap (min_gap st1), max_gap := max gap (max_gap st1)\<rparr>)"

definition warn_duration :: "SRTParserConfig \<Rightarrow> int \<Rightarrow> SRTParserStats option \<Rightarrow> SRTParserStats option" where
  "warn_duration cfg duration stats =
     (let st1 = (if cfg_warn_on_short_duration cfg \<and> duration < 100
                 then bump timing_warnings_update stats else stats)
      in if cfg_warn_on_long_duration cfg \<and> duration > 30000
         then bump timing_warnings_update st1 else st1)"

text \<open>A skipped cue, with or without a warning.\<close>

abbreviation skip_cue :: "SRTParserStats option \<Rightarrow> SRTParserStats option" where
  "skip_cue \<equiv> bump skipped_cues_update"

abbreviation skip_warn :: "SRTParserStats option \<Rightarrow> SRTParserStats option" where
  "skip_warn st \<equiv> bump validation_warnings_update (skip_cue st)"

definition cfg_env :: "parse_env \<Rightarrow> SRTParserConfig \<Rightarrow> parse_env" where
  "cfg_env env cfg =
     env\<lparr>pe_use_ass := cfg_use_ass cfg, pe_video_w := cfg_video_w cfg, pe_video_h := cfg_video_h cfg\<rparr>"

text \<open>
  From the array growth to \<^verbatim>\<open>n++\<close>. Where the copy of the text fails the code releases
  \<^verbatim>\<open>textbuf_sanitized\<close>, which is the stack array \<^verbatim>\<open>textbuf\<close> when nothing was sanitised.
\<close>

definition store_cue_stats ::
    "parse_env \<Rightarrow> SRTParserConfig \<Rightarrow> cstr \<Rightarrow> int \<Rightarrow> int \<Rightarrow> stats_state \<Rightarrow> stats_state cres" where
  "store_cue_stats env cfg textbuf start endt ss =
     sbind (grow_entries (pe_alloc env) (ss_parse ss)) (\<lambda>ps.
     let (sanitized, st1) =
           (if cfg_auto_fix_encoding cfg
            then sanitize_utf8 (pe_alloc env) (Some textbuf) (ss_stats ss)
            else (None, ss_stats ss));
         used = (case sanitized of None \<Rightarrow> textbuf | Some t \<Rightarrow> t)
     in (case norm_text (cfg_env env cfg) used of
          Inl Alloc_failed \<Rightarrow>
            if sanitized = None then Inl Invalid_free
            else Inr (ss\<lparr>ss_parse := ps, ss_stats := skip_cue st1\<rparr>)
        | Inl e \<Rightarrow> Inl e
        | Inr norm \<Rightarrow>
            let st2 =
                  (if cfg_max_line_length cfg > 0 \<or> cfg_max_line_count cfg > 0
                   then snd (validate_cue_size norm (cfg_max_line_length cfg)
                               (cfg_max_line_count cfg) st1)
                   else st1);
                n = length (ps_entries ps);
                prev = last_entry (ps_entries ps);
                e0 = \<lparr>start_ms = start, end_ms = endt, entry_text = norm, alignment = 0\<rparr>;
                overlap = (case prev of None \<Rightarrow> False | Some p \<Rightarrow> start < end_ms p);
                e = (fix_overlap prev e0)\<lparr>alignment := cue_alignment textbuf\<rparr>;
                st3 = (if overlap then bump overlaps_corrected_update st2 else st2);
                st4 = map_option (count_cue prev e) st3;
                st5 = warn_duration cfg (end_ms e - start_ms e) st4
            in (case strip_tags (pe_alloc env) (Some norm) of
                 None \<Rightarrow> Inr (ss\<lparr>ss_parse := ps, ss_stats := skip_cue st5\<rparr>)
               | Some plain \<Rightarrow>
                   sbind
                     (qc_check_entry (pe_global_w env) (pe_global_h env) (pe_qc env)
                       (pe_filename env) n (e\<lparr>entry_text := plain\<rparr>) prev (ps_qc ps))
                     (\<lambda>q. Inr (ss\<lparr>ss_parse := ps\<lparr>ps_entries := ps_entries ps @ [e], ps_qc := q\<rparr>,
                                 ss_stats := st5\<rparr>)))))"

subsection \<open>The loop\<close>

text \<open>The index line: as \<^verbatim>\<open>time_line\<close>, with the renumbering before the next line is read.\<close>

definition index_line ::
    "SRTParserConfig \<Rightarrow> cstr \<Rightarrow> stats_state \<Rightarrow> stats_state" where
  "index_line cfg line ss =
     (case sscanf_ints [FInt] line of
        [] \<Rightarrow> ss
      | idx # _ \<Rightarrow>
          if cfg_auto_fix_duplicates cfg then
            (case process_cue_id idx (ss_last_id ss) (ss_stats ss) True of
               (_, last_id, st) \<Rightarrow> ss\<lparr>ss_last_id := last_id, ss_stats := st\<rparr>)
          else ss)"

text \<open>What follows the time line: skip, or read the text and store the cue. The result is the
  rest of the file and the new state.\<close>

definition cue_body ::
    "parse_env \<Rightarrow> SRTParserConfig \<Rightarrow> cstr \<Rightarrow> char list \<Rightarrow> stats_state \<Rightarrow> (char list \<times> stats_state) cres"
where
  "cue_body env cfg tline f2 ss0 =
     (let ss = ss0\<lparr>ss_stats := bump total_cues_update (ss_stats ss0)\<rparr>;
          (fields, st) = parse_srt_timestamp tline (ss_stats ss)
      in case fields of
           None \<Rightarrow> Inr (f2, ss\<lparr>ss_stats := skip_cue st\<rparr>)
         | Some t \<Rightarrow>
             (case times_ms t of
                None \<Rightarrow> Inr (f2, ss\<lparr>ss_stats := skip_warn st\<rparr>)
              | Some (start, endt) \<Rightarrow>
                  let (textbuf, f3) = read_text f2 []
                  in if textbuf = [] then Inr (f3, ss\<lparr>ss_stats := skip_warn st\<rparr>)
                     else sbind (store_cue_stats env cfg textbuf start endt (ss\<lparr>ss_stats := st\<rparr>))
                            (\<lambda>ss'. Inr (f3, ss'))))"

lemma cue_body_rest: "cue_body env cfg tline f2 ss = Inr (f3, ss') \<Longrightarrow> length f3 \<le> length f2"
  using read_text_shorter [of f2 "[]"]
  by (auto simp: cue_body_def Let_def sbind_eq_Inr_iff split: prod.splits option.splits if_splits)

function stats_loop ::
    "parse_env \<Rightarrow> SRTParserConfig \<Rightarrow> char list \<Rightarrow> stats_state \<Rightarrow> stats_state cres" where
  "stats_loop env cfg f ss =
     (case get_line f of
        None \<Rightarrow> Inr ss
      | Some (line, f1) \<Rightarrow>
          if line = [] then stats_loop env cfg f1 ss
          else
            let bare = strip_bom line; ss1 = index_line cfg bare ss
            in (case time_line bare f1 of
                  None \<Rightarrow> Inr ss1
                | Some (tline, f2) \<Rightarrow>
                    sbind (cue_body env cfg tline f2 ss1)
                      (\<lambda>r. stats_loop env cfg (fst r) (snd r))))"
  by pat_completeness auto
termination
proof (relation "measure (\<lambda>(_, _, f, _). length f)", simp, goal_cases)
  case (1 env cfg f ss x line f1)
  then show ?case by (auto dest!: get_line_shorter)
next
  case (2 env cfg f ss x line f1 bare ss1 y tline f2 r)
  then show ?case
    by (cases r) (auto dest!: get_line_shorter time_line_shorter cue_body_rest)
qed

declare stats_loop.simps [simp del]

text \<open>\<^verbatim>\<open>INT64_MAX\<close>\<close>

definition INT64_MAX :: int where "INT64_MAX = 9223372036854775807"

definition finish_stats :: "SRTEntry list \<Rightarrow> SRTParserStats \<Rightarrow> SRTParserStats" where
  "finish_stats es st =
     (if valid_cues st > 0
      then st\<lparr>avg_duration := cdiv (sum_list (map (\<lambda>e. end_ms e - start_ms e) es)) (valid_cues st)\<rparr>
      else st)"

definition default_cfg :: "parse_env \<Rightarrow> SRTParserConfig" where
  "default_cfg env =
     \<lparr>cfg_use_ass = pe_use_ass env, cfg_video_w = pe_global_w env, cfg_video_h = pe_global_h env,
      cfg_validation_level = SRT_VALIDATE_LENIENT, cfg_max_line_length = 200,
      cfg_max_line_count = 5, cfg_auto_fix_duplicates = True, cfg_auto_fix_encoding = True,
      cfg_warn_on_short_duration = True, cfg_warn_on_long_duration = True\<rparr>"

definition initial_stats :: SRTParserStats where
  "initial_stats = zero_stats\<lparr>min_duration := INT64_MAX, min_gap := INT64_MAX\<rparr>"

text \<open>\<^verbatim>\<open>want_stats\<close>: the caller passes a \<^verbatim>\<open>stats_out\<close>.\<close>

definition parse_srt_with_stats ::
    "parse_env \<Rightarrow> SRTParserConfig option \<Rightarrow> bool \<Rightarrow> char list option \<Rightarrow> qc_state \<Rightarrow>
     parse_error + (SRTEntry list \<times> SRTParserStats option \<times> qc_state)" where
  "parse_srt_with_stats env cfg_opt want_stats file q =
     (let stats = (if want_stats then Some initial_stats else None);
          cfg = (case cfg_opt of None \<Rightarrow> default_cfg env | Some c \<Rightarrow> c)
      in case file of
           None \<Rightarrow> Inl Cannot_open
         | Some f \<Rightarrow>
             if \<not> pe_alloc env (INITIAL_CAP * SIZEOF_ENTRY) then Inl (Parse_fault Alloc_failed)
             else
               (case stats_loop env cfg f
                       \<lparr>ss_parse = \<lparr>ps_entries = [], ps_cap = INITIAL_CAP, ps_qc = q\<rparr>,
                        ss_last_id = 0, ss_stats = stats\<rparr> of
                  Inl e \<Rightarrow> Inl (Parse_fault e)
                | Inr ss \<Rightarrow>
                    let es = ps_entries (ss_parse ss)
                    in Inr (es, map_option (finish_stats es) (ss_stats ss), ps_qc (ss_parse ss))))"

subsection \<open>Accounting\<close>

text \<open>The counters that the warnings do not touch.\<close>

definition core :: "SRTParserStats \<Rightarrow> int \<times> int \<times> int \<times> int \<times> int" where
  "core st = (total_cues st, valid_cues st, skipped_cues st, min_duration st, max_duration st)"

lemma bump_core [simp]:
  "map_option core (bump encoding_warnings_update st) = map_option core st"
  "map_option core (bump validation_warnings_update st) = map_option core st"
  "map_option core (bump timing_warnings_update st) = map_option core st"
  "map_option core (bump overlaps_corrected_update st) = map_option core st"
  "map_option core (bump duplicate_ids_fixed_update st) = map_option core st"
  "map_option core (bump sequences_fixed_update st) = map_option core st"
  by (cases st; simp add: core_def)+

lemma timestamp_core [simp]: "map_option core (snd (parse_srt_timestamp l st)) = map_option core st"
  by (simp only: parse_srt_timestamp_def Let_def if_distrib [of snd]
      if_distrib [of "map_option core"] snd_conv bump_core if_cancel)

lemma cue_size_core [simp]: "map_option core (snd (validate_cue_size t a b st)) = map_option core st"
  by (simp add: validate_cue_size_def Let_def split: prod.split)

lemma cue_id_core [simp]:
  "map_option core (snd (snd (process_cue_id i l st b))) = map_option core st"
  by (simp add: process_cue_id_def Let_def)

lemma warn_core [simp]: "map_option core (warn_duration cfg d st) = map_option core st"
  by (simp add: warn_duration_def Let_def)

lemma sanitize_core [simp]: "map_option core (snd (sanitize_utf8 al i st)) = map_option core st"
  by (cases st) (simp_all add: sanitize_utf8_def core_def Let_def split: option.split prod.split)

lemma index_line_keeps:
  "ss_parse (index_line cfg l ss) = ss_parse ss"
  "map_option core (ss_stats (index_line cfg l ss)) = map_option core (ss_stats ss)"
proof -
  have "map_option core c = map_option core (ss_stats ss)"
    if "process_cue_id i (ss_last_id ss) (ss_stats ss) True = (a, b, c)" for i a b c
    using cue_id_core [of i "ss_last_id ss" "ss_stats ss" True] that by simp
  then show "ss_parse (index_line cfg l ss) = ss_parse ss"
    "map_option core (ss_stats (index_line cfg l ss)) = map_option core (ss_stats ss)"
    by (auto simp: index_line_def split: list.split prod.split simp del: sscanf_ints.simps)
qed

text \<open>What the statistics say of the stored cues.\<close>

definition accounted :: "SRTEntry list \<Rightarrow> SRTParserStats \<Rightarrow> bool" where
  "accounted es st \<longleftrightarrow>
     valid_cues st = int (length es) \<and> total_cues st = valid_cues st + skipped_cues st \<and>
     0 \<le> max_duration st \<and>
     (\<forall>e\<in>set es. min_duration st \<le> end_ms e - start_ms e \<and> end_ms e - start_ms e \<le> max_duration st)"

lemma accounted_core: "core st = core st' \<Longrightarrow> accounted es st = accounted es st'"
  by (simp add: accounted_def core_def)

definition stats_inv :: "stats_state \<Rightarrow> bool" where
  "stats_inv ss \<longleftrightarrow>
     cue_chain (ps_entries (ss_parse ss)) \<and>
     (\<forall>st. ss_stats ss = Some st \<longrightarrow> accounted (ps_entries (ss_parse ss)) st)"

lemma stats_inv_cong:
  assumes "ps_entries (ss_parse ss') = ps_entries (ss_parse ss)"
    and "map_option core (ss_stats ss') = map_option core (ss_stats ss)"
  shows "stats_inv ss' = stats_inv ss"
proof (cases "ss_stats ss")
  case None
  with assms show ?thesis by (simp add: stats_inv_def)
next
  case (Some st)
  with assms(2) obtain st' where st': "ss_stats ss' = Some st'" "core st' = core st" by auto
  from accounted_core [OF st'(2)] st'(1) Some assms(1) show ?thesis by (simp add: stats_inv_def)
qed

lemma grow_entries_Inr:
  "grow_entries al ps = Inr ps' \<Longrightarrow> ps_entries ps' = ps_entries ps \<and> ps_qc ps' = ps_qc ps"
  by (auto simp: grow_entries_def Let_def split: if_splits)

lemma count_cue_core:
  "core (count_cue prev e st) =
     (total_cues st, valid_cues st + 1, skipped_cues st,
      min (end_ms e - start_ms e) (min_duration st), max (end_ms e - start_ms e) (max_duration st))"
  by (simp add: count_cue_def core_def Let_def split: option.split)

lemma norm_text_total:
  "pe_alloc env = (\<lambda>_. True) \<Longrightarrow> \<exists>norm. norm_text env tb = Inr norm"
  using normalize_cue_text_fault [of "\<lambda>_. True"]
  by (cases "normalize_cue_text (\<lambda>_. True) (Some tb) (pe_video_w env > 720 \<or> pe_video_h env > 576)")
    (auto simp: norm_text_def)

text \<open>With memory available a stored cue is one more valid cue, after the others.\<close>

lemma store_cue_stats_Inr:
  assumes al: "pe_alloc env = (\<lambda>_. True)"
    and st: "store_cue_stats env cfg tb a b ss = Inr ss'" and ab: "a < b"
  obtains e where "ps_entries (ss_parse ss') = ps_entries (ss_parse ss) @ [e]"
    and "start_ms e \<le> end_ms e"
    and "\<And>p. last_entry (ps_entries (ss_parse ss)) = Some p \<Longrightarrow> end_ms p \<le> start_ms e"
    and "map_option core (ss_stats ss') =
      map_option (\<lambda>st. core (count_cue (last_entry (ps_entries (ss_parse ss))) e st)) (ss_stats ss)"
proof -
  let ?es = "ps_entries (ss_parse ss)"
  obtain ps where g: "grow_entries (pe_alloc env) (ss_parse ss) = Inr ps"
    and ps: "ps_entries ps = ?es"
    using al by (cases "grow_entries (pe_alloc env) (ss_parse ss)")
      (auto dest: grow_entries_Inr simp: grow_entries_def Let_def split: if_splits)
  obtain san st1 where s1: "(if cfg_auto_fix_encoding cfg
      then sanitize_utf8 (pe_alloc env) (Some tb) (ss_stats ss) else (None, ss_stats ss)) = (san, st1)"
    by force
  then have c1: "map_option core st1 = map_option core (ss_stats ss)"
    using sanitize_core [of "pe_alloc env" "Some tb" "ss_stats ss"]
    by (auto split: if_splits simp del: sanitize_core)
  obtain norm where n: "norm_text (cfg_env env cfg) (case san of None \<Rightarrow> tb | Some t \<Rightarrow> t) = Inr norm"
    using norm_text_total [of "cfg_env env cfg"] al by (auto simp: cfg_env_def)
  define e where "e = (fix_overlap (last_entry ?es)
    \<lparr>start_ms = a, end_ms = b, entry_text = norm, alignment = 0\<rparr>)\<lparr>alignment := cue_alignment tb\<rparr>"
  define st2 where "st2 = (if cfg_max_line_length cfg > 0 \<or> cfg_max_line_count cfg > 0
    then snd (validate_cue_size norm (cfg_max_line_length cfg) (cfg_max_line_count cfg) st1) else st1)"
  define st3 where "st3 = (if (case last_entry ?es of None \<Rightarrow> False | Some p \<Rightarrow> a < end_ms p)
    then bump overlaps_corrected_update st2 else st2)"
  define st5 where
    "st5 = warn_duration cfg (end_ms e - start_ms e) (map_option (count_cue (last_entry ?es) e) st3)"
  have c3: "map_option core st3 = map_option core (ss_stats ss)"
    using c1 by (simp add: st3_def st2_def)
  have "ps_entries (ss_parse ss') = ?es @ [e]" "ss_stats ss' = st5"
    using st al unfolding store_cue_stats_def g sbind_Inr s1
    by (auto simp: Let_def n ps strip_tags_def sbind_eq_Inr_iff e_def st5_def st3_def st2_def)
  moreover have "map_option core st5 =
      map_option (\<lambda>st. core (count_cue (last_entry ?es) e st)) (ss_stats ss)"
  proof (cases "ss_stats ss")
    case (Some s0)
    with c3 obtain s3 where "st3 = Some s3" "core s3 = core s0" by auto
    then have "core (count_cue (last_entry ?es) e s3) = core (count_cue (last_entry ?es) e s0)"
      by (simp only: count_cue_core) (simp add: core_def)
    with Some \<open>st3 = Some s3\<close> show ?thesis by (simp add: st5_def)
  qed (use c3 in \<open>simp add: st5_def\<close>)
  ultimately show thesis
    using fix_overlap_chain [of "\<lparr>start_ms = a, end_ms = b, entry_text = norm, alignment = 0\<rparr>"] ab
    by (intro that [of e]) (auto simp: e_def)
qed

lemma last_entry_Some: "last_entry es = Some p \<longleftrightarrow> es \<noteq> [] \<and> p = last es"
  by (auto simp: last_entry_def)

lemma accounted_store:
  assumes "accounted es st" and "core st' = core (count_cue p e (st\<lparr>total_cues := total_cues st + 1\<rparr>))"
    and "start_ms e \<le> end_ms e"
  shows "accounted (es @ [e]) st'"
  using assms by (auto simp: count_cue_core) (auto simp: core_def accounted_def)

lemma accounted_skip:
  "accounted es st \<Longrightarrow>
   core st' = core (st\<lparr>total_cues := total_cues st + 1, skipped_cues := skipped_cues st + 1\<rparr>) \<Longrightarrow>
   accounted es st'"
  by (auto simp: core_def accounted_def)

text \<open>An iteration that skips, and one that stores, keep the invariant.\<close>

lemma stats_inv_skip:
  assumes "stats_inv ss" and "ps_entries (ss_parse ss') = ps_entries (ss_parse ss)"
    and "map_option core (ss_stats ss') =
      map_option core (skip_cue (bump total_cues_update (ss_stats ss)))"
  shows "stats_inv ss'"
  using assms accounted_skip by (cases "ss_stats ss") (auto simp: stats_inv_def core_def)

lemma cue_body_inv:
  assumes al: "pe_alloc env = (\<lambda>_. True)"
    and body: "cue_body env cfg tline f2 ss = Inr (f3, ss')" and inv: "stats_inv ss"
  shows "stats_inv ss'"
proof -
  let ?t = "bump total_cues_update (ss_stats ss)"
  obtain t st where p: "parse_srt_timestamp tline ?t = (t, st)" by force
  have c: "map_option core st = map_option core ?t"
    using timestamp_core [of tline ?t] by (simp add: p)
  have skip: "map_option core (skip_cue st) = map_option core (skip_cue ?t)"
    "map_option core (skip_warn st) = map_option core (skip_cue ?t)"
    using c by (cases st; cases "ss_stats ss"; simp add: core_def)+
  consider (skip1) "ss' = ss\<lparr>ss_stats := skip_cue st\<rparr>" | (skip2) "ss' = ss\<lparr>ss_stats := skip_warn st\<rparr>"
    | (store) a b tb where "a < b" "store_cue_stats env cfg tb a b (ss\<lparr>ss_stats := st\<rparr>) = Inr ss'"
    using body
    by (auto simp: cue_body_def Let_def p sbind_eq_Inr_iff dest: times_ms_less
        split: option.splits prod.splits if_splits)
  then show ?thesis
  proof cases
    case skip1
    then show ?thesis using stats_inv_skip [OF inv, of ss'] skip by simp
  next
    case skip2
    then show ?thesis using stats_inv_skip [OF inv, of ss'] skip by simp
  next
    case store
    from store_cue_stats_Inr [OF al store(2,1)] obtain e where
      es: "ps_entries (ss_parse ss') = ps_entries (ss_parse ss) @ [e]" and ord: "start_ms e \<le> end_ms e"
      and ov: "\<And>p. last_entry (ps_entries (ss_parse ss)) = Some p \<Longrightarrow> end_ms p \<le> start_ms e"
      and c': "map_option core (ss_stats ss') =
        map_option (\<lambda>st. core (count_cue (last_entry (ps_entries (ss_parse ss))) e st)) st"
      by auto
    have ch: "cue_chain (ps_entries (ss_parse ss'))"
      using inv ord ov by (auto simp: es cue_chain_snoc stats_inv_def last_entry_Some)
    have "accounted (ps_entries (ss_parse ss')) st'" if st': "ss_stats ss' = Some st'" for st'
    proof -
      from st' c' obtain s1 where s1: "st = Some s1"
        "core st' = core (count_cue (last_entry (ps_entries (ss_parse ss))) e s1)"
        by (cases st) auto
      with c obtain s0 where s0: "ss_stats ss = Some s0"
        "core s1 = core (s0\<lparr>total_cues := total_cues s0 + 1\<rparr>)"
        by (cases "ss_stats ss") (auto simp: core_def)
      have "core st' = core (count_cue (last_entry (ps_entries (ss_parse ss))) e
          (s0\<lparr>total_cues := total_cues s0 + 1\<rparr>))"
        using s1(2) s0(2) by (simp only: count_cue_core) (simp add: core_def)
      then show ?thesis
        unfolding es using inv s0(1) ord by (intro accounted_store) (auto simp: stats_inv_def)
    qed
    with ch show ?thesis by (simp add: stats_inv_def)
  qed
qed

lemma stats_loop_inv:
  assumes al: "pe_alloc env = (\<lambda>_. True)"
  shows "stats_loop env cfg f ss = Inr ss' \<Longrightarrow> stats_inv ss \<Longrightarrow> stats_inv ss'"
proof (induction f arbitrary: ss rule: measure_induct_rule [where f = length])
  case (less f)
  show ?case
  proof (cases "get_line f")
    case None
    with less.prems show ?thesis by (simp add: stats_loop.simps [of env cfg f])
  next
    case (Some p)
    then obtain line f1 where l: "get_line f = Some (line, f1)" by (cases p) auto
    note l1 = get_line_shorter [OF l]
    let ?ss1 = "index_line cfg (strip_bom line) ss"
    have inv1: "stats_inv ?ss1"
      using stats_inv_cong [of ?ss1 ss] index_line_keeps less.prems(2) by simp
    show ?thesis
    proof (cases "line = [] \<or> time_line (strip_bom line) f1 = None")
      case True
      with l less.prems less.IH [OF l1] inv1 show ?thesis
        by (auto simp: stats_loop.simps [of env cfg f] Let_def split: if_splits)
    next
      case False
      then obtain tl f2 where t: "line \<noteq> []" "time_line (strip_bom line) f1 = Some (tl, f2)" by auto
      with l less.prems(1) obtain f3 ss2 where b: "cue_body env cfg tl f2 ?ss1 = Inr (f3, ss2)"
        and r: "stats_loop env cfg f3 ss2 = Inr ss'"
        by (auto simp: stats_loop.simps [of env cfg f] Let_def sbind_eq_Inr_iff)
      have "length f3 < length f"
        using cue_body_rest [OF b] time_line_shorter [OF t(2)] l1 by simp
      from less.IH [OF this r cue_body_inv [OF al b inv1]] show ?thesis .
    qed
  qed
qed

text \<open>The average lies between the extremes.\<close>

lemma cdiv_between:
  assumes "0 < n" and "0 \<le> s" and "n * lo \<le> s" and "s \<le> n * hi"
  shows "lo \<le> cdiv s n \<and> cdiv s n \<le> hi"
proof -
  have "cdiv s n = s div n" using assms by (simp add: cdiv_def)
  moreover have "lo \<le> s div n" using assms zdiv_mono1 [of "n * lo" s n] by simp
  moreover have "s div n \<le> hi"
    using assms zdiv_mono1 [of s "n * hi" n] by simp
  ultimately show ?thesis by simp
qed

lemma sum_between:
  fixes xs :: "int list"
  assumes "\<forall>x\<in>set xs. lo \<le> x \<and> x \<le> hi"
  shows "int (length xs) * lo \<le> sum_list xs \<and> sum_list xs \<le> int (length xs) * hi"
  using assms by (induction xs) (auto simp: algebra_simps)

lemma finish_stats_accounted:
  assumes "accounted es st" and "\<forall>e\<in>set es. start_ms e \<le> end_ms e"
  shows "accounted es (finish_stats es st)"
    and "es \<noteq> [] \<Longrightarrow> min_duration st \<le> avg_duration (finish_stats es st) \<and>
      avg_duration (finish_stats es st) \<le> max_duration st"
proof -
  show "accounted es (finish_stats es st)"
    using assms accounted_core [of "finish_stats es st" st es]
    by (simp add: finish_stats_def core_def)
  assume "es \<noteq> []"
  let ?d = "map (\<lambda>e. end_ms e - start_ms e) es"
  have "int (length ?d) * min_duration st \<le> sum_list ?d \<and> sum_list ?d \<le> int (length ?d) * max_duration st"
    using assms(1) by (intro sum_between) (auto simp: accounted_def)
  moreover have "0 \<le> sum_list ?d" using assms(2) by (intro sum_list_nonneg) auto
  ultimately show "min_duration st \<le> avg_duration (finish_stats es st) \<and>
      avg_duration (finish_stats es st) \<le> max_duration st"
    using assms(1) \<open>es \<noteq> []\<close> cdiv_between [of "int (length es)" "sum_list ?d"]
    by (auto simp: finish_stats_def accounted_def)
qed

text \<open>The size check measures the text, not its lines.\<close>

lemma u8_len_suffix:
  assumes "u8_valid (a @ LF # b)"
  shows "u8_valid b" and "u8_len b \<le> u8_len (a @ LF # b)"
proof -
  show b: "u8_valid b" by (rule u8_valid_after_ascii [OF assms]) simp
  show "u8_len b \<le> u8_len (a @ LF # b)"
    by (simp only: u8_len_valid [OF assms] u8_len_valid [OF b]) simp
qed

lemma tag_free_append: "tag_free (a @ b) \<Longrightarrow> tag_free b"
  by (induction a) auto

lemma visible_len_tag_free: "u8_valid s \<Longrightarrow> tag_free s \<Longrightarrow> visible_len s = u8_len s"
  by (simp add: visible_len_strip strip_id)

lemma size_loop_le:
  assumes "u8_valid (ls @ p)" and "tag_free (ls @ p)" and "u8_len (ls @ p) \<le> k" and "m \<le> k"
  shows "snd (size_loop (ls @ p) p n m) \<le> k"
  using assms
proof (induction p arbitrary: ls n m)
  case Nil
  then show ?case by (simp add: visible_len_tag_free)
next
  case (Cons c p)
  show ?case
  proof (cases "c = LF")
    case True
    with Cons.prems have v: "u8_valid p" "u8_len p \<le> k"
      using u8_len_suffix [of ls p] by auto
    have tf: "tag_free p" using tag_free_append [of "ls @ [c]" p] Cons.prems by simp
    have "visible_len (ls @ c # p) \<le> k"
      using Cons.prems visible_len_tag_free [of "ls @ c # p"] by simp
    with Cons.IH [of "[]"] v tf Cons.prems(4) True show ?thesis by simp
  next
    case False
    with Cons.IH [of "ls @ [c]"] Cons.prems show ?thesis by simp
  qed
qed

lemma size_loop_ge: "max m (visible_len ls) \<le> snd (size_loop ls p n m)"
proof (induction p arbitrary: ls n m)
  case (Cons c p)
  show ?case
  proof (cases "c = LF")
    case True
    have "max m (visible_len ls) \<le> max (max m (visible_len ls)) (visible_len p)" by simp
    also have "\<dots> \<le> snd (size_loop p p (n + 1) (max m (visible_len ls)))" by (rule Cons.IH)
    finally show ?thesis using True by simp
  qed (use Cons.IH in simp)
qed simp

subsection \<open>What the statistics say\<close>



text \<open>\<^verbatim>\<open>validate_cue_size\<close> does not measure lines: on text without tags the length it
  compares with the limit is that of the whole text, however short its lines are.\<close>

lemma validate_cue_size_measures_whole_text:
  assumes "u8_valid t" and "tag_free t" and "0 < max_len"
  shows "fst (validate_cue_size t max_len 0 stats) \<longleftrightarrow> int (u8_len t) \<le> max_len"
proof -
  have le: "snd (size_loop t t 0 0) \<le> u8_len t"
    using size_loop_le [of "[]" t "u8_len t" 0 0] assms by simp
  have "u8_len t \<le> snd (size_loop t t 0 0)"
    using size_loop_ge [of 0 t t 0] visible_len_tag_free [OF assms(1,2)] by simp
  with le have "snd (size_loop t t 0 0) = u8_len t" by simp
  with assms(3) show ?thesis by (cases "size_loop t t 0 0") (auto simp: validate_cue_size_def Let_def)
qed

lemma validate_cue_size_measures_whole_text_example:
  "\<not> fst (validate_cue_size (''ab'' @ LF # ''cd'') 3 0 None) \<and> longest_line (text_lines (''ab'' @ LF # ''cd'')) = 2"
proof -
  let ?t = "''ab'' @ LF # ''cd''"
  have "u8_valid ?t" "tag_free ?t" "u8_len ?t = 5" "longest_line (text_lines ?t) = 2" by code_simp+
  with validate_cue_size_measures_whole_text [of ?t 3 None] show ?thesis by simp
qed

text \<open>Where the text of a cue cannot be normalised for want of memory and nothing was sanitised,
  \<^verbatim>\<open>parse_srt_with_stats\<close> releases its own stack buffer: with the encoding repair switched off
  and an allocator that grants the cue array alone, one cue is enough.\<close>

lemma stats_parser_frees_stack_buffer:
  "parse_srt_with_stats (sample_env\<lparr>pe_alloc := (\<lambda>n. n \<ge> 4096)\<rparr>)
     (Some ((default_cfg sample_env)\<lparr>cfg_auto_fix_encoding := False\<rparr>)) True (Some sample_cue)
     \<lparr>qc_lines = [], qc_error_count = 0\<rparr> = Inl (Parse_fault Invalid_free)"
  by code_simp

end
