(* ===== verification/Cli_lists.thy ===== *)
theory Cli_lists
  imports Clib
begin

text \<open>
  The comma-separated lists of the command line: delays (\<^verbatim>\<open>delay_parse.c\<close>), languages
  (\<^verbatim>\<open>lang_parse.c\<close>, \<^verbatim>\<open>dvb_lang.c\<close>), PIDs (\<^verbatim>\<open>parse_pid_list\<close> of \<^verbatim>\<open>utils.c\<close>) and flags
  (\<^verbatim>\<open>parse_flag_list\<close> of \<^verbatim>\<open>srt2dvbsub.c\<close>), and the scalar options of \<^verbatim>\<open>render_params.c\<close>. The
  list parsers share one loop over the tokens of \<^verbatim>\<open>strtok_r\<close>; the contract of its body is the
  locale \<open>item_parser\<close>.
\<close>

datatype errno = EINVAL | ENOMEM | ERANGE | ENOTSUP

definition trim_string_inplace :: "cstr \<Rightarrow> cstr" where
  "trim_string_inplace s = rstrip_by isspace (lstrip s)"

subsection \<open>The loop over tokens\<close>

text \<open>A body that turns a token into a value, knowing the values before it. Where it fails the
  loop ends with the error and the values so far.\<close>

fun item_loop :: "(cstr \<Rightarrow> 'v list \<Rightarrow> 'e + 'v) \<Rightarrow> cstr list \<Rightarrow> 'v list \<Rightarrow> ('e \<times> 'v list) + 'v list" where
  "item_loop item [] vs = Inr vs"
| "item_loop item (t # ts) vs =
     (case item t vs of
        Inl e \<Rightarrow> Inl (e, vs)
      | Inr v \<Rightarrow> item_loop item ts (vs @ [v]))"

text \<open>What every list parser promises of its body: an accepted value keeps the invariant of the
  list.\<close>

locale item_parser =
  fixes item :: "cstr \<Rightarrow> 'v list \<Rightarrow> 'e + 'v" and ok :: "'v list \<Rightarrow> bool"
  assumes ok_Nil: "ok []"
    and item_ok: "ok vs \<Longrightarrow> item t vs = Inr v \<Longrightarrow> ok (vs @ [v])"
begin

lemma loop_ok: "ok vs \<Longrightarrow> item_loop item ts vs = Inr vs' \<Longrightarrow> ok vs'"
  by (induction ts arbitrary: vs) (auto split: sum.splits dest: item_ok)

lemma loop_prefix_ok: "ok vs \<Longrightarrow> item_loop item ts vs = Inl (e, vs') \<Longrightarrow> ok vs'"
  by (induction ts arbitrary: vs) (auto split: sum.splits dest: item_ok)

lemma loop_error: "item_loop item ts vs = Inl (e, vs') \<Longrightarrow> \<exists>t\<in>set ts. item t vs' = Inl e"
  by (induction ts arbitrary: vs) (auto split: sum.splits)

lemma loop_prefix_length: "item_loop item ts vs = Inl (e, vs') \<Longrightarrow> length vs' \<le> length vs + length ts"
  by (induction ts arbitrary: vs) (force split: sum.splits)+

lemma loop_length: "item_loop item ts vs = Inr vs' \<Longrightarrow> length vs' = length vs + length ts"
  by (induction ts arbitrary: vs) (auto split: sum.splits)

text \<open>The values are those of the tokens, in order; and the first bad token decides.\<close>

lemma loop_values:
  "item_loop item ts vs = Inr vs' \<Longrightarrow>
   \<exists>new. vs' = vs @ new \<and> length new = length ts \<and>
     (\<forall>i<length ts. item (ts ! i) (vs @ take i new) = Inr (new ! i))"
proof (induction ts arbitrary: vs)
  case (Cons t ts)
  then obtain v where v: "item t vs = Inr v" and r: "item_loop item ts (vs @ [v]) = Inr vs'"
    by (auto split: sum.splits)
  from Cons.IH [OF r] obtain new where n: "vs' = (vs @ [v]) @ new" "length new = length ts"
    "\<forall>i<length ts. item (ts ! i) ((vs @ [v]) @ take i new) = Inr (new ! i)" by blast
  have "item ((t # ts) ! i) (vs @ take i (v # new)) = Inr ((v # new) ! i)"
    if "i < length (t # ts)" for i
    using that v n(3) by (cases i) auto
  with n(1,2) show ?case by (intro exI [of _ "v # new"]) auto
qed simp

lemma loop_total:
  assumes "\<And>i vs. i < length ts \<Longrightarrow> length vs = i \<Longrightarrow> vs = take i new \<Longrightarrow> item (ts ! i) vs = Inr (new ! i)"
    and "length new = length ts"
  shows "item_loop item ts [] = Inr new"
proof -
  have "item_loop item (drop k ts) (take k new) = Inr new" if "k \<le> length ts" for k
    using that
  proof (induction "length ts - k" arbitrary: k)
    case 0
    with assms(2) show ?case by simp
  next
    case (Suc n)
    then have k: "k < length ts" by simp
    have "item (ts ! k) (take k new) = Inr (new ! k)" using assms k by simp
    moreover have "drop k ts = ts ! k # drop (Suc k) ts" using k by (simp add: Cons_nth_drop_Suc)
    moreover have "take k new @ [new ! k] = take (Suc k) new"
      using k assms(2) by (simp add: take_Suc_conv_app_nth)
    moreover have "item_loop item (drop (Suc k) ts) (take (Suc k) new) = Inr new"
      using Suc by (intro Suc.hyps(1)) auto
    ultimately show ?case by simp
  qed
  from this [of 0] show ?thesis by simp
qed

end

subsection \<open>Delays\<close>

definition parse_single_delay :: "(nat \<Rightarrow> bool) \<Rightarrow> cstr \<Rightarrow> errno + int" where
  "parse_single_delay alloc str =
     (if \<not> alloc (length str + 1) then Inl ENOMEM
      else
        let trimmed = trim_string_inplace str
        in if trimmed = [] then Inl EINVAL
           else (case strtol trimmed of (val, endptr, erange) \<Rightarrow>
             if erange then Inl ERANGE
             else if endptr = trimmed \<or> endptr \<noteq> [] then Inl EINVAL
             else if val < INT_MIN \<or> val > INT_MAX then Inl ERANGE
             else Inr val))"

definition delay_item :: "(nat \<Rightarrow> bool) \<Rightarrow> cstr \<Rightarrow> int list \<Rightarrow> errno + int" where
  "delay_item alloc token vals =
     (let trimmed = trim_string_inplace token
      in if trimmed = [] then Inl EINVAL
         else sbind (parse_single_delay alloc trimmed)
           (\<lambda>val. if alloc (4 * (length vals + 1)) then Inr val else Inl ENOMEM))"

text \<open>\<^verbatim>\<open>parse_delay_list\<close>: the return value, \<^verbatim>\<open>*delay_vals\<close> and \<^verbatim>\<open>*delay_count\<close>.\<close>

definition parse_delay_list ::
    "(nat \<Rightarrow> bool) \<Rightarrow> cstr \<Rightarrow> errno option \<times> int list option \<times> nat" where
  "parse_delay_list alloc delay_str =
     (if \<not> alloc (length delay_str + 1) then (Some ENOMEM, None, 0)
      else (case item_loop (delay_item alloc) (tokens (CHR '','') delay_str) [] of
              Inl (e, vals) \<Rightarrow> (Some e, None, length vals)
            | Inr vals \<Rightarrow> (None, if vals = [] then None else Some vals, length vals)))"

definition ints_ok :: "int list \<Rightarrow> bool" where
  "ints_ok vs \<longleftrightarrow> (\<forall>v\<in>set vs. INT_MIN \<le> v \<and> v \<le> INT_MAX)"

lemma parse_single_delay_range:
  "parse_single_delay alloc s = Inr v \<Longrightarrow> INT_MIN \<le> v \<and> v \<le> INT_MAX"
  by (auto simp: parse_single_delay_def Let_def split: if_splits prod.splits)

interpretation delays: item_parser "delay_item alloc" ints_ok for alloc
  by unfold_locales
    (auto simp: delay_item_def ints_ok_def Let_def sbind_eq_Inr_iff split: if_splits
      dest: parse_single_delay_range)

subsection \<open>Languages\<close>

definition dvb_langs :: "cstr list" where
  "dvb_langs =
     [''eng'', ''deu'', ''fra'', ''spa'', ''ita'', ''por'', ''rus'', ''jpn'', ''zho'', ''kor'',
      ''nld'', ''swe'', ''dan'', ''nor'', ''fin'', ''pol'', ''ces'', ''slk'', ''slv'', ''hrv'',
      ''ron'', ''bul'', ''ukr'', ''bel'', ''est'', ''lav'', ''lit'', ''hun'', ''heb'', ''ara'',
      ''tur'', ''ell'', ''cat'', ''gle'', ''eus'', ''glg'', ''srp'', ''mkd'', ''alb'', ''hin'',
      ''tam'', ''tel'', ''pan'', ''urd'', ''vie'', ''tha'', ''ind'', ''msa'', ''sin'', ''khm'',
      ''lao'', ''mon'', ''fas'']"

definition is_valid_dvb_lang :: "cstr \<Rightarrow> bool" where
  "is_valid_dvb_lang c \<longleftrightarrow>
     length c = 3 \<and> (\<forall>x\<in>set c. isalpha x) \<and> map tolower c \<in> set dvb_langs"

record lang_entry =
  le_code :: cstr
  le_position :: nat

text \<open>The body of \<^verbatim>\<open>validate_language_list\<close>; nothing is kept of a token.\<close>

definition validate_lang_item :: "cstr \<Rightarrow> unit list \<Rightarrow> errno + unit" where
  "validate_lang_item token vs =
     (let trimmed = trim_string_inplace token
      in if trimmed = [] then Inl EINVAL
         else if \<not> is_valid_dvb_lang trimmed then Inl EINVAL else Inr ())"

definition validate_language_list :: "(nat \<Rightarrow> bool) \<Rightarrow> cstr \<Rightarrow> errno option" where
  "validate_language_list alloc lang_str =
     (if \<not> alloc (length lang_str + 1) then Some ENOMEM
      else (case item_loop validate_lang_item (tokens (CHR '','') lang_str) [] of
              Inl (e, _) \<Rightarrow> Some e
            | Inr _ \<Rightarrow> None))"

text \<open>The body of \<^verbatim>\<open>parse_language_list\<close>: the entry, and whether its code was there before. The
  copy into \<^verbatim>\<open>char code[4]\<close> keeps the three letters.\<close>

definition lang_item ::
    "(nat \<Rightarrow> bool) \<Rightarrow> cstr \<Rightarrow> (lang_entry \<times> bool) list \<Rightarrow> errno + (lang_entry \<times> bool)" where
  "lang_item alloc token es =
     (let trimmed = trim_string_inplace token; position = length es + 1
      in if trimmed = [] then Inl EINVAL
         else if \<not> is_valid_dvb_lang trimmed then Inl EINVAL
         else
           let dup = (\<exists>e\<in>set es. le_code (fst e) = trimmed)
           in if \<not> alloc (8 * (length es + 1)) then Inl ENOMEM
              else Inr (\<lparr>le_code = take 3 trimmed, le_position = position\<rparr>, dup))"

definition parse_language_list :: "(nat \<Rightarrow> bool) \<Rightarrow> cstr \<Rightarrow> errno option \<times> lang_entry list" where
  "parse_language_list alloc lang_str =
     (if \<not> alloc (length lang_str + 1) then (Some ENOMEM, [])
      else (case item_loop (lang_item alloc) (tokens (CHR '','') lang_str) [] of
              Inl (e, _) \<Rightarrow> (Some e, [])
            | Inr es \<Rightarrow> (if (\<exists>e\<in>set es. snd e) then Some ENOTSUP else None, map fst es)))"

definition get_language_count :: "cstr \<Rightarrow> nat" where
  "get_language_count lang_str =
     (if lang_str = [] then 0 else 1 + length (filter (\<lambda>c. c = CHR '','') lang_str))"

definition langs_ok :: "(lang_entry \<times> bool) list \<Rightarrow> bool" where
  "langs_ok es \<longleftrightarrow>
     (\<forall>i<length es. le_position (fst (es ! i)) = i + 1 \<and> is_valid_dvb_lang (le_code (fst (es ! i)))) \<and>
     ((\<exists>e\<in>set es. snd e) \<longleftrightarrow> \<not> distinct (map (le_code \<circ> fst) es))"

interpretation langs: item_parser "lang_item alloc" langs_ok for alloc
proof unfold_locales
  fix vs :: "(lang_entry \<times> bool) list" and t v
  assume ok: "langs_ok vs" and i: "lang_item alloc t vs = Inr v"
  then obtain tr where v: "v = (\<lparr>le_code = tr, le_position = length vs + 1\<rparr>,
      \<exists>e\<in>set vs. le_code (fst e) = tr)" and tr: "is_valid_dvb_lang tr"
    by (auto simp: lang_item_def Let_def is_valid_dvb_lang_def split: if_splits)
  have dup: "(\<exists>e\<in>set vs. le_code (fst e) = tr) \<longleftrightarrow> tr \<in> set (map (le_code \<circ> fst) vs)"
    by auto
  show "langs_ok (vs @ [v])"
    using ok tr by (auto simp: langs_ok_def v dup nth_append less_Suc_eq)
qed (simp add: langs_ok_def)

subsection \<open>What the parsers deliver\<close>

lemma trim_no_space:
  assumes "\<And>c. c \<in> set s \<Longrightarrow> \<not> isspace c"
  shows "trim_string_inplace s = s"
proof -
  have "lstrip s = s" using assms by (cases s) (auto simp: lstrip_def)
  moreover have "rstrip_by isspace s = s"
    by (rule rstrip_by_id) (use assms in \<open>auto simp: last_in_set\<close>)
  ultimately show ?thesis by (simp add: trim_string_inplace_def)
qed

lemma trim_show [simp]: "trim_string_inplace (show_int v) = show_int v"
  by (rule trim_no_space) (rule show_int_no_space)

lemma parse_single_delay_show:
  assumes "INT_MIN \<le> v" and "v \<le> INT_MAX"
  shows "parse_single_delay (\<lambda>_. True) (show_int v) = Inr v"
  using strtol_show [of v] assms
  by (simp add: parse_single_delay_def INT_MIN_def INT_MAX_def LONG_MIN_def LONG_MAX_def)

lemma tokens_show: "tokens (CHR '','') (join (CHR '','') (map show_int vs)) = map show_int vs"
  by (rule tokens_join) (auto simp: show_int_no_comma)

lemma parse_delay_list_join:
  assumes "ints_ok vs" and "vs \<noteq> []"
  shows "parse_delay_list (\<lambda>_. True) (join (CHR '','') (map show_int vs)) = (None, Some vs, length vs)"
proof -
  have "item_loop (delay_item (\<lambda>_. True)) (map show_int vs) [] = Inr vs"
  proof (rule delays.loop_total)
    fix i us
    assume "i < length (map show_int vs)"
    then have "INT_MIN \<le> vs ! i \<and> vs ! i \<le> INT_MAX" "i < length vs"
      using assms(1) by (auto simp: ints_ok_def)
    then show "delay_item (\<lambda>_. True) (map show_int vs ! i) us = Inr (vs ! i)"
      by (simp add: delay_item_def parse_single_delay_show)
  qed simp
  with assms(2) show ?thesis by (simp add: parse_delay_list_def tokens_show)
qed

text \<open>C28. The delays written out with commas between them are read back by \<^verbatim>\<open>parse_delay_list\<close>, all
  of them and in order, for every list of values of the type \<^verbatim>\<open>int\<close>.\<close>

theorem delay_list_roundtrip:
  assumes "ints_ok vs" and "vs \<noteq> []"
  shows "parse_delay_list (\<lambda>_. True) (join (CHR '','') (map show_int vs)) = (None, Some vs, length vs)"
  using assms by (rule parse_delay_list_join)

theorem delay_list_roundtrip_witness:
  "parse_delay_list (\<lambda>_. True) ''-250,0,1200'' = (None, Some [-250, 0, 1200], 3)"
proof -
  have "join (CHR '','') (map show_int [-250, 0, 1200]) = ''-250,0,1200''" by code_simp
  with delay_list_roundtrip [of "[-250, 0, 1200]"] show ?thesis
    by (simp add: ints_ok_def INT_MIN_def INT_MAX_def)
qed

lemma lstrip_id: "s = [] \<or> \<not> isspace (hd s) \<Longrightarrow> lstrip s = s"
  by (cases s) (auto simp: lstrip_def)

lemma trim_trim [simp]: "trim_string_inplace (trim_string_inplace s) = trim_string_inplace s"
proof -
  let ?t = "rstrip_by isspace (lstrip s)"
  have "?t = [] \<or> \<not> isspace (hd ?t)"
  proof (cases ?t)
    case (Cons c r)
    then have "hd ?t = hd (lstrip s)" "lstrip s \<noteq> []"
      using rstrip_by_prefix [of isspace "lstrip s"] by (auto simp: prefix_def)
    then show ?thesis using hd_dropWhile [of isspace s] by (simp add: lstrip_def)
  qed simp
  then have "lstrip ?t = ?t" by (rule lstrip_id)
  moreover have "rstrip_by isspace ?t = ?t"
    by (rule rstrip_by_id) (use rstrip_by_last [of isspace "lstrip s"] in blast)
  ultimately show ?thesis by (simp add: trim_string_inplace_def)
qed

lemma delay_item_Inr:
  "delay_item alloc t vs = Inr v \<Longrightarrow> strtol (trim_string_inplace t) = (v, [], False)"
  by (auto simp: delay_item_def parse_single_delay_def Let_def sbind_eq_Inr_iff
    split: if_splits prod.splits)

text \<open>A number that \<^verbatim>\<open>strtol\<close> reads to the end has no comma in it.\<close>

lemma strtol_all_read:
  assumes "strtol s = (v, [], e)" and "c \<in> set s"
  shows "isspace c \<or> isdigit c \<or> c = CHR ''-'' \<or> c = CHR ''+''"
proof (rule ccontr)
  assume n: "\<not> ?thesis"
  have "c \<in> set (lstrip s)"
    using assms(2) n takeWhile_dropWhile_id [of isspace s]
    by (metis Un_iff lstrip_def set_append set_takeWhileD)
  moreover have "snd (snd (num_split s)) = []"
    using assms by (auto simp: strtol_def Let_def split: prod.splits if_splits)
  ultimately show False
    using n by (auto simp: num_split_def split: list.splits if_splits)
qed

lemma parse_single_delay_comma: "CHR '','' \<in> set s \<Longrightarrow> \<exists>e. parse_single_delay alloc s = Inl e"
proof (rule ccontr)
  assume c: "CHR '','' \<in> set s" and "\<nexists>e. parse_single_delay alloc s = Inl e"
  then obtain v where "parse_single_delay alloc s = Inr v" by (cases "parse_single_delay alloc s") auto
  then have r: "strtol (trim_string_inplace s) = (v, [], False)"
    by (auto simp: parse_single_delay_def Let_def split: if_splits prod.splits)
  have ns: "\<not> isspace (CHR '','')" by (simp add: isspace_def code_def)
  have "CHR '','' \<in> set (lstrip s)"
    using c ns takeWhile_dropWhile_id [of isspace s]
    by (metis Un_iff lstrip_def set_append set_takeWhileD)
  then have "CHR '','' \<in> set (dropWhile isspace (rev (lstrip s)))"
    using ns takeWhile_dropWhile_id [of isspace "rev (lstrip s)"]
    by (metis Un_iff set_append set_rev set_takeWhileD)
  then have "CHR '','' \<in> set (trim_string_inplace s)"
    by (simp add: trim_string_inplace_def rstrip_by_def)
  from strtol_all_read [OF r this] ns show False by (simp add: isdigit_def code_def)
qed

text \<open>\<^verbatim>\<open>parse_delay_list\<close> delivers all or nothing: on success one value per item, each of them
  the number \<^verbatim>\<open>strtol\<close> reads in the whole trimmed item and in the range of \<^verbatim>\<open>int\<close>; on failure no
  array, although the count still says how many values had been read.\<close>

lemma delay_list_all_or_nothing:
  "case parse_delay_list alloc s of
     (None, vals, n) \<Rightarrow>
       (let vs = (case vals of None \<Rightarrow> [] | Some vs \<Rightarrow> vs)
        in n = length vs \<and> ints_ok vs \<and>
           map (\<lambda>v. (v, [], False)) vs = map (strtol \<circ> trim_string_inplace) (tokens (CHR '','') s))
   | (Some e, vals, n) \<Rightarrow> vals = None \<and> n \<le> length (tokens (CHR '','') s)"
proof (cases "alloc (length s + 1)")
  case True
  show ?thesis
  proof (cases "item_loop (delay_item alloc) (tokens (CHR '','') s) []")
    case (Inl p)
    then show ?thesis
      using delays.loop_prefix_length [of alloc "tokens (CHR '','') s" "[]" "fst p" "snd p"] True
      by (auto simp: parse_delay_list_def split: prod.split)
  next
    case (Inr vs)
    from delays.loop_values [OF this] obtain n: "length vs = length (tokens (CHR '','') s)"
      and v: "\<forall>i<length (tokens (CHR '','') s).
        delay_item alloc (tokens (CHR '','') s ! i) (take i vs) = Inr (vs ! i)" by auto
    have "map (\<lambda>v. (v, [], False)) vs = map (strtol \<circ> trim_string_inplace) (tokens (CHR '','') s)"
      by (rule nth_equalityI) (use n v delay_item_Inr in auto)
    moreover have "ints_ok vs" by (rule delays.loop_ok [OF delays.ok_Nil Inr])
    ultimately show ?thesis using Inr True by (auto simp: parse_delay_list_def Let_def)
  qed
qed (simp add: parse_delay_list_def)


lemma validate_loop:
  "(\<exists>r. item_loop validate_lang_item ts vs = Inr r) \<longleftrightarrow>
   list_all (\<lambda>t. is_valid_dvb_lang (trim_string_inplace t)) ts"
proof (induction ts arbitrary: vs)
  case (Cons t ts)
  have "\<not> is_valid_dvb_lang []" by (simp add: is_valid_dvb_lang_def)
  with Cons show ?case by (auto simp: validate_lang_item_def Let_def)
qed simp

text \<open>\<^verbatim>\<open>validate_language_list\<close> checks every item and nothing else: it succeeds exactly where
  memory lasts and every item is a DVB language code. It never reports the duplicates that its
  documentation promises as \<^verbatim>\<open>ENOTSUP\<close>.\<close>

lemma validate_language_list_exact:
  "(validate_language_list alloc s = None \<longleftrightarrow>
      alloc (length s + 1) \<and>
      list_all (\<lambda>t. is_valid_dvb_lang (trim_string_inplace t)) (tokens (CHR '','') s)) \<and>
   validate_language_list alloc s \<noteq> Some ENOTSUP"
proof -
  have e: "e = EINVAL" if "item_loop validate_lang_item ts vs = Inl (e, us)" for ts vs e us
    using that
    by (induction ts arbitrary: vs)
      (auto simp: validate_lang_item_def Let_def split: if_splits)
  show ?thesis
    using validate_loop [of "tokens (CHR '','') s" "[]"]
    by (auto simp: validate_language_list_def dest: e split: sum.splits)
qed

end
