(* ===== verification/Cfloat.thy ===== *)
theory Cfloat
  imports Clib Complex_Main
begin

text \<open>
  The floating-point part of the C library that the option parsers use: the values of the type
  \<^verbatim>\<open>double\<close> without the sign of zero, comparison, rounding to 53 bits, and \<^verbatim>\<open>strtod\<close> with its decimal,
  hexadecimal and symbolic forms.
\<close>

datatype double = Nan | Infinite bool | Num rat

text \<open>The C operator \<^verbatim>\<open><\<close>, false wherever one side is not a number.\<close>

fun dbl_less :: "double \<Rightarrow> double \<Rightarrow> bool" where
  "dbl_less (Num x) (Num y) \<longleftrightarrow> x < y"
| "dbl_less (Num x) (Infinite neg) \<longleftrightarrow> \<not> neg"
| "dbl_less (Infinite neg) (Num y) \<longleftrightarrow> neg"
| "dbl_less (Infinite m) (Infinite n) \<longleftrightarrow> m \<and> \<not> n"
| "dbl_less _ _ \<longleftrightarrow> False"

definition dbl_geq :: "double \<Rightarrow> double \<Rightarrow> bool" where
  "dbl_geq x y \<longleftrightarrow> x \<noteq> Nan \<and> y \<noteq> Nan \<and> \<not> dbl_less x y"

subsection \<open>Rounding\<close>

definition pow2 :: "int \<Rightarrow> rat" where
  "pow2 k = (if 0 \<le> k then 2 ^ nat k else 1 / 2 ^ nat (- k))"

fun bits :: "nat \<Rightarrow> nat" where
  "bits n = (if n = 0 then 0 else 1 + bits (n div 2))"

declare bits.simps [simp del]

text \<open>The binary exponent of a positive number: \<open>pow2 e \<le> x < pow2 (e + 1)\<close>.\<close>

definition exponent2 :: "rat \<Rightarrow> int" where
  "exponent2 x =
     (case quotient_of x of (a, b) \<Rightarrow>
        let k = int (bits (nat a)) - int (bits (nat b))
        in if pow2 k \<le> x then k else k - 1)"

definition round_half_even :: "rat \<Rightarrow> int" where
  "round_half_even q =
     (let f = \<lfloor>q\<rfloor>; d = q - of_int f
      in if d < 1 / 2 then f else if d > 1 / 2 then f + 1 else if even f then f else f + 1)"

definition round_double :: "rat \<Rightarrow> rat" where
  "round_double x =
     (if x = 0 then 0
      else
        let u = pow2 (max (exponent2 x - 52) (- 1074))
        in of_int (round_half_even (x / u)) * u)"

subsection \<open>Reading\<close>

definition hex_val :: "char \<Rightarrow> int" where
  "hex_val c =
     (if isdigit c then digit_val c
      else if 97 \<le> code c then int (code c) - 87 else int (code c) - 55)"

definition isxdigit :: "char \<Rightarrow> bool" where
  "isxdigit c \<longleftrightarrow> isdigit c \<or> (97 \<le> code c \<and> code c \<le> 102) \<or> (65 \<le> code c \<and> code c \<le> 70)"

definition base_val :: "int \<Rightarrow> cstr \<Rightarrow> int" where
  "base_val b ds = foldl (\<lambda>a c. a * b + hex_val c) 0 ds"

text \<open>Digits with an optional point between them; at least one digit.\<close>

definition mantissa :: "(char \<Rightarrow> bool) \<Rightarrow> int \<Rightarrow> cstr \<Rightarrow> (rat \<times> cstr) option" where
  "mantissa dig b r =
     (let ip = takeWhile dig r; r1 = dropWhile dig r;
          point = (r1 \<noteq> [] \<and> hd r1 = CHR ''.'');
          fp = (if point then takeWhile dig (tl r1) else []);
          r2 = (if point then dropWhile dig (tl r1) else r1)
      in if ip = [] \<and> fp = [] then None
         else Some (of_int (base_val b (ip @ fp)) / of_int b ^ length fp, r2))"

text \<open>An exponent is read only where digits follow the letter.\<close>

definition scale :: "char \<Rightarrow> rat \<Rightarrow> rat \<Rightarrow> cstr \<Rightarrow> rat \<times> cstr" where
  "scale letter b m r =
     (if r = [] \<or> tolower (hd r) \<noteq> letter then (m, r)
      else
        let s = tl r;
            neg = (s \<noteq> [] \<and> hd s = CHR ''-'');
            t = (if s \<noteq> [] \<and> (hd s = CHR ''-'' \<or> hd s = CHR ''+'') then tl s else s);
            ds = takeWhile isdigit t; e = nat (digits_val ds)
        in if ds = [] then (m, r)
           else (if neg then m / b ^ e else m * b ^ e, dropWhile isdigit t))"

definition nan_end :: "cstr \<Rightarrow> cstr" where
  "nan_end r =
     (if r \<noteq> [] \<and> hd r = CHR ''('' then
        let u = dropWhile (\<lambda>c. isalpha c \<or> isdigit c \<or> c = CHR ''_'') (tl r)
        in if u \<noteq> [] \<and> hd u = CHR '')'' then tl u else r
      else r)"

text \<open>The value without its sign, and what follows; \<open>None\<close> where there is no number.\<close>

definition scan_double :: "cstr \<Rightarrow> (double \<times> cstr) option" where
  "scan_double r =
     (if starts_ci ''infinity'' r then Some (Infinite False, drop 8 r)
      else if starts_ci ''inf'' r then Some (Infinite False, drop 3 r)
      else if starts_ci ''nan'' r then Some (Nan, nan_end (drop 3 r))
      else if starts_ci ''0x'' r \<and> mantissa isxdigit 16 (drop 2 r) \<noteq> None then
        (case the (mantissa isxdigit 16 (drop 2 r)) of (m, s) \<Rightarrow>
          case scale (CHR ''p'') 2 m s of (x, t) \<Rightarrow> Some (Num x, t))
      else
        (case mantissa isdigit 10 r of
           None \<Rightarrow> None
         | Some (m, s) \<Rightarrow> (case scale (CHR ''e'') 10 m s of (x, t) \<Rightarrow> Some (Num x, t))))"

definition signed :: "bool \<Rightarrow> double \<Rightarrow> double" where
  "signed neg v =
     (case v of Nan \<Rightarrow> Nan | Infinite n \<Rightarrow> Infinite (n \<noteq> neg) | Num x \<Rightarrow> Num (if neg then - x else x))"

text \<open>\<^verbatim>\<open>strtod\<close>: the value, the end pointer and whether \<^verbatim>\<open>errno\<close> is set. The range error is an overflow, or
  a value below the normal numbers that had to be rounded.\<close>

definition strtod :: "cstr \<Rightarrow> double \<times> cstr \<times> bool" where
  "strtod s =
     (let t = lstrip s;
          neg = (t \<noteq> [] \<and> hd t = CHR ''-'');
          r = (if t \<noteq> [] \<and> (hd t = CHR ''-'' \<or> hd t = CHR ''+'') then tl t else t)
      in case scan_double r of
           None \<Rightarrow> (Num 0, s, False)
         | Some (Num x, u) \<Rightarrow>
             let y = round_double x
             in if y \<ge> pow2 1024 then (Infinite neg, u, True)
                else (signed neg (Num y), u, 0 < x \<and> x < pow2 (- 1022) \<and> y \<noteq> x)
         | Some (v, u) \<Rightarrow> (signed neg v, u, False))"

subsection \<open>Integers are exact\<close>

lemma bits_bounds: "0 < n \<Longrightarrow> 2 ^ (bits n - 1) \<le> n \<and> n < 2 ^ bits n \<and> 0 < bits n"
proof (induction n rule: bits.induct)
  case (1 n)
  show ?case
  proof (cases "n div 2 = 0")
    case True
    with 1(2) have "n = 1" by linarith
    then show ?thesis by (simp add: bits.simps)
  next
    case False
    with 1 have IH: "2 ^ (bits (n div 2) - 1) \<le> n div 2" "n div 2 < 2 ^ bits (n div 2)" "0 < bits (n div 2)"
      by auto
    then obtain k where k: "bits (n div 2) = Suc k" by (cases "bits (n div 2)") auto
    have "2 ^ k \<le> n div 2" "n div 2 < 2 * 2 ^ k" using IH k by simp_all
    then have "2 * 2 ^ k \<le> n" "n < 4 * 2 ^ k" by linarith+
    moreover have "bits n = Suc (Suc k)" using 1(2) k by (subst bits.simps) simp
    ultimately show ?thesis by simp
  qed
qed

lemma bits_one [simp]: "bits (Suc 0) = 1"
  by (simp add: bits.simps)

lemma exponent2_nat:
  assumes "0 < n" and "n < 2 ^ 53"
  shows "exponent2 (of_nat n) \<le> 52" and "0 \<le> exponent2 (of_nat n)"
proof -
  have q: "quotient_of (of_nat n) = (int n, 1)"
    using quotient_of_int [of "int n"] by (simp add: of_rat_of_nat_eq)
  note b = bits_bounds [OF assms(1)]
  have "bits n \<le> 53"
  proof (rule ccontr)
    assume "\<not> bits n \<le> 53"
    then have "(2::nat) ^ 53 \<le> 2 ^ (bits n - 1)" by (intro power_increasing) auto
    with b assms(2) show False by linarith
  qed
  moreover have "\<not> pow2 (int (bits n) - 1) \<le> of_nat n \<Longrightarrow> False"
  proof -
    have "pow2 (int (bits n) - 1) = of_nat (2 ^ (bits n - 1))"
      using b by (simp add: pow2_def nat_diff_distrib of_nat_diff)
    moreover have "(of_nat (2 ^ (bits n - 1)) :: rat) \<le> of_nat n" using b by (subst of_nat_le_iff) simp
    ultimately show "\<not> pow2 (int (bits n) - 1) \<le> of_nat n \<Longrightarrow> False" by simp
  qed
  ultimately show "exponent2 (of_nat n) \<le> 52" "0 \<le> exponent2 (of_nat n)"
    using b by (auto simp: exponent2_def q Let_def)
qed

lemma round_half_even_int [simp]: "round_half_even (of_int k) = k"
  by (simp add: round_half_even_def)

lemma round_double_nat:
  assumes "n < 2 ^ 53"
  shows "round_double (of_nat n) = of_nat n"
proof (cases "n = 0")
  case False
  then have e: "exponent2 (of_nat n) \<le> 52" "0 \<le> exponent2 (of_nat n)"
    using exponent2_nat [of n] assms by simp_all
  define k where "k = nat (52 - exponent2 (of_nat n))"
  have m: "max (exponent2 (of_nat n) - 52) (- 1074) = - int k" using e by (simp add: k_def)
  have u: "pow2 (- int k) = 1 / 2 ^ k" by (cases "k = 0") (simp_all add: pow2_def)
  have "(of_nat n :: rat) / (1 / 2 ^ k) = of_int (int n * 2 ^ k)" by simp
  then have "round_half_even (of_nat n / (1 / 2 ^ k)) = int n * 2 ^ k" by (simp only: round_half_even_int)
  with False show ?thesis by (simp add: round_double_def m u)
qed (simp add: round_double_def)

lemma base_val_digits: "\<forall>c\<in>set ds. isdigit c \<Longrightarrow> base_val 10 ds = digits_val ds"
proof (induction ds rule: rev_induct)
  case (snoc c ds)
  then show ?case by (simp add: base_val_def digits_val_def hex_val_def)
qed (simp add: base_val_def digits_val_def)

lemma tolower_digit [simp]: "isdigit c \<Longrightarrow> tolower c = c"
  by (simp add: tolower_def isdigit_def)

lemma starts_ci_digits:
  assumes "starts_ci lit r" and "\<forall>c\<in>set r. isdigit c" and "x \<in> set lit"
  shows "isdigit (tolower x)"
proof -
  have "map tolower r = r" using assms(2) by (simp add: map_idI)
  with assms(1) have "set (map tolower lit) \<subseteq> set r" using set_mono_prefix by (metis starts_ci_def)
  with assms(2,3) show ?thesis by auto
qed

lemma mantissa_digits:
  assumes "\<forall>c\<in>set ds. isdigit c" and "ds \<noteq> []"
  shows "mantissa isdigit 10 ds = Some (of_int (digits_val ds), [])"
proof -
  have "takeWhile isdigit ds = ds" "dropWhile isdigit ds = []" using assms(1) by simp_all
  then show ?thesis
    using assms by (simp add: mantissa_def base_val_digits del: dropWhile_eq_Nil_conv takeWhile_eq_all_conv)
qed

lemma scan_double_dec: "scan_double (dec n) = Some (Num (of_nat n), [])"
proof -
  have no: "\<not> starts_ci lit (dec n)" if "x \<in> set lit" "\<not> isdigit (tolower x)" for lit x
    using starts_ci_digits [of lit "dec n" x] dec_digits [of n] that by blast
  have "\<not> starts_ci ''infinity'' (dec n)" "\<not> starts_ci ''inf'' (dec n)" "\<not> starts_ci ''nan'' (dec n)"
    "\<not> starts_ci ''0x'' (dec n)"
    by (rule no [of "CHR ''n''"], simp, simp add: tolower_def isdigit_def code_def)+
      (rule no [of "CHR ''x''"], simp, simp add: tolower_def isdigit_def code_def)
  moreover have "mantissa isdigit 10 (dec n) = Some (of_nat n, [])"
    using mantissa_digits [OF dec_digits dec_nonempty, of n] by (simp add: digits_val_dec)
  ultimately show ?thesis by (simp add: scan_double_def scale_def)
qed

lemma pow2_big: "(of_nat n :: rat) < pow2 1024" if "n < 2 ^ 53"
proof -
  have "(of_nat n :: rat) < of_nat (2 ^ 53)" using that by (simp only: of_nat_less_iff)
  also have "(of_nat (2 ^ 53) :: rat) = 2 ^ 53" by (simp only: of_nat_power of_nat_numeral)
  also have "(2 ^ 53 :: rat) \<le> 2 ^ 1024" by (intro power_increasing) simp_all
  also have "\<dots> = pow2 1024" by (simp only: pow2_def nat_numeral zero_le_numeral if_True)
  finally show ?thesis .
qed

lemma strtod_dec:
  assumes "n < 2 ^ 53"
  shows "strtod (dec n) = (Num (of_nat n), [], False)"
proof -
  have d: "isdigit (hd (dec n))" using dec_digits [of n] by simp
  then have h: "hd (dec n) \<noteq> CHR ''-''" "hd (dec n) \<noteq> CHR ''+''" "\<not> isspace (hd (dec n))"
    using isdigit_not_isspace by (auto simp: isdigit_def code_def)
  then have "lstrip (dec n) = dec n" by (cases "dec n") (simp_all add: lstrip_def)
  with h show ?thesis
    using pow2_big [OF assms]
    by (simp add: strtod_def scan_double_dec signed_def round_double_nat [OF assms] Let_def)
qed

end
