(* ===== verification/Pids.thy ===== *)
theory Pids
  imports Cli_lists Cfloat
begin

text \<open>
  PIDs, flags and scalar options: \<^verbatim>\<open>parse_pid_list\<close> and \<^verbatim>\<open>extract_ass_alignment\<close> (\<^verbatim>\<open>utils.c\<close>),
  \<^verbatim>\<open>parse_flag_list\<close>, \<^verbatim>\<open>apply_custom_pids\<close> and the overwrite filter (\<^verbatim>\<open>srt2dvbsub.c\<close>), and the
  checks of \<^verbatim>\<open>render_params.c\<close>.
\<close>

subsection \<open>The PID list\<close>

definition PID_MIN :: int where "PID_MIN = 32"
definition PID_MAX :: int where "PID_MAX = 8186"

text \<open>The body of the loop; the error is the return value of \<^verbatim>\<open>parse_pid_list\<close>.\<close>

definition pid_item :: "cstr \<Rightarrow> int list \<Rightarrow> int + int" where
  "pid_item token pids =
     (let t = trim_string_inplace token
      in (case strtol t of (val, endptr, erange) \<Rightarrow>
            if erange \<or> endptr = t \<or> endptr \<noteq> [] then Inl (- 1)
            else if val < PID_MIN \<or> val > PID_MAX then Inl 1
            else if val \<in> set pids then Inl 1
            else Inr val))"

definition commas :: "cstr \<Rightarrow> nat" where
  "commas s = length (filter (\<lambda>c. c = CHR '','') s)"

text \<open>The result is the error code or the PIDs. The array has one slot more than there are
  commas, and the loop stops when it is full.\<close>

definition parse_pid_list :: "(nat \<Rightarrow> bool) \<Rightarrow> cstr \<Rightarrow> int + int list" where
  "parse_pid_list alloc pid_str =
     (let max_pids = 1 + commas pid_str
      in if \<not> alloc (length pid_str + 1) then Inl (- 1)
         else if \<not> alloc (max_pids * 4) then Inl (- 1)
         else (case item_loop pid_item (take max_pids (tokens (CHR '','') pid_str)) [] of
                 Inl (e, _) \<Rightarrow> Inl e
               | Inr pids \<Rightarrow> if pids = [] then Inl (- 1) else Inr pids))"

definition pids_ok :: "int list \<Rightarrow> bool" where
  "pids_ok pids \<longleftrightarrow> distinct pids \<and> (\<forall>p\<in>set pids. PID_MIN \<le> p \<and> p \<le> PID_MAX)"

interpretation pids: item_parser pid_item pids_ok
  by unfold_locales
    (auto simp: pid_item_def pids_ok_def Let_def split: prod.splits if_splits)

text \<open>No token is lost to the size of the array.\<close>

lemma commas_tl_dropWhile:
  "CHR '','' \<in> set t \<Longrightarrow> commas (tl (dropWhile (\<lambda>c. c \<noteq> CHR '','') t)) + 1 = commas t"
  by (induction t) (auto simp: commas_def)

lemma commas_dropWhile: "commas (dropWhile (\<lambda>c. c = CHR '','') s) \<le> commas s"
  by (induction s) (auto simp: commas_def)

lemma tokens_commas: "length (tokens (CHR '','') s) \<le> 1 + commas s"
proof (induction s rule: measure_induct_rule [where f = length])
  case (less s)
  show ?case
  proof (cases "strtok_r (CHR '','') s")
    case None
    then show ?thesis by (simp add: tokens.simps)
  next
    case (Some p)
    then obtain t r where tr: "strtok_r (CHR '','') s = Some (t, r)" by (cases p) auto
    let ?u = "dropWhile (\<lambda>c. c = CHR '','') s"
    from tr have u: "?u \<noteq> []" and r: "r = tl (dropWhile (\<lambda>c. c \<noteq> CHR '','') ?u)"
      by (auto simp: strtok_r_def Let_def split: if_splits)
    have IH: "length (tokens (CHR '','') r) \<le> 1 + commas r"
      by (rule less.IH [OF strtok_r_shorter [OF tr]])
    show ?thesis
    proof (cases "CHR '','' \<in> set ?u")
      case True
      then have "commas r + 1 \<le> commas s"
        using commas_tl_dropWhile [OF True] commas_dropWhile [of s] by (simp add: r)
      with IH tr show ?thesis by (subst tokens.simps) simp
    next
      case False
      then have "dropWhile (\<lambda>c. c \<noteq> CHR '','') ?u = []"
        unfolding dropWhile_eq_Nil_conv by blast
      with r have "r = tl []" by (simp only:)
      with tr show ?thesis by (subst tokens.simps) (simp add: tokens_Nil)
    qed
  qed
qed

lemma parse_pid_list_Inr:
  assumes "parse_pid_list alloc s = Inr pids"
  shows "pids_ok pids" and "pids \<noteq> []" and "length pids = length (tokens (CHR '','') s)"
    and "item_loop pid_item (tokens (CHR '','') s) [] = Inr pids"
proof -
  have all: "take (1 + commas s) (tokens (CHR '','') s) = tokens (CHR '','') s"
    using tokens_commas [of s] by simp
  show r: "item_loop pid_item (tokens (CHR '','') s) [] = Inr pids" and "pids \<noteq> []"
    using assms unfolding parse_pid_list_def Let_def all
    by (auto split: if_splits sum.splits prod.splits)
  show "pids_ok pids" by (rule pids.loop_ok [OF pids.ok_Nil r])
  show "length pids = length (tokens (CHR '','') s)" using pids.loop_length [OF r] by simp
qed

subsection \<open>Assigning PIDs to the subtitle streams\<close>

text \<open>A stream of the output is its index, with its PID in the list \<open>ids\<close>; a track refers to its
  stream, or to none. The result is the return value and the PIDs afterwards.\<close>

type_synonym track_streams = "nat option list"

definition pid_conflict :: "track_streams \<Rightarrow> int list \<Rightarrow> int list \<Rightarrow> bool" where
  "pid_conflict tracks ids assign \<longleftrightarrow>
     (\<exists>i<length ids. Some i \<notin> set tracks \<and> ids ! i > 0 \<and> ids ! i \<in> set (take (length tracks) assign))"

fun assign_pids :: "track_streams \<Rightarrow> int list \<Rightarrow> int list \<Rightarrow> int \<times> int list" where
  "assign_pids [] ps ids = (0, ids)"
| "assign_pids (None # ts) ps ids = (- 1, ids)"
| "assign_pids (Some k # ts) [] ids = (0, ids)"
| "assign_pids (Some k # ts) (p # ps) ids = assign_pids ts ps (ids[k := p])"

definition apply_custom_pids ::
    "(nat \<Rightarrow> bool) \<Rightarrow> track_streams \<Rightarrow> int list \<Rightarrow> cstr option \<Rightarrow> int \<times> int list" where
  "apply_custom_pids alloc tracks ids pid_str =
     (case pid_str of
        None \<Rightarrow> (0, ids)
      | Some s \<Rightarrow>
          if s = [] then (0, ids)
          else if tracks = [] then (- 1, ids)
          else (case parse_pid_list alloc s of
              Inl e \<Rightarrow> (e, ids)
            | Inr pids \<Rightarrow>
                let n = length tracks
                in (case
                      (if length pids = 1 then
                         (if hd pids + int n > PID_MAX then Inl 1
                          else if \<not> alloc (n * 4) then Inl (- 1)
                          else Inr (map (\<lambda>i. hd pids + int i) [0..<n]))
                       else if length pids = n then Inr pids
                       else Inl 1) of
                      Inl e \<Rightarrow> (e, ids)
                    | Inr assign \<Rightarrow>
                        if pid_conflict tracks ids assign then (1, ids)
                        else assign_pids tracks assign ids)))"

text \<open>Distinct PIDs to distinct streams.\<close>

lemma assign_pids_ok:
  "assign_pids ts ps ids = (0, ids') \<Longrightarrow> length ps = length ts \<Longrightarrow> distinct ts \<Longrightarrow>
   \<forall>k. Some k \<in> set ts \<longrightarrow> k < length ids \<Longrightarrow>
   length ids' = length ids \<and> (\<forall>t<length ts. \<exists>k. ts ! t = Some k \<and> ids' ! k = ps ! t) \<and>
   (\<forall>k. Some k \<notin> set ts \<longrightarrow> ids' ! k = ids ! k)"
proof (induction ts ps ids rule: assign_pids.induct)
  case (4 k ts p ps ids)
  from 4(2) have r: "assign_pids ts ps (ids[k := p]) = (0, ids')" by simp
  have IH: "length ids' = length (ids[k := p]) \<and>
      (\<forall>t<length ts. \<exists>k. ts ! t = Some k \<and> ids' ! k = ps ! t) \<and>
      (\<forall>j. Some j \<notin> set ts \<longrightarrow> ids' ! j = ids[k := p] ! j)"
    using 4(1) [OF r] 4(3-5) by simp
  have "ids' ! k = p" using IH 4(4,5) by simp
  then have "\<forall>t<length (Some k # ts). \<exists>j. (Some k # ts) ! t = Some j \<and> ids' ! j = (p # ps) ! t"
    using IH by (auto simp: nth_Cons split: nat.splits)
  then show ?case using IH by auto
qed auto

text \<open>The PIDs that are assigned when the call succeeds.\<close>

lemma parse_pid_list_Inl: "parse_pid_list alloc s = Inl e \<Longrightarrow> e = 1 \<or> e = - 1"
  by (auto simp: parse_pid_list_def Let_def split: if_splits sum.splits dest!: pids.loop_error)
     (auto simp: pid_item_def Let_def split: if_splits prod.splits)

lemma apply_custom_pids_0:
  assumes "apply_custom_pids alloc tracks ids (Some s) = (0, ids')" and "s \<noteq> []"
  obtains assign where "tracks \<noteq> []" "length assign = length tracks" "pids_ok assign"
    and "\<not> pid_conflict tracks ids assign" "assign_pids tracks assign ids = (0, ids')"
proof -
  let ?n = "length tracks"
  from assms obtain pids where p: "parse_pid_list alloc s = Inr pids" and ne: "tracks \<noteq> []"
    by (auto simp: apply_custom_pids_def split: if_splits sum.splits dest: parse_pid_list_Inl)
  note P = parse_pid_list_Inr [OF p]
  show thesis
  proof (cases "length pids = 1")
    case True
    with assms p ne have le: "hd pids + int ?n \<le> PID_MAX"
      and r: "\<not> pid_conflict tracks ids (map (\<lambda>i. hd pids + int i) [0..<?n])"
        "assign_pids tracks (map (\<lambda>i. hd pids + int i) [0..<?n]) ids = (0, ids')"
      by (auto simp: apply_custom_pids_def Let_def split: if_splits)
    have "PID_MIN \<le> hd pids" using P(1,2) by (auto simp: pids_ok_def)
    with le have "pids_ok (map (\<lambda>i. hd pids + int i) [0..<?n])"
      by (auto simp: pids_ok_def distinct_map inj_on_def)
    with r ne show thesis by (intro that) auto
  next
    case False
    with assms p ne have "length pids = ?n" "\<not> pid_conflict tracks ids pids"
      "assign_pids tracks pids ids = (0, ids')"
      by (auto simp: apply_custom_pids_def Let_def split: if_splits)
    with P(1) ne show thesis by (intro that) auto
  qed
qed

subsection \<open>Flags\<close>

fun flag_loop :: "cstr list \<Rightarrow> nat \<Rightarrow> bool list \<Rightarrow> bool list" where
  "flag_loop [] idx flags = flags"
| "flag_loop (token # ts) idx flags =
     (if idx < length flags then
        (let trimmed = trim_string_inplace token
         in if trimmed = [] then flag_loop ts (idx + 1) flags
            else flag_loop ts (idx + 1) (flags[idx := (atoi trimmed \<noteq> 0)]))
      else flags)"

text \<open>\<^verbatim>\<open>parse_flag_list\<close>: the flags of the tracks, or \<open>None\<close> for the return value -1.\<close>

definition parse_flag_list :: "(nat \<Rightarrow> bool) \<Rightarrow> cstr option \<Rightarrow> int \<Rightarrow> int \<Rightarrow> bool list option" where
  "parse_flag_list alloc flag_str track_count max_tracks =
     (if track_count \<le> 0 \<or> track_count > max_tracks then None
      else
        let flags = replicate (nat track_count) False
        in case flag_str of
             None \<Rightarrow> Some flags
           | Some s \<Rightarrow>
               if s = [] then Some flags
               else if \<not> alloc (length s + 1) then None
               else Some (flag_loop (tokens (CHR '','') s) 0 flags))"

lemma flag_loop_nth:
  "length (flag_loop ts i fl) = length fl \<and>
   (\<forall>j<length fl. flag_loop ts i fl ! j =
     (if i \<le> j \<and> j < i + length ts \<and> trim_string_inplace (ts ! (j - i)) \<noteq> []
      then atoi (trim_string_inplace (ts ! (j - i))) \<noteq> 0 else fl ! j))"
proof (induction ts i fl rule: flag_loop.induct)
  case (2 token ts idx flags)
  show ?case
  proof (cases "idx < length flags")
    case False
    then show ?thesis by auto
  next
    case True
    show ?thesis
    proof (cases "trim_string_inplace token = []")
      case tr: True
      note IH = 2(1) [OF True refl tr]
      show ?thesis
        using IH True tr by (auto simp: nth_Cons' Suc_diff_Suc Suc_le_eq le_eq_less_or_eq)
    next
      case tr: False
      note IH = 2(2) [OF True refl tr]
      show ?thesis
        using IH True tr by (auto simp: nth_Cons' nth_list_update Suc_diff_Suc Suc_le_eq le_eq_less_or_eq)
    qed
  qed
qed auto

subsection \<open>Font size and colour\<close>

definition validate_fontsize :: "cstr \<Rightarrow> int option" where
  "validate_fontsize s =
     (if s = [] then None
      else (case strtol s of (val, endptr, erange) \<Rightarrow>
              if erange then None
              else if endptr \<noteq> [] then None
              else if val = 0 then Some 0
              else if val < 6 then None
              else if val > 200 then None
              else Some val))"

definition is_hex_digit :: "char \<Rightarrow> bool" where
  "is_hex_digit c \<longleftrightarrow>
     (48 \<le> code c \<and> code c \<le> 57) \<or> (97 \<le> code c \<and> code c \<le> 102) \<or> (65 \<le> code c \<and> code c \<le> 70)"

definition validate_color :: "cstr \<Rightarrow> bool" where
  "validate_color s \<longleftrightarrow>
     s \<noteq> [] \<and> hd s = CHR ''#'' \<and> (length s = 7 \<or> length s = 9) \<and> (\<forall>c\<in>set (tl s). is_hex_digit c)"

subsection \<open>Alignment tags\<close>

datatype SubtitlePosition =
    SUB_POS_TOP_LEFT | SUB_POS_TOP_CENTER | SUB_POS_TOP_RIGHT
  | SUB_POS_MID_LEFT | SUB_POS_MID_CENTER | SUB_POS_MID_RIGHT
  | SUB_POS_BOT_LEFT | SUB_POS_BOT_CENTER | SUB_POS_BOT_RIGHT

record SubtitlePositionConfig =
  position :: SubtitlePosition
  margin_top :: double
  margin_left :: double
  margin_bottom :: double
  margin_right :: double

text \<open>The value of the enumerator in C.\<close>

definition position_code :: "SubtitlePosition \<Rightarrow> nat" where
  "position_code p =
     (case p of SUB_POS_TOP_LEFT \<Rightarrow> 1 | SUB_POS_TOP_CENTER \<Rightarrow> 2 | SUB_POS_TOP_RIGHT \<Rightarrow> 3
      | SUB_POS_MID_LEFT \<Rightarrow> 4 | SUB_POS_MID_CENTER \<Rightarrow> 5 | SUB_POS_MID_RIGHT \<Rightarrow> 6
      | SUB_POS_BOT_LEFT \<Rightarrow> 7 | SUB_POS_BOT_CENTER \<Rightarrow> 8 | SUB_POS_BOT_RIGHT \<Rightarrow> 9)"

definition keypad_position :: "int \<Rightarrow> SubtitlePosition option" where
  "keypad_position a =
     (if a = 7 then Some SUB_POS_TOP_LEFT else if a = 8 then Some SUB_POS_TOP_CENTER
      else if a = 9 then Some SUB_POS_TOP_RIGHT else if a = 4 then Some SUB_POS_MID_LEFT
      else if a = 5 then Some SUB_POS_MID_CENTER else if a = 6 then Some SUB_POS_MID_RIGHT
      else if a = 1 then Some SUB_POS_BOT_LEFT else if a = 2 then Some SUB_POS_BOT_CENTER
      else if a = 3 then Some SUB_POS_BOT_RIGHT else None)"

definition SIZEOF_POSCFG :: nat where "SIZEOF_POSCFG = 40"

abbreviation an_tag :: cstr where
  "an_tag \<equiv> CHR ''{'' # BSL # ''an''"

text \<open>The configuration found, and the markup without the tag.\<close>

definition extract_ass_alignment ::
    "(nat \<Rightarrow> bool) \<Rightarrow> cstr \<Rightarrow> SubtitlePositionConfig option \<times> cstr" where
  "extract_ass_alignment alloc markup =
     (case strstr an_tag markup of
        None \<Rightarrow> (None, markup)
      | Some pos \<Rightarrow>
          let digit_pos = drop 4 pos
          in if digit_pos = [] \<or> \<not> isdigit (hd digit_pos) then (None, markup)
             else
               let ass_align = digit_val (hd digit_pos); close_brace = tl digit_pos
               in if close_brace = [] \<or> hd close_brace \<noteq> CHR ''}'' then (None, markup)
                  else
                    let markup' = take (length markup - length pos) markup @ tl close_brace
                    in if ass_align = 0 then (None, markup')
                       else if \<not> alloc SIZEOF_POSCFG then (None, markup')
                       else
                         (case keypad_position ass_align of
                            None \<Rightarrow> (None, markup')
                          | Some p \<Rightarrow>
                              (Some \<lparr>position = p, margin_top = Num (7 / 2), margin_left = Num (7 / 2),
                                     margin_bottom = Num (7 / 2), margin_right = Num (7 / 2)\<rparr>, markup')))"

subsection \<open>What the options deliver\<close>

lemma pid_item_Inr: "pid_item t ps = Inr v \<Longrightarrow> strtol (trim_string_inplace t) = (v, [], False)"
  by (auto simp: pid_item_def Let_def split: if_splits prod.splits)

text \<open>C37. The PIDs \<^verbatim>\<open>parse_pid_list\<close> returns are distinct, between 32 and 8186, at least one, and one for
  every item of the list, which is the number \<^verbatim>\<open>strtol\<close> reads in the whole trimmed item; the array
  of one entry per comma plus one is never too small. An error is 1 for a value that is out of
  range or repeated, else -1.\<close>

theorem parse_pid_list_exact:
  "case parse_pid_list alloc s of
     Inr pids \<Rightarrow> pids_ok pids \<and> pids \<noteq> [] \<and> length pids \<le> 1 + commas s \<and>
       map (\<lambda>p. (p, [], False)) pids = map (strtol \<circ> trim_string_inplace) (tokens (CHR '','') s)
   | Inl e \<Rightarrow> e = 1 \<or> e = - 1"
proof (cases "parse_pid_list alloc s")
  case (Inl e)
  with parse_pid_list_Inl [of alloc s e] show ?thesis by simp
next
  case (Inr ps)
  note P = parse_pid_list_Inr [OF this]
  from pids.loop_values [OF P(4)] have
    v: "\<forall>i<length (tokens (CHR '','') s). pid_item (tokens (CHR '','') s ! i) (take i ps) = Inr (ps ! i)"
    by auto
  have "map (\<lambda>p. (p, [], False)) ps = map (strtol \<circ> trim_string_inplace) (tokens (CHR '','') s)"
    by (rule nth_equalityI) (use P(3) v pid_item_Inr in auto)
  with P Inr tokens_commas [of s] show ?thesis by simp
qed



text \<open>A single PID is refused where the PIDs counted up from it would end exactly at the largest
  valid one: the bound of \<^verbatim>\<open>apply_custom_pids\<close> is one too small.\<close>

lemma last_base_pid_refused:
  assumes "parse_pid_list alloc s = Inr [p]" and "p + int (length tracks) - 1 = PID_MAX"
    and "s \<noteq> []" and "tracks \<noteq> []"
  shows "apply_custom_pids alloc tracks ids (Some s) = (1, ids) \<and>
    pids_ok (map (\<lambda>i. p + int i) [0..<length tracks])"
proof -
  have "PID_MIN \<le> p" using parse_pid_list_Inr(1) [OF assms(1)] by (simp add: pids_ok_def)
  then have "pids_ok (map (\<lambda>i. p + int i) [0..<length tracks])"
    using assms(2) by (auto simp: pids_ok_def distinct_map inj_on_def)
  with assms show ?thesis by (simp add: apply_custom_pids_def Let_def)
qed

lemma last_base_pid_refused_example:
  "apply_custom_pids (\<lambda>_. True) [Some 0] [0] (Some ''8186'') = (1, [0])"
proof -
  have "parse_pid_list (\<lambda>_. True) ''8186'' = Inr [8186]" by code_simp
  from last_base_pid_refused [OF this, of "[Some 0]" "[0]"] show ?thesis by (simp add: PID_MAX_def)
qed

text \<open>\<^verbatim>\<open>parse_flag_list\<close> returns one flag per track: that of the item at the same position where
  there is one that is not blank, else false; extra items are ignored.\<close>

lemma parse_flag_list_flags:
  assumes "parse_flag_list alloc (Some s) track_count max_tracks = Some flags"
  shows "int (length flags) = track_count \<and> track_count \<le> max_tracks \<and>
    flags = map (\<lambda>j. j < length (tokens (CHR '','') s) \<and>
                     trim_string_inplace (tokens (CHR '','') s ! j) \<noteq> [] \<and>
                     atoi (trim_string_inplace (tokens (CHR '','') s ! j)) \<noteq> 0) [0..<nat track_count]"
proof -
  let ?ts = "tokens (CHR '','') s" and ?fl = "replicate (nat track_count) False"
  from assms have tc: "0 < track_count" "track_count \<le> max_tracks"
    by (auto simp: parse_flag_list_def split: if_splits)
  from assms have fl: "flags = flag_loop ?ts 0 ?fl"
    by (auto simp: parse_flag_list_def Let_def tokens_Nil split: if_splits)
  note L = flag_loop_nth [of ?ts 0 ?fl]
  have "flags = map (\<lambda>j. j < length ?ts \<and> trim_string_inplace (?ts ! j) \<noteq> [] \<and>
      atoi (trim_string_inplace (?ts ! j)) \<noteq> 0) [0..<nat track_count]"
    by (rule nth_equalityI) (use L in \<open>auto simp: fl\<close>)
  with tc show ?thesis by simp
qed

lemma parse_flag_list_flags_example:
  "parse_flag_list (\<lambda>_. True) (Some ''1, ,7'') 4 8 = Some [True, False, True, False]"
proof -
  have r: "parse_flag_list (\<lambda>_. True) (Some ''1, ,7'') 4 8 = Some [True, False, True, False]"
    by code_simp
  from parse_flag_list_flags [OF r] r show ?thesis by simp
qed

lemma strstr_after:
  assumes "hd pat \<notin> set pre" and "pat \<noteq> []"
  shows "strstr pat (pre @ pat @ x) = Some (pat @ x)"
  using assms
proof (induction pre)
  case Nil
  then obtain c cs where "pat = c # cs" by (cases pat) auto
  then show ?case by (simp add: starts_def)
next
  case (Cons c pre)
  then have "\<not> starts pat (c # pre @ pat @ x)" by (cases pat) auto
  with Cons show ?case by simp
qed

text \<open>An alignment tag is taken out of the text and turned into the position it names on the
  numeric keypad: \<^verbatim>\<open>extract_ass_alignment\<close> returns what stood around the tag, and the position in the
  row and the column of the digit, the rows counted from the top.\<close>

lemma extract_ass_alignment_keypad:
  assumes "CHR ''{'' \<notin> set pre" and "1 \<le> d" and "d \<le> 9" and "alloc SIZEOF_POSCFG"
  shows "\<exists>cfg. extract_ass_alignment alloc (pre @ an_tag @ digit_char d # CHR ''}'' # post) =
      (Some cfg, pre @ post) \<and>
    position_code (position cfg) = 3 * (2 - (d - 1) div 3) + (d - 1) mod 3 + 1"
proof -
  have f: "strstr an_tag (pre @ an_tag @ digit_char d # CHR ''}'' # post) =
      Some (an_tag @ digit_char d # CHR ''}'' # post)"
    by (rule strstr_after) (use assms(1) in simp_all)
  have g: "isdigit (digit_char d)" "digit_val (digit_char d) = int d" using assms(3) by simp_all
  have "d \<in> {1, 2, 3, 4, 5, 6, 7, 8, 9}" using assms(2,3) by auto
  then obtain p where p: "keypad_position (int d) = Some p"
    "position_code p = 3 * (2 - (d - 1) div 3) + (d - 1) mod 3 + 1"
    by (elim insertE emptyE) (simp_all add: keypad_position_def position_code_def)
  from f g p assms(2,4) show ?thesis by (simp add: extract_ass_alignment_def Let_def)
qed

lemma extract_ass_alignment_keypad_example:
  "\<exists>cfg. extract_ass_alignment (\<lambda>_. True) (''<i>'' @ (CHR ''{'' # BSL # ''an8}top</i>'')) =
      (Some cfg, ''<i>top</i>'') \<and> position_code (position cfg) = 2"
proof -
  have "digit_char 8 = CHR ''8''" by code_simp
  with extract_ass_alignment_keypad [of "''<i>''" 8 "\<lambda>_. True" "''top</i>''"] show ?thesis by (simp add: numeral_2_eq_2)
qed

end
