(* ===== verification/Positions.thy ===== *)
theory Positions
  imports Pids
begin

text \<open>
  Where subtitles are placed: \<^verbatim>\<open>parse_subtitle_positions\<close> of \<^verbatim>\<open>utils.c\<close> reads for each track a
  position and up to four margins. The lemmas bound the margins and read back what was written.
\<close>

definition default_position :: SubtitlePositionConfig where
  "default_position =
     \<lparr>position = SUB_POS_BOT_CENTER, margin_top = Num (7 / 2), margin_left = Num 2,
      margin_bottom = Num (7 / 2), margin_right = Num 2\<rparr>"

definition position_names :: "(cstr list \<times> SubtitlePosition) list" where
  "position_names =
     [([''top-left'', ''1''], SUB_POS_TOP_LEFT),
      ([''top-center'', ''2''], SUB_POS_TOP_CENTER),
      ([''top-right'', ''3''], SUB_POS_TOP_RIGHT),
      ([''middle-left'', ''mid-left'', ''4''], SUB_POS_MID_LEFT),
      ([''middle-center'', ''mid-center'', ''center'', ''5''], SUB_POS_MID_CENTER),
      ([''middle-right'', ''mid-right'', ''6''], SUB_POS_MID_RIGHT),
      ([''bottom-left'', ''bot-left'', ''7''], SUB_POS_BOT_LEFT),
      ([''bottom-center'', ''bot-center'', ''8''], SUB_POS_BOT_CENTER),
      ([''bottom-right'', ''bot-right'', ''9''], SUB_POS_BOT_RIGHT)]"

fun position_of :: "(cstr list \<times> SubtitlePosition) list \<Rightarrow> cstr \<Rightarrow> SubtitlePosition option" where
  "position_of [] part = None"
| "position_of ((names, p) # ps) part =
     (if list_ex (strcasecmp_eq part) names then Some p else position_of ps part)"

text \<open>The margins of a track, at most four; an error is the return value.\<close>

fun margin_loop :: "cstr list \<Rightarrow> double list \<Rightarrow> int + double list" where
  "margin_loop [] ms = Inr ms"
| "margin_loop (part # parts) ms =
     (if length ms < 4 then
        (let p = trim_string_inplace part
         in case strtod p of (val, endptr, erange) \<Rightarrow>
              if erange \<or> endptr = p \<or> endptr \<noteq> [] then Inl (- 1)
              else if dbl_less val (Num 0) \<or> dbl_less (Num 50) val then Inl 1
              else margin_loop parts (ms @ [val]))
      else Inr ms)"

definition set_margins :: "double list \<Rightarrow> SubtitlePositionConfig \<Rightarrow> SubtitlePositionConfig" where
  "set_margins ms cfg =
     (let c1 = (if length ms \<ge> 1 then cfg\<lparr>margin_top := ms ! 0\<rparr> else cfg);
          c2 = (if length ms \<ge> 2 then c1\<lparr>margin_left := ms ! 1\<rparr> else c1);
          c3 = (if length ms \<ge> 3 then c2\<lparr>margin_bottom := ms ! 2\<rparr> else c2)
      in if length ms \<ge> 4 then c3\<lparr>margin_right := ms ! 3\<rparr> else c3)"

definition parse_track_position :: "cstr \<Rightarrow> SubtitlePositionConfig \<Rightarrow> int + SubtitlePositionConfig" where
  "parse_track_position track_spec cfg =
     (case tokens (CHR '','') (trim_string_inplace track_spec) of
        [] \<Rightarrow> Inl (- 1)
      | part # parts \<Rightarrow>
          (case position_of position_names (trim_string_inplace part) of
             None \<Rightarrow> Inl (- 1)
           | Some pos \<Rightarrow>
               (case margin_loop parts [] of
                  Inl e \<Rightarrow> Inl e
                | Inr ms \<Rightarrow> Inr (set_margins ms (cfg\<lparr>position := pos\<rparr>)))))"

fun positions_loop :: "cstr list \<Rightarrow> nat \<Rightarrow> SubtitlePositionConfig list \<Rightarrow> int + SubtitlePositionConfig list" where
  "positions_loop [] i configs = Inr configs"
| "positions_loop (spec # specs) i configs =
     (if i < length configs then
        (case parse_track_position spec (configs ! i) of
           Inl e \<Rightarrow> Inl e
         | Inr c \<Rightarrow> positions_loop specs (i + 1) (configs[i := c]))
      else Inr configs)"

definition parse_subtitle_positions ::
    "(nat \<Rightarrow> bool) \<Rightarrow> cstr option \<Rightarrow> int \<Rightarrow> int + SubtitlePositionConfig list" where
  "parse_subtitle_positions alloc spec_str ntracks =
     (if ntracks < 1 \<or> ntracks > 8 then Inl (- 1)
      else
        let configs = replicate (nat ntracks) default_position
        in case spec_str of
             None \<Rightarrow> Inr configs
           | Some s \<Rightarrow>
               if s = [] then Inr configs
               else if \<not> alloc (length s + 1) then Inl (- 1)
               else positions_loop (tokens (CHR '';'') s) 0 configs)"

text \<open>No test of the margins refuses a value that is not a number.\<close>

definition margin_ok :: "double \<Rightarrow> bool" where
  "margin_ok m = (case m of Nan \<Rightarrow> True | Infinite _ \<Rightarrow> False | Num x \<Rightarrow> x = - 1 \<or> 0 \<le> x \<and> x \<le> 50)"

lemma margin_range: "\<not> dbl_less m (Num 0) \<Longrightarrow> \<not> dbl_less (Num 50) m \<Longrightarrow> margin_ok m"
  by (cases m) (auto simp: margin_ok_def)

definition position_ok :: "SubtitlePositionConfig \<Rightarrow> bool" where
  "position_ok c \<longleftrightarrow>
     margin_ok (margin_top c) \<and> margin_ok (margin_left c) \<and> margin_ok (margin_bottom c) \<and> margin_ok (margin_right c)"

lemma margin_loop_ok:
  "margin_loop parts ms = Inr ms' \<Longrightarrow> list_all margin_ok ms \<Longrightarrow> list_all margin_ok ms'"
  by (induction parts ms rule: margin_loop.induct)
    (auto simp: Let_def margin_range split: if_splits prod.splits)

lemma set_margins_ok: "list_all margin_ok ms \<Longrightarrow> position_ok c \<Longrightarrow> position_ok (set_margins ms c)"
  by (simp add: set_margins_def position_ok_def Let_def list_all_length Suc_le_eq)

lemma parse_track_position_ok:
  "parse_track_position spec c = Inr c' \<Longrightarrow> position_ok c \<Longrightarrow> position_ok c'"
  using margin_loop_ok
  by (fastforce simp: parse_track_position_def position_ok_def split: list.splits option.splits sum.splits
      intro!: set_margins_ok [unfolded position_ok_def])

lemma positions_loop_ok:
  "positions_loop specs i cs = Inr cs' \<Longrightarrow> list_all position_ok cs \<Longrightarrow>
   list_all position_ok cs' \<and> length cs' = length cs"
proof (induction specs i cs rule: positions_loop.induct)
  case (2 spec specs i configs)
  show ?case
  proof (cases "i < length configs \<and> (\<exists>c. parse_track_position spec (configs ! i) = Inr c)")
    case True
    then obtain c where c: "i < length configs" "parse_track_position spec (configs ! i) = Inr c" by blast
    with 2(3) have "position_ok c" by (auto simp: list_all_length dest: parse_track_position_ok)
    with 2(3) c(1) have "list_all position_ok (configs[i := c])"
      by (simp add: list_all_length nth_list_update)
    with 2(1) [OF c] 2(2) c show ?thesis by simp
  next
    case False
    with 2(2,3) show ?thesis by (auto split: if_splits sum.splits)
  qed
qed simp

lemma parse_subtitle_positions_ok:
  assumes "parse_subtitle_positions alloc spec n = Inr cs"
  shows "length cs = nat n \<and> list_all position_ok cs"
proof -
  have "list_all position_ok (replicate k default_position)" for k
    by (simp add: list_all_length position_ok_def default_position_def margin_ok_def)
  then show ?thesis
    using assms positions_loop_ok [of _ 0 "replicate (nat n) default_position" cs]
    by (auto simp: parse_subtitle_positions_def Let_def split: if_splits option.splits)
qed

text \<open>A specification written out: the number of the position and four margins.\<close>

definition show_position :: "SubtitlePosition \<times> nat \<times> nat \<times> nat \<times> nat \<Rightarrow> cstr" where
  "show_position x =
     (case x of (p, t, l, b, r) \<Rightarrow> join (CHR '','') [dec (position_code p), dec t, dec l, dec b, dec r])"

definition position_config :: "SubtitlePosition \<times> nat \<times> nat \<times> nat \<times> nat \<Rightarrow> SubtitlePositionConfig" where
  "position_config x =
     (case x of (p, t, l, b, r) \<Rightarrow>
        \<lparr>position = p, margin_top = Num (of_nat t), margin_left = Num (of_nat l),
         margin_bottom = Num (of_nat b), margin_right = Num (of_nat r)\<rparr>)"

fun margins_le :: "nat \<Rightarrow> SubtitlePosition \<times> nat \<times> nat \<times> nat \<times> nat \<Rightarrow> bool" where
  "margins_le m (p, t, l, b, r) \<longleftrightarrow> t \<le> m \<and> l \<le> m \<and> b \<le> m \<and> r \<le> m"

lemma dec_no_comma: "CHR '','' \<notin> set (dec n)" and dec_no_semicolon: "CHR '';'' \<notin> set (dec n)"
  using dec_digits [of n] by (auto simp: isdigit_def code_def)

lemma trim_dec [simp]: "trim_string_inplace (dec n) = dec n"
  by (rule trim_no_space) (use dec_digits [of n] isdigit_not_isspace in blast)

lemma margin_loop_dec:
  assumes "list_all (\<lambda>n. n \<le> 50) ns" and "length ms + length ns \<le> 4"
  shows "margin_loop (map dec ns) ms = Inr (ms @ map (\<lambda>n. Num (of_nat n)) ns)"
  using assms
proof (induction ns arbitrary: ms)
  case (Cons n ns)
  then have "n \<le> 50" by simp
  then have "strtod (dec n) = (Num (of_nat n), [], False)" by (intro strtod_dec) simp
  moreover have "(of_nat n :: rat) \<le> of_nat 50" using \<open>n \<le> 50\<close> by (simp only: of_nat_le_iff)
  ultimately show ?case using Cons dec_nonempty [of n, symmetric] by (simp add: not_less)
qed simp

lemma position_of_code: "position_of position_names (dec (position_code p)) = Some p"
  by (cases p) (simp_all add: position_code_def dec.simps position_names_def digit_char_def char_of_def bit_0
      strcasecmp_eq_def tolower_def code_def)

lemma parse_show_position:
  assumes "margins_le 50 x"
  shows "parse_track_position (show_position x) c = Inr (position_config x)"
proof -
  obtain p t l b r where x: "x = (p, t, l, b, r)" by (cases x) auto
  have "c' = CHR '','' \<or> isdigit c'" if "c' \<in> set (show_position x)" for c'
    using that dec_digits by (auto simp: show_position_def x)
  moreover have "\<not> isspace (CHR '','')" by (simp add: isspace_def code_def)
  ultimately have "trim_string_inplace (show_position x) = show_position x"
    by (intro trim_no_space) (use isdigit_not_isspace in blast)
  moreover have "tokens (CHR '','') (show_position x) = [dec (position_code p), dec t, dec l, dec b, dec r]"
    unfolding show_position_def x prod.case by (rule tokens_join) (simp add: dec_no_comma)
  moreover have "margin_loop (map dec [t, l, b, r]) [] = Inr ([] @ map (\<lambda>n. Num (of_nat n)) [t, l, b, r])"
    by (rule margin_loop_dec) (use assms x in simp_all)
  ultimately show ?thesis
    by (simp add: parse_track_position_def position_of_code set_margins_def position_config_def x)
qed

lemma positions_loop_show:
  "list_all (margins_le 50) xs \<Longrightarrow> i + length xs \<le> length cs \<Longrightarrow>
   positions_loop (map show_position xs) i cs =
     Inr (take i cs @ map position_config xs @ drop (i + length xs) cs)"
proof (induction xs arbitrary: i cs)
  case (Cons x xs)
  then have "positions_loop (map show_position xs) (i + 1) (cs[i := position_config x]) =
    Inr (take (i + 1) (cs[i := position_config x]) @ map position_config xs @
      drop (i + 1 + length xs) (cs[i := position_config x]))"
    by (intro Cons.IH) simp_all
  with Cons.prems show ?case
    by (simp add: parse_show_position take_Suc_conv_app_nth)
qed simp



end
