(* ===== verification/Getopt.thy ===== *)
theory Getopt
  imports Prelude
begin

text \<open>
  \<^verbatim>\<open>getopt_long\<close> of the C library for an option string that starts neither with a sign nor with a
  colon: options may stand behind operands, a long option may be abbreviated to a unique prefix, and
  a question mark stands for what is not known, ambiguous, without its argument or with one it does
  not take. The result is everything the loop over the calls sees, and the operands in their order.
\<close>

record long_opt =
  lo_name :: cstr
  lo_arg :: bool
  lo_val :: int

datatype opt_event = Flag int | Arg int cstr

abbreviation (input) QMARK :: opt_event where "QMARK \<equiv> Flag 63"

definition find_long :: "long_opt list \<Rightarrow> cstr \<Rightarrow> long_opt option" where
  "find_long tbl name =
     (case filter (\<lambda>l. lo_name l = name) tbl of
        l # _ \<Rightarrow> Some l
      | [] \<Rightarrow>
          (case filter (\<lambda>l. starts name (lo_name l)) tbl of
             [] \<Rightarrow> None
           | l # ls \<Rightarrow>
               if list_all (\<lambda>m. lo_arg m = lo_arg l \<and> lo_val m = lo_val l) ls then Some l else None))"

text \<open>What stands behind the two dashes, and the arguments after it.\<close>

definition long_option :: "long_opt list \<Rightarrow> cstr \<Rightarrow> cstr list \<Rightarrow> opt_event \<times> cstr list" where
  "long_option tbl body args =
     (case find_long tbl (takeWhile (\<lambda>c. c \<noteq> CHR ''='') body) of
        None \<Rightarrow> (QMARK, args)
      | Some l \<Rightarrow>
          if CHR ''='' \<in> set body then
            (if lo_arg l then (Arg (lo_val l) (tl (dropWhile (\<lambda>c. c \<noteq> CHR ''='') body)), args)
             else (QMARK, args))
          else if lo_arg l then
            (case args of [] \<Rightarrow> (QMARK, []) | a # as \<Rightarrow> (Arg (lo_val l) a, as))
          else (Flag (lo_val l), args))"

fun short_options :: "(char \<times> bool) list \<Rightarrow> cstr \<Rightarrow> cstr list \<Rightarrow> opt_event list \<times> cstr list" where
  "short_options sh [] args = ([], args)"
| "short_options sh (c # cs) args =
     (case map_of sh c of
        None \<Rightarrow> (case short_options sh cs args of (es, as) \<Rightarrow> (QMARK # es, as))
      | Some False \<Rightarrow> (case short_options sh cs args of (es, as) \<Rightarrow> (Flag (int (code c)) # es, as))
      | Some True \<Rightarrow>
          if cs \<noteq> [] then ([Arg (int (code c)) cs], args)
          else (case args of [] \<Rightarrow> ([QMARK], []) | a # as \<Rightarrow> ([Arg (int (code c)) a], as)))"

lemma long_option_shorter: "long_option tbl b args = (e, as) \<Longrightarrow> length as \<le> length args"
  by (auto simp: long_option_def split: option.splits if_splits list.splits)

lemma short_options_shorter: "short_options sh b args = (es, as) \<Longrightarrow> length as \<le> length args"
  by (induction sh b args arbitrary: es rule: short_options.induct)
    (auto split: option.splits bool.splits if_splits list.splits prod.splits)

definition is_operand :: "cstr \<Rightarrow> bool" where
  "is_operand a \<longleftrightarrow> a = [] \<or> hd a \<noteq> CHR ''-'' \<or> a = ''-''"

function getopt_long :: "(char \<times> bool) list \<Rightarrow> long_opt list \<Rightarrow> cstr list \<Rightarrow> opt_event list \<times> cstr list" where
  "getopt_long sh tbl [] = ([], [])"
| "getopt_long sh tbl (a # args) =
     (if is_operand a then (case getopt_long sh tbl args of (es, ops) \<Rightarrow> (es, a # ops))
      else if a = ''--'' then ([], args)
      else if starts ''--'' a then
        (case getopt_long sh tbl (snd (long_option tbl (drop 2 a) args)) of (es, ops) \<Rightarrow>
          (fst (long_option tbl (drop 2 a) args) # es, ops))
      else
        (case getopt_long sh tbl (snd (short_options sh (tl a) args)) of (es, ops) \<Rightarrow>
          (fst (short_options sh (tl a) args) @ es, ops)))"
  by pat_completeness auto
termination
proof (relation "measure (\<lambda>(_, _, args). length args)", simp, simp, goal_cases)
  case (1 sh tbl a args)
  from long_option_shorter [OF prod.collapse [symmetric], of tbl "drop 2 a" args]
  show ?case by (simp add: le_imp_less_Suc)
next
  case (2 sh tbl a args)
  from short_options_shorter [OF prod.collapse [symmetric], of sh "tl a" args]
  show ?case by (simp add: le_imp_less_Suc)
qed

declare getopt_long.simps [simp del]
lemmas getopt_simps = getopt_long.simps

subsection \<open>Command lines put together\<close>

text \<open>Where nothing is wrong with the first part of a command line and it does not end the options, the
  second part is read as if it stood alone.\<close>

lemma long_option_append:
  assumes "long_option tbl b args = (e, as)" and "e \<noteq> QMARK"
  shows "long_option tbl b (args @ rest) = (e, as @ rest)"
  using assms by (auto simp: long_option_def split: option.splits if_splits list.splits)

lemma short_options_append:
  assumes "short_options sh b args = (es, as)" and "QMARK \<notin> set es"
  shows "short_options sh b (args @ rest) = (es, as @ rest)"
  using assms
  by (induction sh b args arbitrary: es as rule: short_options.induct)
    (auto split: option.splits bool.splits if_splits list.splits prod.splits)

lemma long_option_rest: "long_option tbl b args = (e, as) \<Longrightarrow> set as \<subseteq> set args"
  by (auto simp: long_option_def split: option.splits if_splits list.splits)

lemma short_options_rest: "short_options sh b args = (es, as) \<Longrightarrow> set as \<subseteq> set args"
  by (induction sh b args arbitrary: es as rule: short_options.induct)
    (auto split: option.splits bool.splits if_splits list.splits prod.splits)

lemma getopt_long_append:
  assumes "getopt_long sh tbl args = (es, ops)" and "QMARK \<notin> set es" and "''--'' \<notin> set args"
  shows "getopt_long sh tbl (args @ rest) =
    (es @ fst (getopt_long sh tbl rest), ops @ snd (getopt_long sh tbl rest))"
  using assms
proof (induction sh tbl args arbitrary: es ops rule: getopt_long.induct)
  case (1 sh tbl)
  then show ?case by (simp add: getopt_simps)
next
  case (2 sh tbl a args)
  show ?case
  proof (cases "is_operand a")
    case True
    obtain es' ops' where r: "getopt_long sh tbl args = (es', ops')" by (rule prod.exhaust)
    with 2(4) True have e: "es = es'" "ops = a # ops'" by (auto simp: getopt_simps)
    with 2(1) [OF True r] 2(5,6) True show ?thesis by (simp add: getopt_simps split_beta)
  next
    case op: False
    have dd: "a \<noteq> ''--''" using 2(6) by auto
    show ?thesis
    proof (cases "starts ''--'' a")
      case True
      obtain e as where l: "long_option tbl (drop 2 a) args = (e, as)" by (rule prod.exhaust)
      obtain es' ops' where r: "getopt_long sh tbl as = (es', ops')" by (rule prod.exhaust)
      from 2(4) op dd True l r have e: "es = e # es'" "ops = ops'" by (auto simp: getopt_simps)
      have "''--'' \<notin> set as" using long_option_rest [OF l] 2(6) by auto
      with 2(2) [OF op dd True] l r e 2(5)
      have "getopt_long sh tbl (as @ rest) =
        (es' @ fst (getopt_long sh tbl rest), ops' @ snd (getopt_long sh tbl rest))" by simp
      moreover have "long_option tbl (drop 2 a) (args @ rest) = (e, as @ rest)"
        by (rule long_option_append [OF l]) (use e 2(5) in auto)
      ultimately show ?thesis using op dd True e by (simp add: getopt_simps)
    next
      case False
      obtain e as where l: "short_options sh (tl a) args = (e, as)" by (rule prod.exhaust)
      obtain es' ops' where r: "getopt_long sh tbl as = (es', ops')" by (rule prod.exhaust)
      from 2(4) op dd False l r have e: "es = e @ es'" "ops = ops'" by (auto simp: getopt_simps)
      have "''--'' \<notin> set as" using short_options_rest [OF l] 2(6) by auto
      with 2(3) [OF op dd False] l r e 2(5)
      have "getopt_long sh tbl (as @ rest) =
        (es' @ fst (getopt_long sh tbl rest), ops' @ snd (getopt_long sh tbl rest))" by simp
      moreover have "short_options sh (tl a) (args @ rest) = (e, as @ rest)"
        by (rule short_options_append [OF l]) (use e 2(5) in auto)
      ultimately show ?thesis using op dd False e by (simp add: getopt_simps)
    qed
  qed
qed

lemma find_long_exact:
  assumes "distinct (map lo_name tbl)" and "l \<in> set tbl"
  shows "find_long tbl (lo_name l) = Some l"
proof -
  from assms have "filter (\<lambda>m. lo_name m = lo_name l) tbl = [l]"
    by (induction tbl) (auto simp: filter_empty_conv, metis image_eqI)
  then show ?thesis by (simp add: find_long_def)
qed

text \<open>A long option that is written out, with its argument behind it.\<close>

lemma getopt_long_Arg:
  assumes "find_long tbl name = Some l" and "lo_arg l" and "CHR ''='' \<notin> set name" and "name \<noteq> []"
  shows "getopt_long sh tbl ((''--'' @ name) # v # args) =
    (Arg (lo_val l) v # fst (getopt_long sh tbl args), snd (getopt_long sh tbl args))"
proof -
  have "takeWhile (\<lambda>c. c \<noteq> CHR ''='') name = name" using assms(3) by (auto simp: takeWhile_eq_all_conv)
  then have "find_long tbl (takeWhile (\<lambda>c. c \<noteq> CHR ''='') name) = Some l" using assms(1) by (simp only:)
  with assms have "long_option tbl name (v # args) = (Arg (lo_val l) v, args)"
    by (simp add: long_option_def)
  with assms(4) show ?thesis
    by (simp add: getopt_simps(2) [of sh tbl "CHR ''-'' # CHR ''-'' # name"] is_operand_def split_beta)
qed

text \<open>An unknown long option.\<close>

lemma getopt_long_unknown:
  assumes "find_long tbl (takeWhile (\<lambda>c. c \<noteq> CHR ''='') name) = None" and "name \<noteq> []"
  shows "fst (getopt_long sh tbl ((''--'' @ name) # args)) = QMARK # fst (getopt_long sh tbl args)"
  using assms 
  by (simp add: getopt_simps(2) [of sh tbl "CHR ''-'' # CHR ''-'' # name"] is_operand_def long_option_def
      split_beta)

end
