(* ===== verification/Png_path.thy ===== *)
theory Png_path
  imports Clib
begin

text \<open>
  Where previews and debug images are written (\<^verbatim>\<open>png_path.c\<close>): the directory with its fallback below
  \<^verbatim>\<open>/tmp\<close>, and the file names. What \<^verbatim>\<open>access\<close>, \<^verbatim>\<open>stat\<close> and \<^verbatim>\<open>mkdir\<close> answer is a parameter.
\<close>

definition PATH_MAX :: nat where "PATH_MAX = 4096"

lemma PATH_MAX_int [code_unfold]: "PATH_MAX \<le> n \<longleftrightarrow> 4096 \<le> int n"
  by (simp add: PATH_MAX_def)

datatype mkdir_result = Made | Already_there | Not_made

record png_env =
  pe_exists :: "cstr \<Rightarrow> bool"
  pe_writable :: "cstr \<Rightarrow> bool"
  pe_isdir :: "cstr \<Rightarrow> bool"
  pe_mkdir :: "cstr \<Rightarrow> mkdir_result"
  pe_pid :: int

record png_state =
  png_output_dir :: cstr
  png_path_explicitly_set :: bool

definition png_default :: cstr where "png_default = ''pngs/''"

definition is_dir_writable :: "png_env \<Rightarrow> cstr \<Rightarrow> bool" where
  "is_dir_writable env path \<longleftrightarrow>
     path \<noteq> [] \<and> pe_exists env path \<and> pe_writable env path \<and> pe_isdir env path"

text \<open>True for the return value 0.\<close>

definition ensure_directory :: "png_env \<Rightarrow> cstr \<Rightarrow> bool" where
  "ensure_directory env path =
     (if path = [] then False
      else if length path \<ge> PATH_MAX then False
      else
        let path_copy = (if last path = CHR ''/'' then butlast path else path)
        in if is_dir_writable env path_copy then True
           else (case pe_mkdir env path_copy of
                   Made \<Rightarrow> True
                 | Already_there \<Rightarrow> is_dir_writable env path_copy
                 | Not_made \<Rightarrow> False))"

definition fallback_path :: "png_env \<Rightarrow> cstr" where
  "fallback_path env = ''/tmp/srt2dvbsub.'' @ show_int (pe_pid env) @ ''.pngs/''"

definition init_png_path :: "png_env \<Rightarrow> cstr option \<Rightarrow> png_state \<Rightarrow> int \<times> png_state" where
  "init_png_path env custom_path st =
     (if png_path_explicitly_set st \<and> custom_path = None then (0, st)
      else
        let target_path = (case custom_path of Some p \<Rightarrow> p | None \<Rightarrow> png_default)
        in if ensure_directory env target_path then
             (if length target_path \<ge> PATH_MAX then (- 1, st)
              else (0, st\<lparr>png_output_dir := target_path,
                          png_path_explicitly_set := png_path_explicitly_set st \<or> custom_path \<noteq> None\<rparr>))
           else if custom_path \<noteq> None then
             (if ensure_directory env (fallback_path env) then
                (0, st\<lparr>png_output_dir := fallback_path env, png_path_explicitly_set := True\<rparr>)
              else (- 1, st))
           else if \<not> ensure_directory env (fallback_path env) then
             (0, st\<lparr>png_output_dir := fallback_path env\<rparr>)
           else (- 1, st))"

definition cleanup_png_path :: "png_state \<Rightarrow> png_state" where
  "cleanup_png_path st = st\<lparr>png_output_dir := png_default, png_path_explicitly_set := False\<rparr>"

text \<open>The remainder in C has the sign of the dividend.\<close>

definition c_rem :: "int \<Rightarrow> int \<Rightarrow> int" where
  "c_rem a b = (if a < 0 then - (- a mod b) else a mod b)"

text \<open>\<^verbatim>\<open>%0wd\<close>.\<close>

definition int_pad :: "nat \<Rightarrow> int \<Rightarrow> cstr" where
  "int_pad w v = (if v < 0 then CHR ''-'' # dec_pad (w - 1) (nat (- v)) else dec_pad w (nat v))"

definition clamp :: "int \<Rightarrow> int \<Rightarrow> int \<Rightarrow> int" where
  "clamp lo hi v = (if v < lo then lo else if v > hi then hi else v)"

text \<open>The name that fits into the buffer, or \<open>None\<close> for the return value -1.\<close>

definition make_png_filename :: "png_state \<Rightarrow> nat \<Rightarrow> int \<Rightarrow> int \<Rightarrow> int \<Rightarrow> cstr option" where
  "make_png_filename st output_len sequence track cue =
     (if output_len = 0 then None
      else
        let safe_seq = c_rem sequence 1000; safe_track = clamp 0 7 track; safe_cue = clamp 0 999 cue;
            dir = png_output_dir st;
            name = (dir @ (if dir \<noteq> [] \<and> last dir \<noteq> CHR ''/'' then ''/'' else []) @
                    ''srt_'' @ int_pad 3 safe_seq @ ''_t'' @ int_pad 2 safe_track @
                    ''_c'' @ int_pad 3 safe_cue @ ''.png'')
        in if length name \<ge> output_len then None else Some name)"

subsection \<open>File names\<close>

lemma dec_pad_exact: "n < 10 ^ w \<Longrightarrow> 0 < w \<Longrightarrow> length (dec_pad w n) = w"
proof -
  assume n: "n < 10 ^ w" and w: "0 < w"
  have "length (dec n) \<le> w" using n w
  proof (induction n arbitrary: w rule: dec.induct)
    case (1 n)
    show ?case
    proof (cases "n < 10")
      case True
      with 1 show ?thesis by (simp add: dec.simps [of n])
    next
      case False
      with 1(2,3) obtain v where v: "w = Suc v" "0 < v" by (cases w; cases "w - 1") auto
      with 1(2) have "n div 10 < 10 ^ v" by (simp add: less_mult_imp_div_less mult.commute)
      from 1(1) [OF False this v(2)] False v show ?thesis by (simp add: dec.simps [of n])
    qed
  qed
  then show ?thesis by (simp add: dec_pad_def)
qed

lemma digits_val_dec_pad: "digits_val (dec_pad w n) = int n"
proof -
  have "digits_val (replicate k (CHR ''0'') @ ds) = digits_val ds" for k ds
    by (induction k) (simp_all add: digits_val_def digit_val_def code_def)
  then show ?thesis by (simp add: dec_pad_def digits_val_dec)
qed

lemma dec_pad_inject: "dec_pad w m = dec_pad w n \<longleftrightarrow> m = n"
  by (metis digits_val_dec_pad of_nat_eq_iff)

text \<open>The file names of previews clash exactly where the sequence numbers agree modulo 1000, and the
  tracks and the cues agree up to the limits 7 and 999: two previews made within a thousand of each
  other never overwrite one another, and a name that does not fit into the buffer is refused.\<close>

lemma png_names_clash:
  assumes "make_png_filename st n s t c = Some f" and "make_png_filename st n s' t' c' = Some f'"
    and "0 \<le> s" and "0 \<le> s'"
  shows "length f < n \<and>
    (f = f' \<longleftrightarrow>
      s mod 1000 = s' mod 1000 \<and> clamp 0 7 t = clamp 0 7 t' \<and> clamp 0 999 c = clamp 0 999 c')"
proof -
  have rng: "nat (clamp 0 7 x) < 10 ^ 2" "nat (clamp 0 999 x) < 10 ^ 3" "nat (x mod 1000) < 10 ^ 3" for x
    by (auto simp: clamp_def)
  have len: "length (dec_pad 2 (nat (clamp 0 7 x))) = 2" "length (dec_pad 3 (nat (clamp 0 999 x))) = 3"
    "length (dec_pad 3 (nat (x mod 1000))) = 3" for x
    by (rule dec_pad_exact; use rng in simp)+
  have nn: "0 \<le> clamp 0 7 x" "0 \<le> clamp 0 999 x" for x by (simp_all add: clamp_def)
  have pad: "int_pad w v = dec_pad w (nat v)" if "0 \<le> v" for w v using that by (simp add: int_pad_def)
  have "f = f' \<longleftrightarrow>
    s mod 1000 = s' mod 1000 \<and> clamp 0 7 t = clamp 0 7 t' \<and> clamp 0 999 c = clamp 0 999 c'"
    using assms nn [of t] nn [of t'] nn [of c] nn [of c']
    by (auto simp: make_png_filename_def Let_def c_rem_def pad len dec_pad_inject eq_nat_nat_iff
        split: if_splits)
  moreover have "length f < n"
    using assms(1) unfolding make_png_filename_def Let_def by (auto split: if_splits)
  ultimately show ?thesis by blast
qed

lemma png_names_clash_example:
  "make_png_filename \<lparr>png_output_dir = ''out'', png_path_explicitly_set = True\<rparr> 64 999 0 999 =
     Some ''out/srt_999_t00_c999.png'' \<and>
   make_png_filename \<lparr>png_output_dir = ''out'', png_path_explicitly_set = True\<rparr> 64 1999 0 1999 =
     Some ''out/srt_999_t00_c999.png'' \<and>
   length ''out/srt_999_t00_c999.png'' < 64 \<and> clamp 0 999 999 = clamp 0 999 1999"
proof -
  let ?st = "\<lparr>png_output_dir = ''out'', png_path_explicitly_set = True\<rparr>"
  have a: "make_png_filename ?st 64 999 0 999 = Some ''out/srt_999_t00_c999.png''"
    and b: "make_png_filename ?st 64 1999 0 1999 = Some ''out/srt_999_t00_c999.png''"
    by (simp_all add: make_png_filename_def c_rem_def clamp_def int_pad_def dec_pad_def dec.simps
        digit_char_def char_of_def bit_0)
  from png_names_clash [OF a b] a b show ?thesis by simp
qed

text \<open>With a path from the command line, success means a directory that could be made ready: the given
  one or the fallback.\<close>

lemma init_png_path_custom:
  "init_png_path env (Some p) st = (0, st') \<Longrightarrow>
   ensure_directory env (png_output_dir st') \<and> png_output_dir st' \<in> {p, fallback_path env} \<and>
   png_path_explicitly_set st'"
  by (auto simp: init_png_path_def Let_def split: if_splits)

text \<open>A system where only \<^verbatim>\<open>/tmp\<close> can be written.\<close>

definition sample_png_env :: png_env where
  "sample_png_env =
     \<lparr>pe_exists = \<lambda>p. p = ''/tmp'', pe_writable = \<lambda>p. p = ''/tmp'', pe_isdir = \<lambda>p. p = ''/tmp'',
      pe_mkdir = \<lambda>p. if p = ''/tmp/srt2dvbsub.7.pngs'' then Made else Not_made, pe_pid = 7\<rparr>"

text \<open>Where the default directory for images cannot be made ready, \<^verbatim>\<open>init_png_path\<close> tests the fallback
  the wrong way round: it reports success exactly if the fallback cannot be used either, and then
  selects it; where the fallback is fine, the call fails and leaves the state alone.\<close>

lemma png_fallback_inverted:
  assumes "init_png_path env None st = (r, st')" and "\<not> png_path_explicitly_set st"
    and "\<not> ensure_directory env png_default"
  shows "if ensure_directory env (fallback_path env) then r = - 1 \<and> st' = st
    else r = 0 \<and> \<not> ensure_directory env (png_output_dir st')"
  using assms by (auto simp: init_png_path_def Let_def split: if_splits)

lemma png_fallback_inverted_example:
  "\<exists>r st'. init_png_path sample_png_env None \<lparr>png_output_dir = png_default, png_path_explicitly_set = False\<rparr> =
     (r, st') \<and> \<not> ensure_directory sample_png_env png_default \<and>
     ensure_directory sample_png_env (fallback_path sample_png_env) \<and> r = - 1"
proof -
  let ?st = "\<lparr>png_output_dir = png_default, png_path_explicitly_set = False\<rparr>"
  have f: "ensure_directory sample_png_env (fallback_path sample_png_env)" and d: "\<not> ensure_directory sample_png_env png_default"
    by (simp_all add: sample_png_env_def ensure_directory_def fallback_path_def png_default_def PATH_MAX_def
        is_dir_writable_def show_int_def dec.simps digit_char_def char_of_def bit_0)
  obtain r st' where i: "init_png_path sample_png_env None ?st = (r, st')" by (rule prod.exhaust)
  from png_fallback_inverted [OF i _ d] f d i show ?thesis by simp
qed

end
