(* ===== verification/Cli.thy ===== *)
theory Cli
  imports Positions Getopt Png_path
begin

text \<open>
  The command line of \<^verbatim>\<open>srt2dvbsub\<close>: the global options of \<^verbatim>\<open>runtime_opts.c\<close> with their defaults, one
  definition per group of cases of the switch in \<^verbatim>\<open>cli_parse\<close>, and the checks after it. A handler gives the options afterwards and, where the code
  returns, the return value. The lemmas show that whatever is accepted is well formed, and how a
  command line that other code has put together is read.
\<close>

subsection \<open>Options\<close>

datatype TsBitrateMode = TS_BITRATE_MODE_UNSPECIFIED | TS_BITRATE_MODE_AUTO | TS_BITRATE_MODE_FIXED

text \<open>The globals, which live as long as the process, with the margins of \<^verbatim>\<open>srt2dvbsub.c\<close> and the state of
  \<^verbatim>\<open>png_path.c\<close>.\<close>

record runtime_opts =
  enc_threads :: int
  render_threads :: int
  ssaa_override :: int
  no_unsharp :: bool
  debug_level :: int
  use_ass :: bool
  video_w :: int
  video_h :: int
  pid_list :: "cstr option"
  overwrite_subs :: bool
  overwrite_langs :: "cstr option"
  preserve_pids :: bool
  ts_bitrate_mode :: TsBitrateMode
  ts_bitrate :: int
  png_only :: bool
  sub_position_spec :: "cstr option"
  margin_override_top :: double
  margin_override_left :: double
  margin_override_bottom :: double
  margin_override_right :: double
  png_dir :: png_state

text \<open>The variables of one run.\<close>

record cli_args = runtime_opts +
  in_path :: "cstr option"
  out_path :: "cstr option"
  srt_list :: "cstr option"
  lang_list :: "cstr option"
  forced_list :: "cstr option"
  hi_list :: "cstr option"
  qc_only :: bool
  bench_mode :: bool
  palette_mode :: cstr
  subtitle_delay_ms :: int
  subtitle_delay_list :: "cstr option"
  cli_fontsize :: int
  cli_font :: cstr
  cli_font_style :: "cstr option"
  cli_fgcolor :: cstr
  cli_outlinecolor :: cstr
  cli_shadowcolor :: cstr
  cli_bgcolor :: "cstr option"

record cli_env =
  ce_alloc :: "nat \<Rightarrow> bool"
  ce_nproc :: int
  ce_png :: png_env
  ce_libass :: bool
  ce_fontlist :: "int option"

definition default_opts :: runtime_opts where
  "default_opts =
     \<lparr>enc_threads = 0, render_threads = 8, ssaa_override = 4, no_unsharp = False, debug_level = 0,
      use_ass = False, video_w = 720, video_h = 480, pid_list = None, overwrite_subs = False,
      overwrite_langs = None, preserve_pids = True, ts_bitrate_mode = TS_BITRATE_MODE_UNSPECIFIED,
      ts_bitrate = 0, png_only = False, sub_position_spec = None, margin_override_top = Num (- 1),
      margin_override_left = Num (- 1), margin_override_bottom = Num (- 1),
      margin_override_right = Num (- 1),
      png_dir = \<lparr>png_output_dir = png_default, png_path_explicitly_set = False\<rparr>\<rparr>"

definition cli_start :: "runtime_opts \<Rightarrow> cli_args" where
  "cli_start g =
     runtime_opts.extend g
       (cli_args.fields None None None None None None False False ''broadcast'' 0 None 0 ''Open Sans''
          None ''#FFFFFF'' ''#000000'' ''#64000000'' None)"

subsection \<open>Helpers\<close>

definition get_cpu_count :: "int \<Rightarrow> int" where
  "get_cpu_count n = (if n > 0 then to_int32 n else 1)"

text \<open>True for the return value 0.\<close>

definition validate_path_length :: "cstr \<Rightarrow> bool" where
  "validate_path_length path = (if path = [] then True else if length path \<ge> PATH_MAX then False else True)"

definition replace_strdup :: "(nat \<Rightarrow> bool) \<Rightarrow> cstr \<Rightarrow> cstr option" where
  "replace_strdup alloc src = (if alloc (length src + 1) then Some src else None)"

subsection \<open>The handlers of the options\<close>

type_synonym handled = "int option \<times> cli_args"

abbreviation go_on :: "cli_args \<Rightarrow> handled" where "go_on a \<equiv> (None, a)"
abbreviation leave :: "int \<Rightarrow> cli_args \<Rightarrow> handled" where "leave r a \<equiv> (Some r, a)"

definition opt_paths :: "cli_env \<Rightarrow> int \<Rightarrow> cstr \<Rightarrow> cli_args \<Rightarrow> handled" where
  "opt_paths env opt optarg a =
     (if opt = 73 then
        (if \<not> validate_path_length optarg then leave 1 a else go_on (a\<lparr>in_path := Some optarg\<rparr>))
      else if opt = 111 then
        (if \<not> validate_path_length optarg then leave 1 a else go_on (a\<lparr>out_path := Some optarg\<rparr>))
      else if opt = 115 then
        (if \<not> validate_path_length optarg then leave 1 a
         else if \<not> ce_alloc env (length optarg + 1) then leave 1 (a\<lparr>srt_list := None\<rparr>)
         else go_on (a\<lparr>srt_list := Some optarg\<rparr>))
      else
        (if \<not> ce_alloc env (length optarg + 1) then leave 1 (a\<lparr>lang_list := None\<rparr>)
         else go_on (a\<lparr>lang_list := Some optarg\<rparr>)))"

definition opt_flag :: "cli_env \<Rightarrow> int \<Rightarrow> cli_args \<Rightarrow> handled" where
  "opt_flag env opt a =
     (if opt = 104 \<or> opt = 63 then leave 0 a
      else if opt = 1003 then go_on (a\<lparr>qc_only := True\<rparr>)
      else if opt = 1004 then go_on (a\<lparr>bench_mode := True\<rparr>)
      else if opt = 1006 \<and> ce_libass env then go_on (a\<lparr>use_ass := True\<rparr>)
      else if opt = 1019 then
        (case ce_fontlist env of None \<Rightarrow> leave 1 a | Some rc \<Rightarrow> leave (if rc = 0 then 0 else 1) a)
      else if opt = 1016 then go_on (a\<lparr>no_unsharp := True\<rparr>)
      else if opt = 1025 then go_on (a\<lparr>png_only := True\<rparr>)
      else if opt = 1031 then go_on (a\<lparr>preserve_pids := False\<rparr>)
      else if opt = 1017 then leave 0 a
      else leave 1 a)"

definition opt_text :: "cli_env \<Rightarrow> int \<Rightarrow> cstr \<Rightarrow> cli_args \<Rightarrow> handled" where
  "opt_text env opt optarg a =
     (if opt = 1002 then go_on (a\<lparr>debug_level := atoi optarg\<rparr>)
      else
        (case replace_strdup (ce_alloc env) optarg of
           None \<Rightarrow> leave 1 a
         | Some dup \<Rightarrow>
             go_on
               (if opt = 1000 then a\<lparr>forced_list := Some dup\<rparr>
                else if opt = 1001 then a\<lparr>hi_list := Some dup\<rparr>
                else if opt = 1005 then a\<lparr>palette_mode := dup\<rparr>
                else if opt = 1007 then a\<lparr>cli_font := dup\<rparr>
                else a\<lparr>cli_font_style := Some dup\<rparr>)))"

definition opt_fontsize :: "cstr \<Rightarrow> cli_args \<Rightarrow> handled" where
  "opt_fontsize optarg a =
     (case validate_fontsize optarg of None \<Rightarrow> leave 1 a | Some n \<Rightarrow> go_on (a\<lparr>cli_fontsize := n\<rparr>))"

definition opt_position :: "cli_env \<Rightarrow> cstr \<Rightarrow> cli_args \<Rightarrow> handled" where
  "opt_position env optarg a =
     (if ce_alloc env (length optarg + 1) then go_on (a\<lparr>sub_position_spec := Some optarg\<rparr>)
      else leave 1 (a\<lparr>sub_position_spec := None\<rparr>))"

definition opt_margin :: "int \<Rightarrow> cstr \<Rightarrow> cli_args \<Rightarrow> handled" where
  "opt_margin opt optarg a =
     (case strtod optarg of (val, endptr, erange) \<Rightarrow>
        if erange \<or> endptr = optarg \<or> endptr \<noteq> [] \<or> dbl_less val (Num 0) \<or> dbl_less (Num 50) val
        then leave 1 a
        else go_on
          (if opt = 1026 then a\<lparr>margin_override_top := val\<rparr>
           else if opt = 1027 then a\<lparr>margin_override_left := val\<rparr>
           else if opt = 1028 then a\<lparr>margin_override_bottom := val\<rparr>
           else a\<lparr>margin_override_right := val\<rparr>))"

definition opt_color :: "cli_env \<Rightarrow> int \<Rightarrow> cstr \<Rightarrow> cli_args \<Rightarrow> handled" where
  "opt_color env opt optarg a =
     (if \<not> validate_color optarg then leave 1 a
      else
        (case replace_strdup (ce_alloc env) optarg of
           None \<Rightarrow> leave 1 a
         | Some dup \<Rightarrow>
             go_on
               (if opt = 1009 then a\<lparr>cli_fgcolor := dup\<rparr>
                else if opt = 1010 then a\<lparr>cli_outlinecolor := dup\<rparr>
                else if opt = 1011 then a\<lparr>cli_shadowcolor := dup\<rparr>
                else a\<lparr>cli_bgcolor := Some dup\<rparr>)))"

definition opt_delay :: "cli_env \<Rightarrow> cstr \<Rightarrow> cli_args \<Rightarrow> handled" where
  "opt_delay env optarg a =
     (case parse_single_delay (ce_alloc env) optarg of
        Inl _ \<Rightarrow> leave 1 a
      | Inr parsed_delay \<Rightarrow>
          if \<not> ce_alloc env (length optarg + 1) then leave 1 (a\<lparr>subtitle_delay_ms := parsed_delay\<rparr>)
          else go_on (a\<lparr>subtitle_delay_ms := parsed_delay, subtitle_delay_list := Some optarg\<rparr>))"

text \<open>The number of threads; \<open>fallback\<close> stands in for an unknown number of processors.\<close>

definition reasonable_max :: "int \<Rightarrow> int \<Rightarrow> int" where
  "reasonable_max fallback cpus =
     (let max_threads = (if cpus \<le> 0 then fallback else cpus)
      in if max_threads > 1 then to_int32 (max_threads * 2) else 4)"

definition bound_threads :: "int \<Rightarrow> int \<Rightarrow> int" where
  "bound_threads mx n = (if n < 0 then 0 else if n > mx then mx else n)"

definition opt_enc_threads :: "cli_env \<Rightarrow> cstr \<Rightarrow> cli_args \<Rightarrow> handled" where
  "opt_enc_threads env optarg a =
     go_on (a\<lparr>enc_threads := bound_threads (reasonable_max 1 (get_cpu_count (ce_nproc env))) (atoi optarg)\<rparr>)"

definition opt_render_threads :: "cli_env \<Rightarrow> cstr \<Rightarrow> cli_args \<Rightarrow> handled" where
  "opt_render_threads env optarg a =
     go_on (a\<lparr>render_threads := bound_threads (reasonable_max 16 (get_cpu_count (ce_nproc env))) (atoi optarg)\<rparr>)"

definition opt_png_dir :: "cli_env \<Rightarrow> cstr \<Rightarrow> cli_args \<Rightarrow> handled" where
  "opt_png_dir env optarg a =
     (case init_png_path (ce_png env) (Some optarg) (png_dir a) of (ret, st) \<Rightarrow>
        if ret \<noteq> 0 then leave 1 (a\<lparr>png_dir := st\<rparr>) else go_on (a\<lparr>png_dir := st\<rparr>))"

definition opt_pid :: "cli_env \<Rightarrow> cstr \<Rightarrow> cli_args \<Rightarrow> handled" where
  "opt_pid env optarg a =
     (if ce_alloc env (length optarg + 1) then go_on (a\<lparr>pid_list := Some optarg\<rparr>)
      else leave 1 (a\<lparr>pid_list := None\<rparr>))"

definition opt_bitrate :: "cstr \<Rightarrow> cli_args \<Rightarrow> handled" where
  "opt_bitrate optarg a =
     (if strcasecmp_eq optarg ''auto'' then go_on (a\<lparr>ts_bitrate_mode := TS_BITRATE_MODE_AUTO\<rparr>)
      else
        (case strtol optarg of (bitrate_val, endptr, erange) \<Rightarrow>
           if erange \<or> endptr = optarg \<or> endptr \<noteq> [] \<or> bitrate_val \<le> 0 then leave 1 a
           else if bitrate_val < 100000 \<or> bitrate_val > 1000000000 then leave 1 a
           else go_on (a\<lparr>ts_bitrate := bitrate_val, ts_bitrate_mode := TS_BITRATE_MODE_FIXED\<rparr>)))"

definition opt_overwrite :: "cli_env \<Rightarrow> cstr \<Rightarrow> cli_args \<Rightarrow> handled" where
  "opt_overwrite env optarg a0 =
     (let a = a0\<lparr>overwrite_subs := True\<rparr>
      in if optarg = [] then leave 1 a
         else if strcasecmp_eq optarg ''all'' \<or> optarg = ''*'' then go_on (a\<lparr>overwrite_langs := None\<rparr>)
         else if validate_language_list (ce_alloc env) optarg \<noteq> None then leave 1 a
         else (case replace_strdup (ce_alloc env) optarg of
                 None \<Rightarrow> leave 1 a
               | Some dup \<Rightarrow> go_on (a\<lparr>overwrite_langs := Some dup\<rparr>)))"

subsection \<open>The command line\<close>

definition long_opts :: "cli_env \<Rightarrow> long_opt list" where
  "long_opts env =
     map (\<lambda>(n, a, v). \<lparr>lo_name = n, lo_arg = a, lo_val = v\<rparr>)
       ([(''input'', True, 73), (''output'', True, 111), (''srt'', True, 115), (''languages'', True, 108),
         (''forced'', True, 1000), (''hi'', True, 1001), (''debug'', True, 1002), (''qc-only'', False, 1003),
         (''bench'', False, 1004), (''palette'', True, 1005)] @
        (if ce_libass env then [(''ass'', False, 1006)] else []) @
        [(''list-fonts'', False, 1019), (''font'', True, 1007), (''font-size'', True, 1008),
         (''sub-position'', True, 1022), (''margin-top'', True, 1026), (''margin-left'', True, 1027),
         (''margin-bottom'', True, 1028), (''margin-right'', True, 1029), (''fg-color'', True, 1009),
         (''outline-color'', True, 1010), (''shadow-color'', True, 1011), (''bg-color'', True, 1021),
         (''delay'', True, 1012), (''enc-threads'', True, 1013), (''render-threads'', True, 1014),
         (''ssaa'', True, 1015), (''no-unsharp'', False, 1016), (''font-style'', True, 1018),
         (''png-dir'', True, 1020), (''pid'', True, 1023), (''ts-bitrate'', True, 1024),
         (''png-only'', False, 1025), (''overwrite'', True, 1032), (''no-preserve-pids'', False, 1031),
         (''license'', False, 1017), (''help'', False, 104), (''?'', False, 63)])"

definition short_opts :: "(char \<times> bool) list" where
  "short_opts =
     [(CHR ''I'', True), (CHR ''o'', True), (CHR ''s'', True), (CHR ''l'', True), (CHR ''h'', False),
      (CHR ''?'', False)]"

definition opt_with_arg :: "cli_env \<Rightarrow> int \<Rightarrow> cstr \<Rightarrow> cli_args \<Rightarrow> handled" where
  "opt_with_arg env opt optarg a =
     (if opt \<in> {73, 111, 115, 108} then opt_paths env opt optarg a
      else if opt \<in> {1000, 1001, 1002, 1005, 1007, 1018} then opt_text env opt optarg a
      else if opt = 1008 then opt_fontsize optarg a
      else if opt = 1022 then opt_position env optarg a
      else if opt \<in> {1026, 1027, 1028, 1029} then opt_margin opt optarg a
      else if opt \<in> {1009, 1010, 1011, 1021} then opt_color env opt optarg a
      else if opt = 1012 then opt_delay env optarg a
      else if opt = 1013 then opt_enc_threads env optarg a
      else if opt = 1014 then opt_render_threads env optarg a
      else if opt = 1015 then go_on (a\<lparr>ssaa_override := atoi optarg\<rparr>)
      else if opt = 1020 then opt_png_dir env optarg a
      else if opt = 1023 then opt_pid env optarg a
      else if opt = 1024 then opt_bitrate optarg a
      else if opt = 1032 then opt_overwrite env optarg a
      else leave 1 a)"

definition cli_option :: "cli_env \<Rightarrow> opt_event \<Rightarrow> cli_args \<Rightarrow> handled" where
  "cli_option env e a =
     (case e of Flag opt \<Rightarrow> opt_flag env opt a | Arg opt optarg \<Rightarrow> opt_with_arg env opt optarg a)"

fun option_loop :: "(opt_event \<Rightarrow> cli_args \<Rightarrow> handled) \<Rightarrow> opt_event list \<Rightarrow> cli_args \<Rightarrow> handled" where
  "option_loop handle [] a = go_on a"
| "option_loop handle (e # es) a =
     (case handle e a of (None, a') \<Rightarrow> option_loop handle es a' | (Some r, a') \<Rightarrow> leave r a')"

text \<open>\<^verbatim>\<open>-srt FILE\<close> arrives as the option \<^verbatim>\<open>-s rt\<close> and an operand.\<close>

definition correct_srt :: "cli_env \<Rightarrow> cstr list \<Rightarrow> cli_args \<Rightarrow> handled" where
  "correct_srt env operands a =
     (if srt_list a = Some ''rt'' then
        (case operands of
           [] \<Rightarrow> go_on a
         | path # _ \<Rightarrow>
             if path \<noteq> [] \<and> hd path = CHR ''-'' then go_on a
             else if \<not> validate_path_length path then leave 1 a
             else if \<not> ce_alloc env (length path + 1) then leave 1 a
             else go_on (a\<lparr>srt_list := Some path\<rparr>))
      else go_on a)"

definition required_missing :: "cli_args \<Rightarrow> bool" where
  "required_missing a \<longleftrightarrow>
     (if qc_only a \<or> png_only a then srt_list a = None \<or> lang_list a = None
      else in_path a = None \<or> out_path a = None \<or> srt_list a = None \<or> lang_list a = None)"

definition reset_margins :: "cli_args \<Rightarrow> cli_args" where
  "reset_margins a =
     a\<lparr>margin_override_top := Num (- 1), margin_override_left := Num (- 1),
       margin_override_bottom := Num (- 1), margin_override_right := Num (- 1)\<rparr>"

text \<open>What follows the loop over the options.\<close>

definition after_options :: "cli_env \<Rightarrow> cstr list \<Rightarrow> handled \<Rightarrow> int \<times> cli_args" where
  "after_options env operands h =
     (case h of
        (Some r, a) \<Rightarrow> (r, a)
      | (None, a) \<Rightarrow>
          (case correct_srt env operands a of
             (Some r, a1) \<Rightarrow> (r, a1)
           | (None, a1) \<Rightarrow>
               if required_missing a1 then (1, a1)
               else if validate_language_list (ce_alloc env) (the (lang_list a1)) \<noteq> None then (1, a1)
               else (- 1, a1)))"

text \<open>The arguments are those after the name of the program.\<close>

definition cli_parse :: "cli_env \<Rightarrow> cstr list \<Rightarrow> cli_args \<Rightarrow> int \<times> cli_args" where
  "cli_parse env args a0 =
     (case getopt_long short_opts (long_opts env) args of (events, operands) \<Rightarrow>
        after_options env operands (option_loop (cli_option env) events (reset_margins a0)))"

subsection \<open>What is accepted is well formed\<close>

text \<open>The contract of a handler: it keeps an invariant that may depend on whether the loop goes on.\<close>

locale option_handler =
  fixes handle :: "opt_event \<Rightarrow> cli_args \<Rightarrow> handled" and inv :: "int option \<Rightarrow> cli_args \<Rightarrow> bool"
  assumes keeps: "inv None a \<Longrightarrow> case_prod inv (handle e a)"
begin

lemma loop_keeps: "inv None a \<Longrightarrow> case_prod inv (option_loop handle es a)"
proof (induction es arbitrary: a)
  case (Cons e es)
  obtain r a' where h: "handle e a = (r, a')" by (rule prod.exhaust)
  with keeps [OF Cons.prems, of e] have "inv r a'" by simp
  with Cons.IH h show ?case by (cases r) simp_all
qed simp

end

lemma option_loop_append:
  "option_loop handle (es @ fs) a =
     (case option_loop handle es a of (None, a') \<Rightarrow> option_loop handle fs a' | (Some r, a') \<Rightarrow> leave r a')"
  by (induction es arbitrary: a) (auto split: prod.splits option.splits)

text \<open>Twice the processors, and at least four or the default; the doubling does not overflow for fewer than
  a billion of them.\<close>

definition threads_ok :: "cli_env \<Rightarrow> int \<Rightarrow> int \<Rightarrow> bool" where
  "threads_ok env dflt n \<longleftrightarrow>
     (ce_nproc env < 1073741824 \<longrightarrow> 0 \<le> n \<and> n \<le> max dflt (max 4 (2 * ce_nproc env)))"

fun overwrite_ok :: "cli_env \<Rightarrow> bool \<Rightarrow> cstr option \<Rightarrow> bool" where
  "overwrite_ok env subs None \<longleftrightarrow> True"
| "overwrite_ok env subs (Some l) \<longleftrightarrow> subs \<and> l \<noteq> [] \<and> validate_language_list (ce_alloc env) l = None"

fun delay_ok :: "cli_env \<Rightarrow> cstr option \<Rightarrow> int \<Rightarrow> bool" where
  "delay_ok env None ms \<longleftrightarrow> ms = 0"
| "delay_ok env (Some l) ms \<longleftrightarrow> parse_single_delay (ce_alloc env) l = Inr ms"

definition opts_ok :: "cli_env \<Rightarrow> cli_args \<Rightarrow> bool" where
  "opts_ok env a \<longleftrightarrow>
     threads_ok env 0 (enc_threads a) \<and> threads_ok env 8 (render_threads a) \<and>
     margin_ok (margin_override_top a) \<and> margin_ok (margin_override_left a) \<and>
     margin_ok (margin_override_bottom a) \<and> margin_ok (margin_override_right a) \<and>
     (ts_bitrate_mode a = TS_BITRATE_MODE_FIXED \<longrightarrow> 100000 \<le> ts_bitrate a \<and> ts_bitrate a \<le> 1000000000) \<and>
     overwrite_ok env (overwrite_subs a) (overwrite_langs a)"

definition args_ok :: "cli_env \<Rightarrow> cli_args \<Rightarrow> bool" where
  "args_ok env a \<longleftrightarrow>
     (cli_fontsize a = 0 \<or> 6 \<le> cli_fontsize a \<and> cli_fontsize a \<le> 200) \<and>
     validate_color (cli_fgcolor a) \<and> validate_color (cli_outlinecolor a) \<and>
     validate_color (cli_shadowcolor a) \<and> pred_option validate_color (cli_bgcolor a) \<and>
     delay_ok env (subtitle_delay_list a) (subtitle_delay_ms a) \<and>
     pred_option (\<lambda>p. length p < PATH_MAX) (in_path a) \<and>
     pred_option (\<lambda>p. length p < PATH_MAX) (out_path a) \<and>
     pred_option (\<lambda>p. length p < PATH_MAX) (srt_list a)"

definition cli_inv :: "cli_env \<Rightarrow> int option \<Rightarrow> cli_args \<Rightarrow> bool" where
  "cli_inv env r a \<longleftrightarrow> r \<in> {None, Some 0, Some 1} \<and> opts_ok env a \<and> (r = None \<longrightarrow> args_ok env a)"

named_theorems cli_keeps

lemma validate_path_length_iff: "validate_path_length p \<longleftrightarrow> length p < PATH_MAX"
  by (auto simp: validate_path_length_def PATH_MAX_def)

lemma opt_paths_keeps [cli_keeps]: "cli_inv env None a \<Longrightarrow> case_prod (cli_inv env) (opt_paths env opt arg a)"
  by (simp add: opt_paths_def cli_inv_def opts_ok_def args_ok_def validate_path_length_iff)

lemma opt_flag_keeps [cli_keeps]: "cli_inv env None a \<Longrightarrow> case_prod (cli_inv env) (opt_flag env opt a)"
  by (simp add: opt_flag_def cli_inv_def opts_ok_def args_ok_def split: option.splits)

lemma opt_text_keeps [cli_keeps]: "cli_inv env None a \<Longrightarrow> case_prod (cli_inv env) (opt_text env opt arg a)"
  by (simp add: opt_text_def cli_inv_def opts_ok_def args_ok_def split: option.splits)

lemma validate_fontsize_range: "validate_fontsize s = Some n \<Longrightarrow> n = 0 \<or> 6 \<le> n \<and> n \<le> 200"
  by (auto simp: validate_fontsize_def split: if_splits prod.splits)

lemma opt_fontsize_keeps [cli_keeps]: "cli_inv env None a \<Longrightarrow> case_prod (cli_inv env) (opt_fontsize arg a)"
  using validate_fontsize_range [of arg]
  by (simp add: opt_fontsize_def cli_inv_def opts_ok_def args_ok_def split: option.splits)

lemma opt_position_keeps [cli_keeps]: "cli_inv env None a \<Longrightarrow> case_prod (cli_inv env) (opt_position env arg a)"
  by (simp add: opt_position_def cli_inv_def opts_ok_def args_ok_def)

lemma opt_margin_keeps [cli_keeps]: "cli_inv env None a \<Longrightarrow> case_prod (cli_inv env) (opt_margin opt arg a)"
  by (simp add: opt_margin_def cli_inv_def opts_ok_def args_ok_def margin_range split: prod.splits)

lemma opt_color_keeps [cli_keeps]: "cli_inv env None a \<Longrightarrow> case_prod (cli_inv env) (opt_color env opt arg a)"
  by (auto simp: opt_color_def replace_strdup_def cli_inv_def opts_ok_def args_ok_def)

lemma opt_delay_keeps [cli_keeps]: "cli_inv env None a \<Longrightarrow> case_prod (cli_inv env) (opt_delay env arg a)"
  by (simp add: opt_delay_def cli_inv_def opts_ok_def args_ok_def split: sum.splits)

lemma bound_threads_ok:
  assumes "mx = 1 \<or> mx = 16"
  shows "threads_ok env d (bound_threads (reasonable_max mx (get_cpu_count (ce_nproc env))) n)"
proof -
  have "to_int32 v = v" if "- 2147483648 \<le> v" "v < 2147483648" for v
    using that by (simp add: to_int32_def)
  then show ?thesis using assms
    by (auto simp: threads_ok_def bound_threads_def reasonable_max_def get_cpu_count_def Let_def)
qed

lemma opt_threads_keep [cli_keeps]:
  assumes "cli_inv env None a"
  shows "case_prod (cli_inv env) (opt_enc_threads env arg a)"
    and "case_prod (cli_inv env) (opt_render_threads env arg a)"
  using assms
  by (simp_all add: opt_enc_threads_def opt_render_threads_def cli_inv_def opts_ok_def args_ok_def
      bound_threads_ok)

lemma opt_misc_keep [cli_keeps]:
  assumes "cli_inv env None a"
  shows "cli_inv env None (a\<lparr>ssaa_override := n\<rparr>)"
    and "case_prod (cli_inv env) (opt_png_dir env arg a)"
    and "case_prod (cli_inv env) (opt_pid env arg a)"
    and "case_prod (cli_inv env) (opt_bitrate arg a)"
  using assms
  by (simp_all add: opt_png_dir_def opt_pid_def opt_bitrate_def cli_inv_def opts_ok_def args_ok_def
      split: prod.splits)

lemma overwrite_ok_on: "overwrite_ok env subs l \<Longrightarrow> overwrite_ok env True l"
  by (cases l) simp_all

lemma opt_overwrite_keeps [cli_keeps]:
  assumes "cli_inv env None a"
  shows "case_prod (cli_inv env) (opt_overwrite env arg a)"
proof -
  from assms have "overwrite_ok env True (overwrite_langs a)"
    using overwrite_ok_on [of env "overwrite_subs a" "overwrite_langs a"] by (simp add: cli_inv_def opts_ok_def)
  with assms show ?thesis
    by (simp add: opt_overwrite_def replace_strdup_def cli_inv_def opts_ok_def args_ok_def Let_def)
qed

interpretation cli: option_handler "cli_option env" "cli_inv env" for env
proof
  fix a e
  assume a: "cli_inv env None a"
  then have "cli_inv env (Some 1) a" by (simp add: cli_inv_def)
  with a show "case_prod (cli_inv env) (cli_option env e a)"
    by (cases e) (simp_all add: cli_option_def opt_with_arg_def cli_keeps)
qed

lemma correct_srt_keeps:
  "cli_inv env None a \<Longrightarrow> case_prod (cli_inv env) (correct_srt env ops a)"
  by (cases "srt_list a = Some ''rt''"; cases ops)
    (simp_all add: correct_srt_def cli_inv_def opts_ok_def args_ok_def validate_path_length_iff)

lemma reset_margins_ok: "cli_inv env None a \<Longrightarrow> cli_inv env None (reset_margins a)"
  by (simp add: reset_margins_def cli_inv_def opts_ok_def args_ok_def margin_ok_def)

text \<open>The state after \<^verbatim>\<open>cli_parse\<close>, where it returns and where it does not.\<close>

lemma after_options_inv:
  assumes "case_prod (cli_inv env) h" and "after_options env ops h = (r, a)"
  shows "r \<in> {- 1, 0, 1} \<and> opts_ok env a \<and>
    (r = - 1 \<longrightarrow> args_ok env a \<and> \<not> required_missing a \<and>
       validate_language_list (ce_alloc env) (the (lang_list a)) = None)"
proof -
  obtain q b where h: "h = (q, b)" by (rule prod.exhaust)
  obtain q' c where c: "correct_srt env ops b = (q', c)" by (rule prod.exhaust)
  from assms(1) h have b: "cli_inv env q b" by simp
  then have "q = None \<Longrightarrow> cli_inv env q' c" using correct_srt_keeps [of env b ops] c by simp
  with b h c assms(2) show ?thesis
    by (cases q; cases q') (auto simp: after_options_def cli_inv_def split: if_splits)
qed

lemma args_ok_start: "args_ok env (cli_start g)"
  by (simp add: args_ok_def cli_start_def runtime_opts.defs cli_args.defs validate_color_def is_hex_digit_def
      code_def)

lemma opts_ok_default: "opts_ok env (cli_start default_opts)"
  by (simp add: opts_ok_def cli_start_def default_opts_def runtime_opts.defs cli_args.defs margin_ok_def
      threads_ok_def le_max_iff_disj)

lemma cli_inv_start: "opts_ok env (cli_start g) \<Longrightarrow> cli_inv env None (cli_start g)"
  by (simp add: cli_inv_def args_ok_start)


definition sample_cli_env :: cli_env where
  "sample_cli_env = \<lparr>ce_alloc = \<lambda>_. True, ce_nproc = 8, ce_png = sample_png_env, ce_libass = True, ce_fontlist = Some 0\<rparr>"

definition sample_cli :: "cstr list" where
  "sample_cli =
     [''--qc-only'', ''--srt=a.srt'', ''-l'', ''eng'', ''--render-threads'', ''99'']"


subsection \<open>How a command line is read\<close>

lemma long_opts_distinct: "distinct (map lo_name (long_opts env))"
  by (simp add: long_opts_def)

lemma find_long_opts:
  "find_long (long_opts env) ''input'' = Some \<lparr>lo_name = ''input'', lo_arg = True, lo_val = 73\<rparr>"
  "find_long (long_opts env) ''output'' = Some \<lparr>lo_name = ''output'', lo_arg = True, lo_val = 111\<rparr>"
  "find_long (long_opts env) ''srt'' = Some \<lparr>lo_name = ''srt'', lo_arg = True, lo_val = 115\<rparr>"
  "find_long (long_opts env) ''languages'' = Some \<lparr>lo_name = ''languages'', lo_arg = True, lo_val = 108\<rparr>"
  "find_long (long_opts env) ''delay'' = Some \<lparr>lo_name = ''delay'', lo_arg = True, lo_val = 1012\<rparr>"
proof -
  have "find_long (long_opts env) n = Some \<lparr>lo_name = n, lo_arg = b, lo_val = v\<rparr>"
    if "\<lparr>lo_name = n, lo_arg = b, lo_val = v\<rparr> \<in> set (long_opts env)" for n b v
    using find_long_exact [OF long_opts_distinct that] by simp
  then show
    "find_long (long_opts env) ''input'' = Some \<lparr>lo_name = ''input'', lo_arg = True, lo_val = 73\<rparr>"
    "find_long (long_opts env) ''output'' = Some \<lparr>lo_name = ''output'', lo_arg = True, lo_val = 111\<rparr>"
    "find_long (long_opts env) ''srt'' = Some \<lparr>lo_name = ''srt'', lo_arg = True, lo_val = 115\<rparr>"
    "find_long (long_opts env) ''languages'' = Some \<lparr>lo_name = ''languages'', lo_arg = True, lo_val = 108\<rparr>"
    "find_long (long_opts env) ''delay'' = Some \<lparr>lo_name = ''delay'', lo_arg = True, lo_val = 1012\<rparr>"
    by (simp_all add: long_opts_def)
qed

text \<open>Options that are accepted contain no question mark.\<close>

lemma accepted_known: "option_loop (cli_option env) es a = (None, b) \<Longrightarrow> QMARK \<notin> set es"
proof (induction es arbitrary: a)
  case (Cons e es)
  obtain r a' where h: "cli_option env e a = (r, a')" by (rule prod.exhaust)
  with Cons.prems have "r = None" by (cases r) simp_all
  with h Cons have "QMARK \<notin> set es" by simp
  moreover have "e \<noteq> QMARK" using h \<open>r = None\<close> by (auto simp: cli_option_def opt_flag_def)
  ultimately show ?case by simp
qed simp

text \<open>The options \<open>fw\<close> are accepted as far as they go, and turn the state \<open>a\<close> into \<open>b\<close>.\<close>

definition accepts :: "cli_env \<Rightarrow> cstr list \<Rightarrow> cli_args \<Rightarrow> cli_args \<Rightarrow> bool" where
  "accepts env fw a b \<longleftrightarrow>
     ''--'' \<notin> set fw \<and>
     option_loop (cli_option env) (fst (getopt_long short_opts (long_opts env) fw)) (reset_margins a) = (None, b)"

lemma cli_parse_append:
  assumes "accepts env fw a b" and "getopt_long short_opts (long_opts env) args = (es, ops)"
  shows "cli_parse env (fw @ args) a =
    after_options env (snd (getopt_long short_opts (long_opts env) fw) @ ops) (option_loop (cli_option env) es b)"
proof -
  obtain fs os where f: "getopt_long short_opts (long_opts env) fw = (fs, os)" by (rule prod.exhaust)
  with assms(1) have l: "option_loop (cli_option env) fs (reset_margins a) = (None, b)" and d: "''--'' \<notin> set fw"
    by (simp_all add: accepts_def)
  have "getopt_long short_opts (long_opts env) (fw @ args) = (fs @ es, os @ ops)"
    using getopt_long_append [OF f accepted_known [OF l] d, of args] assms(2) by simp
  with f l show ?thesis by (simp add: cli_parse_def option_loop_append)
qed

text \<open>An option that does not exist, behind options that are accepted, makes \<^verbatim>\<open>cli_parse\<close> return 0, the value
  for a request for help, which its caller hands on as the exit status: the case for unknown
  options, which returns 1, is never reached, because \<^verbatim>\<open>getopt_long\<close> reports them as a question mark.\<close>

lemma unknown_option_succeeds:
  assumes "accepts env fw a b" and "name \<noteq> []"
    and "find_long (long_opts env) (takeWhile (\<lambda>c. c \<noteq> CHR ''='') name) = None"
  shows "cli_parse env (fw @ (''--'' @ name) # args) a = (0, b)"
proof -
  obtain es ops where g: "getopt_long short_opts (long_opts env) ((''--'' @ name) # args) = (es, ops)"
    by (rule prod.exhaust)
  have "hd es = QMARK" "es \<noteq> []"
    using getopt_long_unknown [OF assms(3,2), of short_opts args] g by simp_all
  then obtain fs where "es = QMARK # fs" by (cases es) auto
  then have "option_loop (cli_option env) es b = (Some 0, b)"
    by (simp add: cli_option_def opt_flag_def)
  with cli_parse_append [OF assms(1) g] show ?thesis by (simp add: after_options_def)
qed

lemma sample_bench: "getopt_long short_opts (long_opts sample_cli_env) [''--bench''] = ([Flag 1004], [])"
  by code_simp

lemma unknown_option_succeeds_example:
  "cli_parse sample_cli_env [''--bench'', ''--bnch'', ''x''] (cli_start default_opts) =
     (0, (reset_margins (cli_start default_opts))\<lparr>bench_mode := True\<rparr>)"
proof -
  have a: "accepts sample_cli_env [''--bench''] (cli_start default_opts)
      ((reset_margins (cli_start default_opts))\<lparr>bench_mode := True\<rparr>)"
    using sample_bench by (simp add: accepts_def cli_option_def opt_flag_def)
  have "find_long (long_opts sample_cli_env) (takeWhile (\<lambda>c. c \<noteq> CHR ''='') ''bnch'') = None" by code_simp
  from unknown_option_succeeds [OF a _ this, of "[''x'']"] show ?thesis by simp
qed

text \<open>A list of delays, one per track, is refused on the command line: \<^verbatim>\<open>--delay\<close> hands the whole argument
  to \<^verbatim>\<open>parse_single_delay\<close>, which fails at the comma, although \<^verbatim>\<open>parse_delay_list\<close>, which the program calls
  later for the same string, reads it.\<close>

lemma cli_refuses_delay_list:
  assumes "accepts env fw a b" and "ints_ok vs" and "length vs \<ge> 2"
  shows "cli_parse env (fw @ [''--delay'', join (CHR '','') (map show_int vs)] @ args) a = (1, b) \<and>
    parse_delay_list (\<lambda>_. True) (join (CHR '','') (map show_int vs)) = (None, Some vs, length vs)"
proof -
  let ?s = "join (CHR '','') (map show_int vs)"
  from assms(3) obtain v w ws where "vs = v # w # ws" by (cases vs; cases "tl vs") auto
  then have "CHR '','' \<in> set ?s" by simp
  then obtain e where e: "parse_single_delay (ce_alloc env) ?s = Inl e"
    using parse_single_delay_comma by blast
  obtain es ops where g: "getopt_long short_opts (long_opts env) args = (es, ops)" by (rule prod.exhaust)
  have "getopt_long short_opts (long_opts env) (''--delay'' # ?s # args) = (Arg 1012 ?s # es, ops)"
    using getopt_long_Arg [OF find_long_opts(5) [of env], of short_opts ?s args] g by simp
  moreover have "option_loop (cli_option env) (Arg 1012 ?s # es) b = (Some 1, b)"
    using e by (simp add: cli_option_def opt_with_arg_def opt_delay_def)
  ultimately have "cli_parse env (fw @ ''--delay'' # ?s # args) a = (1, b)"
    using cli_parse_append [OF assms(1)] by (simp add: after_options_def)
  moreover have "vs \<noteq> []" using assms(3) by auto
  ultimately show ?thesis using parse_delay_list_join [OF assms(2)] by simp
qed

lemma cli_refuses_delay_list_example:
  "cli_parse sample_cli_env [''--bench'', ''--delay'', ''100,-50''] (cli_start default_opts) =
     (1, (reset_margins (cli_start default_opts))\<lparr>bench_mode := True\<rparr>) \<and>
   parse_delay_list (\<lambda>_. True) ''100,-50'' = (None, Some [100, - 50], 2)"
proof -
  have a: "accepts sample_cli_env [''--bench''] (cli_start default_opts)
      ((reset_margins (cli_start default_opts))\<lparr>bench_mode := True\<rparr>)"
    using sample_bench by (simp add: accepts_def cli_option_def opt_flag_def)
  have "join (CHR '','') (map show_int [100, - 50]) = ''100,-50''" by code_simp
  with cli_refuses_delay_list [OF a, of "[100, - 50]" "[]"] show ?thesis
    by (simp add: ints_ok_def INT_MIN_def INT_MAX_def)
qed

text \<open>The four options that name the files and the languages, at the end of a command line. A list that is
  just \<^verbatim>\<open>rt\<close> is taken for a misspelt option.\<close>

lemma cli_parse_files:
  assumes "accepts env fw a b" and "validate_path_length i" and "validate_path_length out"
    and "validate_path_length srts" and "ce_alloc env (length srts + 1)" and "ce_alloc env (length langs + 1)"
    and "srts \<noteq> ''rt''" and "validate_language_list (ce_alloc env) langs = None"
  shows "cli_parse env (fw @ [''--input'', i, ''--output'', out, ''--srt'', srts, ''--languages'', langs]) a =
    (- 1, b\<lparr>in_path := Some i, out_path := Some out, srt_list := Some srts, lang_list := Some langs\<rparr>)"
proof -
  let ?b = "b\<lparr>in_path := Some i, out_path := Some out, srt_list := Some srts, lang_list := Some langs\<rparr>"
  note arg = getopt_long_Arg [OF find_long_opts(1) [of env], of short_opts]
    getopt_long_Arg [OF find_long_opts(2) [of env], of short_opts]
    getopt_long_Arg [OF find_long_opts(3) [of env], of short_opts]
    getopt_long_Arg [OF find_long_opts(4) [of env], of short_opts]
  have "getopt_long short_opts (long_opts env)
      [''--input'', i, ''--output'', out, ''--srt'', srts, ''--languages'', langs] =
      ([Arg 73 i, Arg 111 out, Arg 115 srts, Arg 108 langs], [])"
    using arg by (simp add: getopt_simps(1))
  moreover have "option_loop (cli_option env) [Arg 73 i, Arg 111 out, Arg 115 srts, Arg 108 langs] b = (None, ?b)"
    using assms by (simp add: cli_option_def opt_with_arg_def opt_paths_def)
  ultimately show ?thesis
    using cli_parse_append [OF assms(1)] assms(7,8)
    by (simp add: after_options_def correct_srt_def required_missing_def)
qed

end
