(* ===== verification/Mux.thy ===== *)
theory Mux
  imports Dvb_sub Srt_types
begin

text \<open>
  \<^verbatim>\<open>muxsub.c\<close> and \<^verbatim>\<open>mux_write.c\<close>: a subtitle is encoded into a buffer of the track and written
  as a packet with a presentation time in ticks of 90 kHz. The calls into libavcodec, libavformat
  and libavutil are fields of a record of parameters: what the encoder writes, which packets can be
  allocated, whether \<^verbatim>\<open>av_realloc\<close> moves a block, how times are rescaled, what the muxer answers.
  The buffer lives on the heap of \<open>Pool_alloc\<close>, so that an access through a stale pointer is a fault.
  The locale \<open>pts_sink\<close> states what the writer promises about times; its lemmas give the order of
  all the packets of a track.
\<close>

definition SUB_BUF_SIZE :: nat where "SUB_BUF_SIZE = 65536"
definition MAX_SUB_BUF_SIZE :: nat where "MAX_SUB_BUF_SIZE = 1048576"
definition FULL_COUNT_THRESHOLD :: nat where "FULL_COUNT_THRESHOLD = 2"

type_synonym rational = "int \<times> int"

abbreviation tb_90k :: rational where "tb_90k \<equiv> (1, 90000)"

text \<open>\<open>tr_last_pts\<close> is \<open>None\<close> for \<^verbatim>\<open>AV_NOPTS_VALUE\<close>; the stream is its index and time base.\<close>

record SubTrack =
  tr_entries :: "SRTEntry list"
  tr_cur_sub :: nat
  tr_stream :: "(nat \<times> rational) option"
  tr_codec :: bool
  tr_last_pts :: "int option"
  tr_delay :: int
  tr_tmpbuf :: "addr option"
  tr_tmpbuf_size :: nat
  tr_full_count :: nat

record packet =
  pk_stream :: nat
  pk_pts :: "int option"
  pk_dts :: "int option"
  pk_data :: "8 word list"

record mux_lib =
  ml_av :: av_mem
  ml_moves :: "nat \<Rightarrow> bool"
  ml_encode :: "subtitle \<Rightarrow> pool \<Rightarrow> int \<times> 8 word list"
  ml_packet_ok :: "nat \<Rightarrow> bool"
  ml_rescale :: "int \<Rightarrow> rational \<Rightarrow> rational \<Rightarrow> int"
  ml_write :: "packet \<Rightarrow> int"

record mux_state =
  mx_pool :: pool
  mx_out :: "packet list"

text \<open>The buffer of the track, allocated at the first use: its address, \<open>None\<close> where that fails. The code
  calls \<^verbatim>\<open>av_malloc\<close>; here the block starts with zeros, which no one reads before the encoder wrote.\<close>

definition get_tmpbuf :: "mux_lib \<Rightarrow> SubTrack \<Rightarrow> pool \<Rightarrow> addr option \<times> SubTrack \<times> pool" where
  "get_tmpbuf lib tr st =
     (case tr_tmpbuf tr of
        Some a \<Rightarrow> (Some a, tr, st)
      | None \<Rightarrow>
          let alloc_size = (if tr_tmpbuf_size tr \<noteq> 0 then tr_tmpbuf_size tr else SUB_BUF_SIZE)
          in (case av_mallocz (ml_av lib) alloc_size st of
                (None, st1) \<Rightarrow> (None, tr, st1)
              | (Some a, st1) \<Rightarrow> (Some a, tr\<lparr>tr_tmpbuf := Some a, tr_tmpbuf_size := alloc_size\<rparr>, st1)))"

text \<open>The encoder writes its bytes to the start of the buffer.\<close>

definition encoder_writes :: "addr \<Rightarrow> 8 word list \<Rightarrow> pool \<Rightarrow> pool cres" where
  "encoder_writes a bytes st = heap_copy a bytes (length bytes) st"

text \<open>\<^verbatim>\<open>av_realloc\<close>: the block keeps its bytes and either its address or moves to a new one.\<close>

definition av_realloc :: "mux_lib \<Rightarrow> addr \<Rightarrow> nat \<Rightarrow> pool \<Rightarrow> addr option \<times> pool" where
  "av_realloc lib a n st =
     (case p_heap st a of
        Some (Block m (Bytes bs)) \<Rightarrow>
          if av_ok (ml_av lib) n then
            let bs' = take n bs @ replicate (n - length bs) 0;
                a' = (if ml_moves lib n then pick (av_fresh (ml_av lib)) (p_heap st) else a)
            in (Some a', st\<lparr>p_heap := ((p_heap st)(a := None))(a' \<mapsto> Block n (Bytes bs'))\<rparr>)
          else (None, st)
      | _ \<Rightarrow> (None, st))"

text \<open>Counting how often the buffer was filled, and growing it.\<close>

definition note_full :: "mux_lib \<Rightarrow> int \<Rightarrow> addr \<Rightarrow> SubTrack \<Rightarrow> pool \<Rightarrow> SubTrack \<times> pool" where
  "note_full lib sz a tr st =
     (if nat sz \<ge> tr_tmpbuf_size tr then
        let tr1 = tr\<lparr>tr_full_count := tr_full_count tr + 1\<rparr>
        in if tr_full_count tr1 \<ge> FULL_COUNT_THRESHOLD \<and> tr_tmpbuf_size tr < MAX_SUB_BUF_SIZE then
             let new_size = min (tr_tmpbuf_size tr * 2) MAX_SUB_BUF_SIZE
             in (case av_realloc lib a new_size st of
                   (Some a', st1) \<Rightarrow>
                     (tr1\<lparr>tr_tmpbuf := Some a', tr_tmpbuf_size := new_size, tr_full_count := 0\<rparr>, st1)
                 | (None, st1) \<Rightarrow> (tr1\<lparr>tr_full_count := 0\<rparr>, st1))
           else (tr1, st)
      else (tr\<lparr>tr_full_count := 0\<rparr>, st))"

text \<open>\<^verbatim>\<open>memcpy\<close> out of a block.\<close>

definition heap_read :: "addr \<Rightarrow> nat \<Rightarrow> pool \<Rightarrow> (8 word list) cres" where
  "heap_read a n st =
     (case p_heap st a of
        Some (Block m (Bytes bs)) \<Rightarrow> if m < n then Inl Out_of_bounds else Inr (take n bs)
      | _ \<Rightarrow> Inl Out_of_bounds)"

definition bump_pts :: "int option \<Rightarrow> int \<Rightarrow> int" where
  "bump_pts last_pts pts90 =
     (case last_pts of None \<Rightarrow> pts90 | Some l \<Rightarrow> if pts90 \<le> l then l + 90 else pts90)"

text \<open>The packet: the bytes are read from the pointer that was taken before the buffer grew.\<close>

definition write_packet :: "mux_lib \<Rightarrow> nat \<times> rational \<Rightarrow> addr \<Rightarrow> nat \<Rightarrow> int \<Rightarrow> SubTrack \<Rightarrow> mux_state \<Rightarrow>
    (SubTrack \<times> mux_state) cres" where
  "write_packet lib stream tmpbuf n pts90 tr st =
     (if \<not> ml_packet_ok lib n then Inr (tr, st)
      else
        sbind (heap_read tmpbuf n (mx_pool st)) (\<lambda>bytes.
        let pts = bump_pts (tr_last_pts tr) pts90;
            pkt_pts = (if snd stream \<noteq> tb_90k then ml_rescale lib pts tb_90k (snd stream) else pts);
            pkt = \<lparr>pk_stream = fst stream, pk_pts = Some pkt_pts, pk_dts = Some pkt_pts, pk_data = bytes\<rparr>
        in Inr (tr\<lparr>tr_last_pts := Some pts\<rparr>,
                if ml_write lib pkt < 0 then st else st\<lparr>mx_out := mx_out st @ [pkt]\<rparr>)))"

definition encode_and_write_subtitle :: "mux_lib \<Rightarrow> SubTrack \<Rightarrow> subtitle option \<Rightarrow> int \<Rightarrow> mux_state \<Rightarrow>
    (SubTrack \<times> mux_state) cres" where
  "encode_and_write_subtitle lib tr sub_opt pts90 st =
     (case sub_opt of
        None \<Rightarrow> Inr (tr, st)
      | Some sub \<Rightarrow>
          if \<not> tr_codec tr then Inr (tr, st)
          else
            (case tr_stream tr of
               None \<Rightarrow> Inr (tr, st)
             | Some stream \<Rightarrow>
                 (case get_tmpbuf lib tr (mx_pool st) of
                    (None, tr1, p1) \<Rightarrow> Inr (tr1, st\<lparr>mx_pool := p1\<rparr>)
                  | (Some tmpbuf, tr1, p1) \<Rightarrow>
                      let (sz, bytes) = ml_encode lib sub p1
                      in sbind (encoder_writes tmpbuf bytes p1) (\<lambda>p2.
                         if sz \<le> 0 then Inr (tr1, st\<lparr>mx_pool := p2\<rparr>)
                         else
                           let (tr2, p3) = note_full lib sz tmpbuf tr1 p2
                           in write_packet lib stream tmpbuf (nat sz) pts90 tr2 (st\<lparr>mx_pool := p3\<rparr>)))))"

subsection \<open>The contract of a writer\<close>

definition ahead :: "int option \<Rightarrow> int \<Rightarrow> bool" where
  "ahead l p \<longleftrightarrow> (case l of None \<Rightarrow> True | Some q \<Rightarrow> q < p)"

text \<open>A call either leaves the times alone or chooses one that is later than the last and not before
  the one asked for; the packet may be lost.\<close>

locale pts_sink =
  fixes send :: "'a \<Rightarrow> int \<Rightarrow> 's \<Rightarrow> 's cres"
    and last_time :: "'s \<Rightarrow> int option"
    and times :: "'s \<Rightarrow> int list"
    and inv :: "'s \<Rightarrow> bool"
  assumes send_inv: "inv s \<Longrightarrow> send x p s = Inr s' \<Longrightarrow> inv s'"
    and send_times: "inv s \<Longrightarrow> send x p s = Inr s' \<Longrightarrow>
      (last_time s' = last_time s \<and> times s' = times s) \<or>
      (\<exists>q. p \<le> q \<and> ahead (last_time s) q \<and> last_time s' = Some q \<and>
         (times s' = times s \<or> times s' = times s @ [q]))"
begin

primrec send_all :: "('a \<times> int) list \<Rightarrow> 's \<Rightarrow> 's cres" where
  "send_all [] s = Inr s"
| "send_all (x # xs) s = sbind (send (fst x) (snd x) s) (send_all xs)"

definition in_time :: "'s \<Rightarrow> bool" where
  "in_time s \<longleftrightarrow> sorted_wrt (<) (times s) \<and> (\<forall>t\<in>set (times s). \<exists>l. last_time s = Some l \<and> t \<le> l)"

lemma in_time_send:
  assumes "inv s" and "send x p s = Inr s'" and "in_time s"
  shows "in_time s'"
  using send_times [OF assms(1,2)]
proof
  assume "\<exists>q. p \<le> q \<and> ahead (last_time s) q \<and> last_time s' = Some q \<and>
         (times s' = times s \<or> times s' = times s @ [q])"
  then obtain q where q: "ahead (last_time s) q" "last_time s' = Some q"
    "times s' = times s \<or> times s' = times s @ [q]" by blast
  have "t < q" if "t \<in> set (times s)" for t
    using that assms(3) q(1) by (fastforce simp: in_time_def ahead_def)
  then show ?thesis using assms(3) q(2,3) by (fastforce simp: in_time_def sorted_wrt_append)
qed (use assms(3) in \<open>simp add: in_time_def\<close>)

lemma in_time_send_all: "send_all xs s = Inr s' \<Longrightarrow> inv s \<Longrightarrow> in_time s \<Longrightarrow> inv s' \<and> in_time s'"
proof (induction xs arbitrary: s)
  case (Cons x xs)
  then obtain s1 where s1: "send (fst x) (snd x) s = Inr s1" "send_all xs s1 = Inr s'"
    by (auto simp: sbind_eq_Inr_iff)
  from Cons.IH [OF s1(2)] send_inv [OF Cons.prems(2) s1(1)] in_time_send [OF Cons.prems(2) s1(1) Cons.prems(3)]
  show ?case by blast
qed simp

end

subsection \<open>What a call changes\<close>

text \<open>Everything but the buffer and the last time.\<close>

definition same_track :: "SubTrack \<Rightarrow> SubTrack \<Rightarrow> bool" where
  "same_track tr tr' \<longleftrightarrow>
     tr_entries tr' = tr_entries tr \<and> tr_cur_sub tr' = tr_cur_sub tr \<and> tr_stream tr' = tr_stream tr \<and>
     tr_codec tr' = tr_codec tr \<and> tr_delay tr' = tr_delay tr"

lemma same_track_refl [simp]: "same_track tr tr"
  by (simp add: same_track_def)

lemma same_track_trans: "same_track a b \<Longrightarrow> same_track b c \<Longrightarrow> same_track a c"
  by (simp add: same_track_def)

lemma get_tmpbuf_frame:
  "get_tmpbuf lib tr st = (r, tr', st') \<Longrightarrow> same_track tr tr' \<and> tr_last_pts tr' = tr_last_pts tr"
  by (auto simp: get_tmpbuf_def same_track_def Let_def split: option.splits prod.splits)

lemma note_full_frame:
  "note_full lib sz a tr st = (tr', st') \<Longrightarrow> same_track tr tr' \<and> tr_last_pts tr' = tr_last_pts tr"
  by (auto simp: note_full_def same_track_def Let_def split: if_splits option.splits prod.splits)

text \<open>The packet a call adds, if any.\<close>

definition sub_packet :: "mux_lib \<Rightarrow> nat \<times> rational \<Rightarrow> int \<Rightarrow> 8 word list \<Rightarrow> packet" where
  "sub_packet lib stream pts bytes =
     (let t = (if snd stream \<noteq> tb_90k then ml_rescale lib pts tb_90k (snd stream) else pts)
      in \<lparr>pk_stream = fst stream, pk_pts = Some t, pk_dts = Some t, pk_data = bytes\<rparr>)"

lemma write_packet_Inr:
  assumes "write_packet lib stream a n p tr st = Inr (tr', st')"
  shows "same_track tr tr' \<and>
    ((tr' = tr \<and> st' = st) \<or>
     (\<exists>bytes. heap_read a n (mx_pool st) = Inr bytes \<and>
        tr_last_pts tr' = Some (bump_pts (tr_last_pts tr) p) \<and>
        (st' = st \<or> st' = st\<lparr>mx_out := mx_out st @ [sub_packet lib stream (bump_pts (tr_last_pts tr) p) bytes]\<rparr>)))"
  using assms
  by (auto simp: write_packet_def sub_packet_def same_track_def Let_def sbind_eq_Inr_iff split: if_splits)

lemma bump_pts_later: "p \<le> bump_pts l p \<and> ahead l (bump_pts l p)"
  by (auto simp: bump_pts_def ahead_def split: option.split)

lemma encode_Inr:
  assumes "encode_and_write_subtitle lib tr sub_opt p st = Inr (tr', st')"
  shows "same_track tr tr' \<and>
    ((tr_last_pts tr' = tr_last_pts tr \<and> mx_out st' = mx_out st) \<or>
     (\<exists>stream bytes. tr_stream tr = Some stream \<and> tr_last_pts tr' = Some (bump_pts (tr_last_pts tr) p) \<and>
        (mx_out st' = mx_out st \<or>
         mx_out st' = mx_out st @ [sub_packet lib stream (bump_pts (tr_last_pts tr) p) bytes])))"
proof (cases "sub_opt = None \<or> \<not> tr_codec tr \<or> tr_stream tr = None")
  case True
  with assms show ?thesis by (auto simp: encode_and_write_subtitle_def split: option.splits if_splits)
next
  case False
  then obtain sub stream where s: "sub_opt = Some sub" "tr_codec tr" "tr_stream tr = Some stream" by auto
  obtain r tr1 p1 where g: "get_tmpbuf lib tr (mx_pool st) = (r, tr1, p1)" by (rule prod_cases3)
  note G = get_tmpbuf_frame [OF g]
  show ?thesis
  proof (cases r)
    case None
    with assms s g G show ?thesis by (auto simp: encode_and_write_subtitle_def)
  next
    case (Some a)
    obtain sz bytes where e: "ml_encode lib sub p1 = (sz, bytes)" by fastforce
    with assms s g Some obtain p2 where w: "encoder_writes a bytes p1 = Inr p2"
      by (auto simp: encode_and_write_subtitle_def sbind_eq_Inr_iff)
    show ?thesis
    proof (cases "sz \<le> 0")
      case True
      with assms s g Some e w G show ?thesis by (auto simp: encode_and_write_subtitle_def)
    next
      case False
      obtain tr2 p3 where n: "note_full lib sz a tr1 p2 = (tr2, p3)" by fastforce
      note N = note_full_frame [OF n]
      from assms s g Some e w n False have
        "write_packet lib stream a (nat sz) p tr2 (st\<lparr>mx_pool := p3\<rparr>) = Inr (tr', st')"
        by (simp add: encode_and_write_subtitle_def)
      from write_packet_Inr [OF this] G N s(3) show ?thesis
        by (auto intro: same_track_trans)
    qed
  qed
qed

text \<open>The times of the packets of one stream.\<close>

definition stream_times :: "nat \<Rightarrow> packet list \<Rightarrow> int list" where
  "stream_times k ps = map (\<lambda>p. the (pk_pts p)) (filter (\<lambda>p. pk_stream p = k \<and> pk_pts p \<noteq> None) ps)"

lemma stream_times_append [simp]: "stream_times k (ps @ qs) = stream_times k ps @ stream_times k qs"
  by (simp add: stream_times_def)

lemma stream_times_sub [simp]:
  "stream_times k [sub_packet lib (j, tb_90k) t bytes] = (if j = k then [t] else [])"
  by (simp add: stream_times_def sub_packet_def)

interpretation writer: pts_sink
    "\<lambda>sub p s. encode_and_write_subtitle lib (fst s) sub p (snd s)"
    "\<lambda>s. tr_last_pts (fst s)" "\<lambda>s. stream_times k (mx_out (snd s))"
    "\<lambda>s. tr_stream (fst s) = Some (k, tb_90k)" for lib k
proof unfold_locales
  fix s s' :: "SubTrack \<times> mux_state" and x :: "subtitle option" and p :: int
  assume inv: "tr_stream (fst s) = Some (k, tb_90k)"
    and e: "encode_and_write_subtitle lib (fst s) x p (snd s) = Inr s'"
  obtain tr' st' where s': "s' = (tr', st')" by (cases s')
  note E = encode_Inr [OF e [unfolded s']]
  show "tr_stream (fst s') = Some (k, tb_90k)" using E inv by (simp add: s' same_track_def)
  show "(tr_last_pts (fst s') = tr_last_pts (fst s) \<and>
      stream_times k (mx_out (snd s')) = stream_times k (mx_out (snd s))) \<or>
     (\<exists>q. p \<le> q \<and> ahead (tr_last_pts (fst s)) q \<and> tr_last_pts (fst s') = Some q \<and>
        (stream_times k (mx_out (snd s')) = stream_times k (mx_out (snd s)) \<or>
         stream_times k (mx_out (snd s')) = stream_times k (mx_out (snd s)) @ [q]))"
    using E inv bump_pts_later [of p "tr_last_pts (fst s)"] by (auto simp: s')
qed

subsection \<open>The buffer\<close>

text \<open>The invariant of the track's buffer: it is a live block of the recorded size, which is large
  enough for what the encoder is told it may write.\<close>

definition tmpbuf_ok :: "SubTrack \<Rightarrow> pool \<Rightarrow> bool" where
  "tmpbuf_ok tr st \<longleftrightarrow>
     (case tr_tmpbuf tr of
        None \<Rightarrow> tr_tmpbuf_size tr = 0
      | Some a \<Rightarrow> pool_used st a = Some (tr_tmpbuf_size tr) \<and> SUB_BUF_SIZE \<le> tr_tmpbuf_size tr)"

text \<open>What is relied on of \<^verbatim>\<open>avcodec_encode_subtitle\<close>: it returns a negative error or the number of
  bytes it wrote, and does not fill the size it was given.\<close>

definition encoder_ok :: "mux_lib \<Rightarrow> bool" where
  "encoder_ok lib \<longleftrightarrow>
     (\<forall>sub st. length (snd (ml_encode lib sub st)) = nat (fst (ml_encode lib sub st)) \<and>
        nat (fst (ml_encode lib sub st)) < SUB_BUF_SIZE)"

text \<open>The blocks in use before and after a call: only the buffer of the track is new.\<close>

definition only_tmpbuf :: "SubTrack \<Rightarrow> SubTrack \<Rightarrow> pool \<Rightarrow> pool \<Rightarrow> bool" where
  "only_tmpbuf tr tr' st st' \<longleftrightarrow>
     (tr_tmpbuf tr' = tr_tmpbuf tr \<and> pool_used st' = pool_used st) \<or>
     (tr_tmpbuf tr = None \<and>
      (\<exists>a n. tr_tmpbuf tr' = Some a \<and> pool_used st a = None \<and> pool_used st' = (pool_used st)(a \<mapsto> n)))"

lemma pool_used_block: "pool_used st a = Some n \<Longrightarrow> \<exists>bs. p_heap st a = Some (Block n (Bytes bs))"
  by (auto simp: pool_used_def split: option.splits block.splits content.splits)

lemma get_tmpbuf_ok:
  assumes "get_tmpbuf lib tr st = (r, tr', st')" and "pool_inv st" and "tmpbuf_ok tr st"
  shows "pool_inv st' \<and> tmpbuf_ok tr' st' \<and> only_tmpbuf tr tr' st st' \<and> (r \<noteq> None \<longrightarrow> r = tr_tmpbuf tr')"
proof (cases "tr_tmpbuf tr")
  case (Some a)
  with assms show ?thesis by (auto simp: get_tmpbuf_def only_tmpbuf_def)
next
  case None
  let ?n = "SUB_BUF_SIZE"
  obtain q st1 where m: "av_mallocz (ml_av lib) ?n st = (q, st1)" by fastforce
  have z: "tr_tmpbuf_size tr = 0" using assms(3) None by (simp add: tmpbuf_ok_def)
  have i: "pool_inv st1" by (rule raw.alloc_inv [OF assms(2)]) (rule arg_cong [OF m])
  show ?thesis
  proof (cases q)
    case None
    have "pool_used st1 = pool_used st"
      by (rule raw.alloc_None [OF assms(2)]) (rule arg_cong [OF m [unfolded None]])
    with None \<open>tr_tmpbuf tr = None\<close> m z i assms(1) show ?thesis
      by (auto simp: get_tmpbuf_def tmpbuf_ok_def only_tmpbuf_def)
  next
    case (Some a)
    have "pool_used st a = None \<and> pool_used st1 = (pool_used st)(a \<mapsto> ?n)"
      by (rule raw.alloc_Some [OF assms(2)]) (rule arg_cong [OF m [unfolded Some]])
    with Some None m z i assms(1) show ?thesis
      by (auto simp: get_tmpbuf_def tmpbuf_ok_def only_tmpbuf_def)
  qed
qed

lemma encoder_writes_ok:
  assumes "pool_inv st" and "pool_used st a = Some m" and "length bytes \<le> m"
  shows "\<exists>st'. encoder_writes a bytes st = Inr st' \<and> pool_inv st' \<and> pool_used st' = pool_used st \<and>
    heap_read a (length bytes) st' = Inr bytes"
proof -
  from heap_copy_ok [OF assms(2,3) order_refl] obtain st' where
    c: "heap_copy a bytes (length bytes) st = Inr st'" by blast
  note I = heap_copy_inv [OF assms(1) c]
  have "heap_read a (length bytes) st' = Inr bytes"
    using c assms(2,3)
    by (auto simp: heap_copy_def heap_read_def pool_used_def
      split: option.splits block.splits content.splits if_splits)
  with c I show ?thesis by (simp add: encoder_writes_def)
qed

lemma note_full_small:
  "nat sz < tr_tmpbuf_size tr \<Longrightarrow> note_full lib sz a tr st = (tr\<lparr>tr_full_count := 0\<rparr>, st)"
  by (simp add: note_full_def)

lemma encode_safe:
  assumes enc: "encoder_ok lib" and inv: "pool_inv (mx_pool st)" and tb: "tmpbuf_ok tr (mx_pool st)"
  shows "\<exists>tr' st'. encode_and_write_subtitle lib tr sub_opt p st = Inr (tr', st') \<and>
    pool_inv (mx_pool st') \<and> tmpbuf_ok tr' (mx_pool st') \<and> only_tmpbuf tr tr' (mx_pool st) (mx_pool st') \<and>
    (mx_out st' = mx_out st \<or>
     (\<exists>sub stream p1. sub_opt = Some sub \<and> tr_stream tr = Some stream \<and>
        mx_out st' = mx_out st @
          [sub_packet lib stream (bump_pts (tr_last_pts tr) p) (snd (ml_encode lib sub p1))]))"
proof (cases "sub_opt = None \<or> \<not> tr_codec tr \<or> tr_stream tr = None")
  case True
  with inv tb show ?thesis
    by (auto simp: encode_and_write_subtitle_def only_tmpbuf_def split: option.split)
next
  case False
  then obtain sub stream where s: "sub_opt = Some sub" "tr_codec tr" "tr_stream tr = Some stream" by auto
  obtain r tr1 p1 where g: "get_tmpbuf lib tr (mx_pool st) = (r, tr1, p1)" by (rule prod_cases3)
  note G = get_tmpbuf_ok [OF g inv tb] and F = get_tmpbuf_frame [OF g]
  show ?thesis
  proof (cases r)
    case None
    with s g G show ?thesis by (simp add: encode_and_write_subtitle_def)
  next
    case (Some a)
    obtain sz bytes where e: "ml_encode lib sub p1 = (sz, bytes)" by fastforce
    with enc [unfolded encoder_ok_def, rule_format, of sub p1]
    have b: "length bytes = nat sz" "nat sz < SUB_BUF_SIZE" by simp_all
    from G Some have a: "tr_tmpbuf tr1 = Some a" by simp
    with G have u: "pool_used p1 a = Some (tr_tmpbuf_size tr1)" "SUB_BUF_SIZE \<le> tr_tmpbuf_size tr1"
      by (auto simp: tmpbuf_ok_def)
    with G b obtain p2 where w: "encoder_writes a bytes p1 = Inr p2" "pool_inv p2"
      "pool_used p2 = pool_used p1" "heap_read a (nat sz) p2 = Inr bytes"
      using encoder_writes_ok [of p1 a "tr_tmpbuf_size tr1" bytes] by auto
    have ok2: "tmpbuf_ok tr2 p2 \<and> only_tmpbuf tr tr2 (mx_pool st) p2"
      if "tr_tmpbuf tr2 = tr_tmpbuf tr1" "tr_tmpbuf_size tr2 = tr_tmpbuf_size tr1" for tr2
      using that G w(3) a by (simp add: tmpbuf_ok_def only_tmpbuf_def)
    show ?thesis
    proof (cases "sz \<le> 0")
      case True
      with s g Some e w ok2 [of tr1] show ?thesis by (simp add: encode_and_write_subtitle_def)
    next
      case False
      let ?tr2 = "tr1\<lparr>tr_full_count := 0\<rparr>"
      have n: "note_full lib sz a tr1 p2 = (?tr2, p2)" using b u by (intro note_full_small) simp
      have "\<exists>tr' st'. write_packet lib stream a (nat sz) p ?tr2 (st\<lparr>mx_pool := p2\<rparr>) = Inr (tr', st') \<and>
          mx_pool st' = p2 \<and> tr_tmpbuf tr' = tr_tmpbuf tr1 \<and> tr_tmpbuf_size tr' = tr_tmpbuf_size tr1 \<and>
          (mx_out st' = mx_out st \<or>
           mx_out st' = mx_out st @ [sub_packet lib stream (bump_pts (tr_last_pts tr) p) bytes])"
        using w(4) F by (auto simp: write_packet_def sub_packet_def Let_def)
      then obtain tr' st' where W: "write_packet lib stream a (nat sz) p ?tr2 (st\<lparr>mx_pool := p2\<rparr>) = Inr (tr', st')"
        "mx_pool st' = p2" "tr_tmpbuf tr' = tr_tmpbuf tr1" "tr_tmpbuf_size tr' = tr_tmpbuf_size tr1"
        "mx_out st' = mx_out st \<or>
           mx_out st' = mx_out st @ [sub_packet lib stream (bump_pts (tr_last_pts tr) p) bytes]" by blast
      have "encode_and_write_subtitle lib tr sub_opt p st = Inr (tr', st')"
        using s g Some e w n W(1) False by (simp add: encode_and_write_subtitle_def)
      moreover have "bytes = snd (ml_encode lib sub p1)" by (simp add: e)
      ultimately show ?thesis using W w(2) ok2 [OF W(3,4)] s by auto
    qed
  qed
qed

subsection \<open>What a call delivers\<close>

text \<open>C14. As long as the encoder does not fill its buffer, \<^verbatim>\<open>encode_and_write_subtitle\<close> stays within its
  memory and leaks none, keeps the invariant of the track's buffer, and adds at most one packet: the
  bytes of the encoder, on the track's stream, at a time that is not before the one asked for and
  later than every earlier one.\<close>

theorem encode_call_correct:
  assumes "encoder_ok lib" and "pool_inv (mx_pool st)" and "tmpbuf_ok tr (mx_pool st)"
    and "tr_stream tr = Some (k, tb_90k)"
  shows "\<exists>tr' st'. encode_and_write_subtitle lib tr (Some sub) p st = Inr (tr', st') \<and>
    pool_inv (mx_pool st') \<and> tmpbuf_ok tr' (mx_pool st') \<and> only_tmpbuf tr tr' (mx_pool st) (mx_pool st') \<and>
    (mx_out st' = mx_out st \<or>
     (\<exists>t p1. p \<le> t \<and> ahead (tr_last_pts tr) t \<and> tr_last_pts tr' = Some t \<and>
        mx_out st' = mx_out st @
          [\<lparr>pk_stream = k, pk_pts = Some t, pk_dts = Some t, pk_data = snd (ml_encode lib sub p1)\<rparr>]))"
proof -
  let ?t = "bump_pts (tr_last_pts tr) p"
  from encode_safe [OF assms(1-3), of "Some sub" p] obtain tr' st' where
    e: "encode_and_write_subtitle lib tr (Some sub) p st = Inr (tr', st')"
    and m: "pool_inv (mx_pool st')" "tmpbuf_ok tr' (mx_pool st')" "only_tmpbuf tr tr' (mx_pool st) (mx_pool st')"
    and o: "mx_out st' = mx_out st \<or> (\<exists>p1. mx_out st' = mx_out st @
          [sub_packet lib (k, tb_90k) ?t (snd (ml_encode lib sub p1))])"
    using assms(4) by auto
  have l: "tr_last_pts tr' = Some ?t" if "mx_out st' \<noteq> mx_out st" using encode_Inr [OF e] that by auto
  from o show ?thesis
  proof
    assume "\<exists>p1. mx_out st' = mx_out st @ [sub_packet lib (k, tb_90k) ?t (snd (ml_encode lib sub p1))]"
    then obtain p1 where "mx_out st' = mx_out st @ [sub_packet lib (k, tb_90k) ?t (snd (ml_encode lib sub p1))]" ..
    moreover from this have "tr_last_pts tr' = Some ?t" by (intro l) simp
    ultimately show ?thesis using e m bump_pts_later [of p "tr_last_pts tr"]
      by (intro exI [of _ tr'] exI [of _ st']) (auto simp: sub_packet_def Let_def)
  qed (use e m in blast)
qed

definition sample_lib :: mux_lib where
  "sample_lib =
     \<lparr>ml_av = sample_mem, ml_moves = (\<lambda>_. True), ml_encode = (\<lambda>_ _. (2, [15, 255])),
      ml_packet_ok = (\<lambda>_. True), ml_rescale = (\<lambda>t _ _. t), ml_write = (\<lambda>_. 0)\<rparr>"

definition sample_track :: SubTrack where
  "sample_track =
     \<lparr>tr_entries = [], tr_cur_sub = 0, tr_stream = Some (3, tb_90k), tr_codec = True,
      tr_last_pts = Some 900, tr_delay = 0, tr_tmpbuf = None, tr_tmpbuf_size = 0, tr_full_count = 0\<rparr>"

definition sample_mux :: mux_state where
  "sample_mux = \<lparr>mx_pool = \<lparr>p_heap = Map.empty, p_buckets = []\<rparr>, mx_out = []\<rparr>"

definition sample_sub :: subtitle where
  "sample_sub = \<lparr>s_self = 7, s_rects = None, s_start_display_time = 0, s_end_display_time = 1\<rparr>"

lemma sample_lib_ok: "encoder_ok sample_lib"
  by (simp add: encoder_ok_def sample_lib_def SUB_BUF_SIZE_def)

theorem encode_call_correct_witness:
  "\<exists>tr' st'. encode_and_write_subtitle sample_lib sample_track (Some sample_sub) 450 sample_mux = Inr (tr', st') \<and>
     tr_last_pts tr' = Some 990 \<and> concat (map pk_data (mx_out st')) = [15, 255] \<and> tmpbuf_ok tr' (mx_pool st')"
proof -
  have c: "pool_inv (mx_pool sample_mux)" "tmpbuf_ok sample_track (mx_pool sample_mux)"
    "tr_stream sample_track = Some (3, tb_90k)"
    by (simp_all add: sample_mux_def pool_inv_empty tmpbuf_ok_def sample_track_def)
  from encode_call_correct [OF sample_lib_ok c, of sample_sub 450] obtain tr' st' where
    e: "encode_and_write_subtitle sample_lib sample_track (Some sample_sub) 450 sample_mux = Inr (tr', st')"
    and m: "tmpbuf_ok tr' (mx_pool st')" by blast
  have "tr_last_pts tr' = Some 990 \<and> concat (map pk_data (mx_out st')) = [15, 255]"
    using e
    by (auto simp: encode_and_write_subtitle_def sample_lib_def sample_track_def sample_mux_def
      sample_mem_def get_tmpbuf_def av_mallocz_def Let_def encoder_writes_def heap_copy_def note_full_def
      write_packet_def heap_read_def bump_pts_def SUB_BUF_SIZE_def least_fresh_empty)
  with e m show ?thesis by (intro exI [of _ tr'] exI [of _ st']) simp
qed

text \<open>C39. Growing the buffer leaves a stale pointer: where the encoder fills the buffer for the second
  time and \<^verbatim>\<open>av_realloc\<close> moves it, the packet is copied from the block that was just freed.\<close>

theorem encode_after_growth_reads_freed_block:
  assumes "pool_inv (mx_pool st)" and "tr_codec tr" and "tr_stream tr = Some stream"
    and "tr_tmpbuf tr = Some a" and "pool_used (mx_pool st) a = Some SUB_BUF_SIZE"
    and "tr_tmpbuf_size tr = SUB_BUF_SIZE" and "tr_full_count tr = 1"
    and "ml_encode lib sub (mx_pool st) = (int SUB_BUF_SIZE, bytes)" and "length bytes = SUB_BUF_SIZE"
    and "av_ok (ml_av lib) (2 * SUB_BUF_SIZE)" and "ml_moves lib (2 * SUB_BUF_SIZE)"
    and "ml_packet_ok lib SUB_BUF_SIZE"
  shows "encode_and_write_subtitle lib tr (Some sub) p st = Inl Out_of_bounds"
proof -
  let ?n = SUB_BUF_SIZE
  have g: "get_tmpbuf lib tr (mx_pool st) = (Some a, tr, mx_pool st)" using assms(4) by (simp add: get_tmpbuf_def)
  from encoder_writes_ok [OF assms(1,5), of bytes] assms(9) obtain p2 where
    w: "encoder_writes a bytes (mx_pool st) = Inr p2" "pool_inv p2" "pool_used p2 = pool_used (mx_pool st)"
    by auto
  have "pool_used p2 a = Some ?n" using w(3) assms(5) by simp
  then obtain bs where h: "p_heap p2 a = Some (Block ?n (Bytes bs))" using pool_used_block by blast
  let ?b = "pick (av_fresh (ml_av lib)) (p_heap p2)"
  have "p_heap p2 ?b = None"
    by (rule pick_fresh) (use w(2) in \<open>auto simp: pool_inv_def pool_rep_def\<close>)
  then have ne: "?b \<noteq> a" using h by auto
  have mx: "min (?n * 2) MAX_SUB_BUF_SIZE = 2 * ?n" "?n < MAX_SUB_BUF_SIZE"
    by (simp_all add: SUB_BUF_SIZE_def MAX_SUB_BUF_SIZE_def)
  obtain tr2 p3 where n: "note_full lib (int ?n) a tr p2 = (tr2, p3)" and p3: "p_heap p3 a = None"
    using assms(6,7,10,11) h mx ne
    by (simp add: note_full_def av_realloc_def FULL_COUNT_THRESHOLD_def Let_def)
  have "heap_read a ?n p3 = Inl Out_of_bounds" by (simp add: heap_read_def p3)
  then have "write_packet lib stream a ?n p tr2 (st\<lparr>mx_pool := p3\<rparr>) = Inl Out_of_bounds"
    using assms(12) by (simp add: write_packet_def)
  moreover have "0 < ?n" by (simp add: SUB_BUF_SIZE_def)
  ultimately show ?thesis
    using assms(2,3,8) g w(1) n by (simp add: encode_and_write_subtitle_def)
qed

theorem encode_after_growth_reads_freed_block_witness:
  "encode_and_write_subtitle (sample_lib\<lparr>ml_encode := (\<lambda>_ _. (int SUB_BUF_SIZE, replicate SUB_BUF_SIZE 1))\<rparr>)
     (sample_track\<lparr>tr_tmpbuf := Some 0, tr_tmpbuf_size := SUB_BUF_SIZE, tr_full_count := 1\<rparr>)
     (Some sample_sub) 900
     \<lparr>mx_pool = \<lparr>p_heap = [0 \<mapsto> Block SUB_BUF_SIZE (Bytes [])], p_buckets = []\<rparr>, mx_out = []\<rparr> =
   Inl Out_of_bounds"
proof (rule encode_after_growth_reads_freed_block [where bytes = "replicate SUB_BUF_SIZE 1"])
  let ?st = "\<lparr>p_heap = [0 \<mapsto> Block SUB_BUF_SIZE (Bytes [])], p_buckets = []\<rparr>"
  have "pool_rep ?st []" by (auto simp: pool_rep_def links_def split: if_splits)
  then show "pool_inv (mx_pool \<lparr>mx_pool = ?st, mx_out = []\<rparr>)" unfolding pool_inv_def by auto
  show "pool_used (mx_pool \<lparr>mx_pool = ?st, mx_out = []\<rparr>) 0 = Some SUB_BUF_SIZE" by (simp add: pool_used_def)
qed (simp_all add: sample_track_def sample_lib_def sample_mem_def)

end
