(* ===== verification/Demux.thy ===== *)
theory Demux
  imports Mux Srt_parser Cli_lists
begin

text \<open>
  The main loop of \<^verbatim>\<open>srt2dvbsub.c\<close>: packets are read from the input, copied to the output, and
  between them the cues whose time has come are rendered, encoded and written, each followed by an
  empty subtitle that clears it. Rendering a cue into a bitmap is a parameter, as are the calls into
  FFmpeg (\<^verbatim>\<open>av_read_frame\<close> gives the list of packets, \<^verbatim>\<open>avsubtitle_free\<close> is a function on the heap)
  and the signal that asks the loop to stop. The lemmas say when a cue is written, that the times of
  every subtitle stream increase, and that the loop neither faults nor leaks.
\<close>

subsection \<open>Streams that are replaced\<close>

record OverwriteTarget =
  ow_in_stream :: int
  ow_out_stream :: int
  ow_pid :: int
  ow_lang :: cstr
  ow_used :: bool

definition strncasecmp3 :: "cstr \<Rightarrow> cstr \<Rightarrow> bool" where
  "strncasecmp3 a b \<longleftrightarrow> map tolower (take 3 a) = map tolower (take 3 b)"

fun find_target :: "cstr \<Rightarrow> OverwriteTarget list \<Rightarrow> nat option" where
  "find_target lang [] = None"
| "find_target lang (t # ts) =
     (if \<not> ow_used t \<and> strncasecmp3 (ow_lang t) lang then Some 0 else map_option Suc (find_target lang ts))"

definition find_overwrite_target :: "bool \<Rightarrow> OverwriteTarget list \<Rightarrow> cstr option \<Rightarrow> nat option" where
  "find_overwrite_target overwrite_subs ts lang =
     (if \<not> overwrite_subs then None else case lang of None \<Rightarrow> None | Some l \<Rightarrow> find_target l ts)"

definition is_overwrite_stream :: "bool \<Rightarrow> OverwriteTarget list \<Rightarrow> int \<Rightarrow> bool" where
  "is_overwrite_stream overwrite_subs ts in_stream_index \<longleftrightarrow>
     overwrite_subs \<and> list_ex (\<lambda>t. ow_used t \<and> ow_in_stream t = in_stream_index) ts"

function lang_loop :: "cstr \<Rightarrow> cstr \<Rightarrow> bool" where
  "lang_loop lang p =
     (let start = dropWhile (\<lambda>c. c = CHR '','' \<or> isspace c) p
      in if start = [] then False
         else
           let item = rstrip_by isspace (takeWhile (\<lambda>c. c \<noteq> CHR '','') start)
           in if item = ''*'' then True
              else if length item = 3 \<and> strncasecmp3 item lang then True
              else lang_loop lang (dropWhile (\<lambda>c. c \<noteq> CHR '','') start))"
  by pat_completeness auto
termination
proof (relation "measure (\<lambda>(_, p). length p)", simp, goal_cases)
  case (1 lang p start item)
  then have "start \<noteq> []" "hd start \<noteq> CHR '',''"
    using hd_dropWhile [of "\<lambda>c. c = CHR '','' \<or> isspace c" p] by auto
  then have "length (dropWhile (\<lambda>c. c \<noteq> CHR '','') start) < length start"
    by (cases start) (simp_all add: length_dropWhile_le le_imp_less_Suc)
  also have "length start \<le> length p" using 1 by (simp add: length_dropWhile_le)
  finally show ?case by simp
qed

declare lang_loop.simps [simp del]

definition overwrite_lang_allowed :: "cstr option \<Rightarrow> cstr option \<Rightarrow> bool" where
  "overwrite_lang_allowed list lang =
     (case lang of
        None \<Rightarrow> False
      | Some l \<Rightarrow>
          if l = [] then False
          else (case list of None \<Rightarrow> True | Some s \<Rightarrow> if s = [] then True else lang_loop l s))"

definition is_ass_file :: "cstr option \<Rightarrow> bool" where
  "is_ass_file path =
     (case path of
        None \<Rightarrow> False
      | Some p \<Rightarrow>
          if CHR ''.'' \<notin> set p then False
          else
            let dot = CHR ''.'' # rev (takeWhile (\<lambda>c. c \<noteq> CHR ''.'') (rev p))
            in if length dot = 1 then False
               else strcasecmp_eq dot ''.ass'' \<or> strcasecmp_eq dot ''.ssa'')"

subsection \<open>The loop\<close>

record in_packet =
  ip_stream :: int
  ip_pts :: "int option"
  ip_dts :: "int option"
  ip_data :: "8 word list"

record demux_env =
  de_lib :: mux_lib
  de_sizes :: sizes
  de_render :: "nat \<Rightarrow> SRTEntry \<Rightarrow> Bitmap"
  de_free_sub :: "subtitle \<Rightarrow> pool \<Rightarrow> pool cres"
  de_png_only :: bool
  de_start_pts90 :: int
  de_nb_streams :: nat
  de_time_base :: "nat \<Rightarrow> rational"
  de_out_stream :: "nat \<Rightarrow> nat option"
  de_overwrite_subs :: bool
  de_targets :: "OverwriteTarget list"
  de_stop :: "nat \<Rightarrow> bool"

record demux =
  dx_tracks :: "SubTrack list"
  dx_mux :: mux_state
  dx_last_valid :: "int option"
  dx_pkt_count :: nat
  dx_subs_emitted :: nat

text \<open>Encode (not in PNG-only mode) and give the subtitle back.\<close>

definition send_and_free :: "demux_env \<Rightarrow> SubTrack \<Rightarrow> subtitle \<Rightarrow> int \<Rightarrow> mux_state \<Rightarrow>
    (SubTrack \<times> mux_state) cres" where
  "send_and_free env tr sub pts90 mx =
     sbind
       (if de_png_only env then Inr (tr, mx)
        else encode_and_write_subtitle (de_lib env) tr (Some sub) pts90 mx)
       (\<lambda>(tr1, mx1).
         sbind (de_free_sub env sub (mx_pool mx1)) (\<lambda>p1.
         sbind (av_free (s_self sub) p1) (\<lambda>p2. Inr (tr1, mx1\<lparr>mx_pool := p2\<rparr>))))"

definition cue_pts90 :: "demux_env \<Rightarrow> SubTrack \<Rightarrow> int \<Rightarrow> int" where
  "cue_pts90 env tr ms = de_start_pts90 env + (ms + tr_delay tr) * 90"

text \<open>The subtitle of a cue, and its number among those emitted.\<close>

definition show_cue :: "demux_env \<Rightarrow> nat \<Rightarrow> SRTEntry \<Rightarrow> SubTrack \<Rightarrow> mux_state \<Rightarrow>
    (SubTrack \<times> mux_state \<times> nat) cres" where
  "show_cue env t e tr mx =
     sbind
       (make_subtitle (ml_av (de_lib env)) (de_sizes env) (de_render env t e) (start_ms e) (end_ms e)
         (mx_pool mx))
       (\<lambda>(sub_opt, p1).
         let mx1 = mx\<lparr>mx_pool := p1\<rparr>
         in case sub_opt of
              None \<Rightarrow> Inr (tr, mx1, 0)
            | Some sub \<Rightarrow>
                sbind
                  (send_and_free env tr
                    (sub\<lparr>s_start_display_time := 0,
                         s_end_display_time := (end_ms e - start_ms e) mod 4294967296\<rparr>)
                    (cue_pts90 env tr (start_ms e)) mx1)
                  (\<lambda>(tr1, mx2). Inr (tr1, mx2, 1)))"

text \<open>The empty subtitle at the end of the cue.\<close>

definition clear_cue :: "demux_env \<Rightarrow> SRTEntry \<Rightarrow> SubTrack \<Rightarrow> mux_state \<Rightarrow> (SubTrack \<times> mux_state) cres" where
  "clear_cue env e tr mx =
     (case av_mallocz (ml_av (de_lib env)) (sz_sub (de_sizes env)) (mx_pool mx) of
        (None, p1) \<Rightarrow> Inr (tr, mx\<lparr>mx_pool := p1\<rparr>)
      | (Some a, p1) \<Rightarrow>
          send_and_free env tr
            \<lparr>s_self = a, s_rects = None, s_start_display_time = 0, s_end_display_time = 1\<rparr>
            (cue_pts90 env tr (end_ms e)) (mx\<lparr>mx_pool := p1\<rparr>))"

definition emit_cue :: "demux_env \<Rightarrow> nat \<Rightarrow> SubTrack \<Rightarrow> mux_state \<Rightarrow> nat \<Rightarrow>
    (SubTrack \<times> mux_state \<times> nat) cres" where
  "emit_cue env t tr mx n =
     (let e = tr_entries tr ! tr_cur_sub tr
      in sbind (show_cue env t e tr mx) (\<lambda>(tr1, mx1, k).
         sbind (clear_cue env e tr1 mx1) (\<lambda>(tr2, mx2).
         Inr (tr2\<lparr>tr_cur_sub := tr_cur_sub tr2 + 1\<rparr>, mx2, n + k))))"

text \<open>The condition of the inner loop; \<open>None\<close> is \<^verbatim>\<open>AV_NOPTS_VALUE\<close>, which is before every cue.\<close>

definition cue_due :: "SubTrack \<Rightarrow> int option \<Rightarrow> bool" where
  "cue_due tr cmp90 \<longleftrightarrow>
     tr_cur_sub tr < length (tr_entries tr) \<and>
     (case cmp90 of
        None \<Rightarrow> False
      | Some c \<Rightarrow> (start_ms (tr_entries tr ! tr_cur_sub tr) + tr_delay tr) * 90 \<le> c)"

lemma send_and_free_frame:
  "send_and_free env tr sub p mx = Inr (tr', mx') \<Longrightarrow> same_track tr tr'"
  by (auto simp: send_and_free_def sbind_eq_Inr_iff split: if_splits dest: encode_Inr)

lemma show_cue_frame: "show_cue env t e tr mx = Inr (tr', mx', k) \<Longrightarrow> same_track tr tr'"
  by (auto simp: show_cue_def Let_def sbind_eq_Inr_iff split: option.splits dest: send_and_free_frame)

lemma clear_cue_frame: "clear_cue env e tr mx = Inr (tr', mx') \<Longrightarrow> same_track tr tr'"
  by (auto simp: clear_cue_def split: prod.splits option.splits dest: send_and_free_frame)

lemma emit_cue_Inr:
  assumes "emit_cue env t tr mx n = Inr (tr', mx', n')"
  obtains tr1 mx1 k tr2 where
    "show_cue env t (tr_entries tr ! tr_cur_sub tr) tr mx = Inr (tr1, mx1, k)"
    "clear_cue env (tr_entries tr ! tr_cur_sub tr) tr1 mx1 = Inr (tr2, mx')"
    "tr' = tr2\<lparr>tr_cur_sub := tr_cur_sub tr2 + 1\<rparr>" "n' = n + k"
  using assms by (auto simp: emit_cue_def Let_def sbind_eq_Inr_iff)

lemma emit_cue_frame:
  assumes "emit_cue env t tr mx n = Inr (tr', mx', n')"
  shows "same_track (tr\<lparr>tr_cur_sub := tr_cur_sub tr + 1\<rparr>) tr'"
proof -
  obtain tr1 mx1 k tr2 where
    e: "show_cue env t (tr_entries tr ! tr_cur_sub tr) tr mx = Inr (tr1, mx1, k)"
    "clear_cue env (tr_entries tr ! tr_cur_sub tr) tr1 mx1 = Inr (tr2, mx')"
    "tr' = tr2\<lparr>tr_cur_sub := tr_cur_sub tr2 + 1\<rparr>"
    by (rule emit_cue_Inr [OF assms])
  show ?thesis using show_cue_frame [OF e(1)] clear_cue_frame [OF e(2)] e(3)
    by (simp add: same_track_def)
qed

function emit_due :: "demux_env \<Rightarrow> nat \<Rightarrow> int option \<Rightarrow> SubTrack \<Rightarrow> mux_state \<Rightarrow> nat \<Rightarrow>
    (SubTrack \<times> mux_state \<times> nat) cres" where
  "emit_due env t cmp90 tr mx n =
     (if cue_due tr cmp90 then
        sbind (emit_cue env t tr mx n) (\<lambda>r. emit_due env t cmp90 (fst r) (fst (snd r)) (snd (snd r)))
      else Inr (tr, mx, n))"
  by pat_completeness auto
termination
proof (relation "measure (\<lambda>(_, _, _, tr, _). length (tr_entries tr) - tr_cur_sub tr)", simp, goal_cases)
  case (1 env t cmp90 tr mx n r)
  obtain tr' mx' n' where "r = (tr', mx', n')" by (rule prod_cases3)
  with 1 emit_cue_frame [of env t tr mx n tr' mx' n'] show ?case
    by (auto simp: cue_due_def same_track_def)
qed

declare emit_due.simps [simp del]

fun emit_tracks :: "demux_env \<Rightarrow> nat \<Rightarrow> int option \<Rightarrow> SubTrack list \<Rightarrow> mux_state \<Rightarrow> nat \<Rightarrow>
    (SubTrack list \<times> mux_state \<times> nat) cres" where
  "emit_tracks env t cmp90 [] mx n = Inr ([], mx, n)"
| "emit_tracks env t cmp90 (tr # trs) mx n =
     sbind (emit_due env t cmp90 tr mx n) (\<lambda>(tr', mx', n').
     sbind (emit_tracks env (t + 1) cmp90 trs mx' n') (\<lambda>(trs', mx'', n'').
     Inr (tr' # trs', mx'', n'')))"

text \<open>The packet goes to the output, unless there is no stream for it or nothing is muxed.\<close>

definition pass_on :: "demux_env \<Rightarrow> nat \<Rightarrow> int option \<Rightarrow> in_packet \<Rightarrow> mux_state \<Rightarrow> mux_state" where
  "pass_on env s pts pkt mx =
     (if de_png_only env then mx
      else
        (case de_out_stream env s of
           None \<Rightarrow> mx
         | Some k \<Rightarrow>
             let p = \<lparr>pk_stream = k, pk_pts = pts, pk_dts = ip_dts pkt, pk_data = ip_data pkt\<rparr>
             in if ml_write (de_lib env) p < 0 then mx else mx\<lparr>mx_out := mx_out mx @ [p]\<rparr>))"

definition packet_pts :: "in_packet \<Rightarrow> int option" where
  "packet_pts pkt = (if ip_pts pkt = None then ip_dts pkt else ip_pts pkt)"

definition packet_dropped :: "demux_env \<Rightarrow> in_packet \<Rightarrow> bool" where
  "packet_dropped env pkt \<longleftrightarrow>
     ip_stream pkt < 0 \<or> ip_stream pkt \<ge> int (de_nb_streams env) \<or>
     is_overwrite_stream (de_overwrite_subs env) (de_targets env) (ip_stream pkt)"

definition packet_time :: "demux_env \<Rightarrow> in_packet \<Rightarrow> int option" where
  "packet_time env pkt =
     map_option (\<lambda>p. ml_rescale (de_lib env) p (de_time_base env (nat (ip_stream pkt))) tb_90k)
       (packet_pts pkt)"

definition process_packet :: "demux_env \<Rightarrow> in_packet \<Rightarrow> demux \<Rightarrow> demux cres" where
  "process_packet env pkt dx0 =
     (let dx = dx0\<lparr>dx_pkt_count := dx_pkt_count dx0 + 1\<rparr>
      in if packet_dropped env pkt then Inr dx
         else
           let cur90 = packet_time env pkt;
               last_valid = (if cur90 \<noteq> None then cur90 else dx_last_valid dx);
               cmp90 = (if cur90 \<noteq> None then cur90 else last_valid)
           in sbind (emit_tracks env 0 cmp90 (dx_tracks dx) (dx_mux dx) (dx_subs_emitted dx))
                (\<lambda>(trs, mx, n).
                  Inr (dx\<lparr>dx_tracks := trs, dx_subs_emitted := n, dx_last_valid := last_valid,
                          dx_mux := pass_on env (nat (ip_stream pkt)) (packet_pts pkt) pkt mx\<rparr>)))"

fun demux_loop :: "demux_env \<Rightarrow> in_packet list \<Rightarrow> demux \<Rightarrow> demux cres" where
  "demux_loop env [] dx = Inr dx"
| "demux_loop env (pkt # pkts) dx =
     (if de_stop env (dx_pkt_count dx) then Inr dx
      else sbind (process_packet env pkt dx) (demux_loop env pkts))"

subsection \<open>Which cues are written\<close>

text \<open>The cue with number \<open>i\<close> has come at the time \<open>c\<close>.\<close>

definition due_at :: "SubTrack \<Rightarrow> int \<Rightarrow> nat \<Rightarrow> bool" where
  "due_at tr c i \<longleftrightarrow> (start_ms (tr_entries tr ! i) + tr_delay tr) * 90 \<le> c"

text \<open>The same track, further on.\<close>

definition moved_on :: "SubTrack \<Rightarrow> SubTrack \<Rightarrow> bool" where
  "moved_on tr tr' \<longleftrightarrow>
     tr_entries tr' = tr_entries tr \<and> tr_stream tr' = tr_stream tr \<and> tr_codec tr' = tr_codec tr \<and>
     tr_delay tr' = tr_delay tr \<and> tr_cur_sub tr \<le> tr_cur_sub tr'"

lemma moved_on_refl [simp]: "moved_on tr tr"
  by (simp add: moved_on_def)

lemma moved_on_trans: "moved_on a b \<Longrightarrow> moved_on b c \<Longrightarrow> moved_on a c"
  by (simp add: moved_on_def)

lemma same_track_moved: "same_track tr tr' \<Longrightarrow> moved_on tr tr'"
  by (simp add: same_track_def moved_on_def)

lemma emit_cue_moved:
  "emit_cue env t tr mx n = Inr (tr', mx', n') \<Longrightarrow> moved_on tr tr' \<and> tr_cur_sub tr' = tr_cur_sub tr + 1"
  by (drule emit_cue_frame) (simp add: same_track_def moved_on_def)

lemma moved_on_due: "moved_on tr tr' \<Longrightarrow> due_at tr' = due_at tr"
  by (simp add: moved_on_def due_at_def fun_eq_iff)

lemma emit_due_step:
  assumes "emit_due env t c tr mx n = Inr r" and "cue_due tr c"
  obtains tr1 mx1 n1 where "emit_cue env t tr mx n = Inr (tr1, mx1, n1)"
    and "emit_due env t c tr1 mx1 n1 = Inr r"
  using assms by (subst (asm) emit_due.simps) (auto simp: sbind_eq_Inr_iff)

lemma emit_due_stop: "\<not> cue_due tr c \<Longrightarrow> emit_due env t c tr mx n = Inr (tr, mx, n)"
  by (simp add: emit_due.simps)

text \<open>The inner loop runs over cues that have come, and stops at one that has not.\<close>

lemma emit_due_moved:
  "emit_due env t c tr mx n = Inr (tr', mx', n') \<Longrightarrow>
   moved_on tr tr' \<and> \<not> cue_due tr' c \<and>
   (\<forall>i. tr_cur_sub tr \<le> i \<longrightarrow> i < tr_cur_sub tr' \<longrightarrow>
      i < length (tr_entries tr) \<and> (\<exists>d. c = Some d \<and> due_at tr d i))"
proof (induction env t c tr mx n rule: emit_due.induct)
  case (1 env t c tr mx n)
  show ?case
  proof (cases "cue_due tr c")
    case False
    with 1(2) show ?thesis by (simp add: emit_due_stop)
  next
    case True
    obtain tr1 mx1 n1 where e: "emit_cue env t tr mx n = Inr (tr1, mx1, n1)"
      and r: "emit_due env t c tr1 mx1 n1 = Inr (tr', mx', n')"
      by (rule emit_due_step [OF 1(2) True])
    note m = emit_cue_moved [OF e] and d = moved_on_due [OF conjunct1 [OF emit_cue_moved [OF e]]]
    from 1(1) [OF True e] r have IH: "moved_on tr1 tr'" "\<not> cue_due tr' c"
      "\<And>i. tr_cur_sub tr1 \<le> i \<Longrightarrow> i < tr_cur_sub tr' \<Longrightarrow>
        i < length (tr_entries tr1) \<and> (\<exists>d. c = Some d \<and> due_at tr1 d i)" by auto
    have now: "tr_cur_sub tr < length (tr_entries tr) \<and> (\<exists>d. c = Some d \<and> due_at tr d (tr_cur_sub tr))"
      using True by (auto simp: cue_due_def due_at_def split: option.splits)
    have "i < length (tr_entries tr) \<and> (\<exists>d. c = Some d \<and> due_at tr d i)"
      if "tr_cur_sub tr \<le> i" "i < tr_cur_sub tr'" for i
    proof (cases "i = tr_cur_sub tr")
      case False
      with that IH(3) [of i] m show ?thesis by (simp add: d moved_on_def)
    qed (use now in simp)
    with IH(1,2) m show ?thesis by (blast intro: moved_on_trans)
  qed
qed

text \<open>With the cues in order, exactly those that have come are behind the cursor.\<close>

definition cues_in_order :: "SubTrack \<Rightarrow> bool" where
  "cues_in_order tr \<longleftrightarrow>
     (\<forall>i j. i \<le> j \<longrightarrow> j < length (tr_entries tr) \<longrightarrow>
        start_ms (tr_entries tr ! i) \<le> start_ms (tr_entries tr ! j))"

lemma cues_in_order_due: "cues_in_order tr \<Longrightarrow> due_at tr d j \<Longrightarrow> i \<le> j \<Longrightarrow> j < length (tr_entries tr) \<Longrightarrow> due_at tr d i"
  by (fastforce simp: cues_in_order_def due_at_def)

lemma moved_on_order: "moved_on tr tr' \<Longrightarrow> cues_in_order tr' = cues_in_order tr"
  by (simp add: moved_on_def cues_in_order_def)

lemma parsed_in_order:
  assumes "parse_srt_internal penv f q = Inr (es, q')" and "tr_entries tr = es"
  shows "cues_in_order tr"
proof -
  from assms(1) obtain b where "f = Some b" by (cases f) (simp_all add: parse_srt_internal_def)
  with assms(1) obtain ps where "parse_inv penv q ps" "ps_entries ps = es"
    using parse_srt_internal_inv by metis
  then have ch: "cue_chain es" by (auto simp: parse_inv_def)
  have "start_ms (es ! a) \<le> start_ms (es ! b)" if "a \<le> b" "b < length es" for a b
  proof (cases "a = b")
    case False
    have "start_ms (es ! a) \<le> end_ms (es ! a)" using cue_chain_ordered [OF ch] that by simp
    also have "\<dots> \<le> start_ms (es ! b)" using cue_chain_nth [OF ch] that False by simp
    finally show ?thesis .
  qed simp
  then show ?thesis by (simp add: cues_in_order_def assms(2))
qed

lemma emit_due_exact:
  assumes "emit_due env t c tr mx n = Inr (tr', mx', n')" and "cues_in_order tr"
  shows "i < tr_cur_sub tr' \<longleftrightarrow>
    i < tr_cur_sub tr \<or> (i < length (tr_entries tr) \<and> (\<exists>d. c = Some d \<and> due_at tr d i))"
proof -
  note E = emit_due_moved [OF assms(1)]
  note D = moved_on_due [OF conjunct1 [OF E]]
  have "i < tr_cur_sub tr'" if i: "i < length (tr_entries tr)" and d: "c = Some d" "due_at tr d i" for d
  proof (rule ccontr)
    assume "\<not> i < tr_cur_sub tr'"
    then have "tr_cur_sub tr' \<le> i" by simp
    with cues_in_order_due [OF assms(2) d(2) this i] i d(1) E D have "cue_due tr' c"
      by (simp add: cue_due_def due_at_def moved_on_def)
    with E show False by blast
  qed
  with E show ?thesis by (auto simp: moved_on_def not_less)
qed

lemma emit_tracks_each:
  "emit_tracks env t c trs mx n = Inr (trs', mx', n') \<Longrightarrow>
   length trs' = length trs \<and>
   (\<forall>i<length trs. \<exists>mx1 n1 mx2 n2. emit_due env (t + i) c (trs ! i) mx1 n1 = Inr (trs' ! i, mx2, n2))"
proof (induction trs arbitrary: t mx n trs' mx' n')
  case (Cons tr trs)
  from Cons.prems obtain tr1 mx1 n1 trs1 where
    e: "emit_due env t c tr mx n = Inr (tr1, mx1, n1)"
    and r: "emit_tracks env (t + 1) c trs mx1 n1 = Inr (trs1, mx', n')" and t': "trs' = tr1 # trs1"
    by (auto simp: sbind_eq_Inr_iff)
  note IH = Cons.IH [OF r]
  have "\<exists>mx1 n1 mx2 n2. emit_due env (t + i) c ((tr # trs) ! i) mx1 n1 = Inr (trs' ! i, mx2, n2)"
    if "i < length (tr # trs)" for i
    using that e IH by (cases i) (auto simp: t')
  with IH t' show ?case by simp
qed simp

text \<open>The packets read before the loop is asked to stop, and the times they carry.\<close>

fun packets_read :: "demux_env \<Rightarrow> nat \<Rightarrow> in_packet list \<Rightarrow> in_packet list" where
  "packets_read env k [] = []"
| "packets_read env k (p # ps) = (if de_stop env k then [] else p # packets_read env (k + 1) ps)"

definition times_seen :: "demux_env \<Rightarrow> in_packet list \<Rightarrow> int set" where
  "times_seen env ps = {c. \<exists>p\<in>set ps. \<not> packet_dropped env p \<and> packet_time env p = Some c}"

lemma times_seen_simps [simp]:
  "times_seen env [] = {}"
  "times_seen env (p # ps) =
     (if packet_dropped env p then {} else set_option (packet_time env p)) \<union> times_seen env ps"
  by (auto simp: times_seen_def)

lemma process_packet_Inr:
  assumes "process_packet env pkt dx = Inr dx'"
  shows "dx_pkt_count dx' = dx_pkt_count dx + 1"
    and "packet_dropped env pkt \<Longrightarrow> dx' = dx\<lparr>dx_pkt_count := dx_pkt_count dx + 1\<rparr>"
    and "\<not> packet_dropped env pkt \<Longrightarrow>
      dx_last_valid dx' = (if packet_time env pkt = None then dx_last_valid dx else packet_time env pkt) \<and>
      (\<exists>mx. emit_tracks env 0 (dx_last_valid dx') (dx_tracks dx) (dx_mux dx) (dx_subs_emitted dx) =
         Inr (dx_tracks dx', mx, dx_subs_emitted dx') \<and>
         dx_mux dx' = pass_on env (nat (ip_stream pkt)) (packet_pts pkt) pkt mx)"
  using assms by (auto simp: process_packet_def Let_def sbind_eq_Inr_iff split: if_splits)

text \<open>The cursor of a track after the loop: \<open>l\<close> is the time carried over from before it, which all cues
  behind the cursor know about.\<close>

lemma demux_loop_cursor:
  assumes "demux_loop env pkts dx = Inr dx'" and "t < length (dx_tracks dx)"
    and "cues_in_order (dx_tracks dx ! t)"
    and "\<forall>d. dx_last_valid dx = Some d \<longrightarrow> \<not> cue_due (dx_tracks dx ! t) (Some d)"
  shows "length (dx_tracks dx') = length (dx_tracks dx) \<and> moved_on (dx_tracks dx ! t) (dx_tracks dx' ! t) \<and>
    (i < tr_cur_sub (dx_tracks dx' ! t) \<longleftrightarrow>
      i < tr_cur_sub (dx_tracks dx ! t) \<or>
      (i < length (tr_entries (dx_tracks dx ! t)) \<and>
       (\<exists>c\<in>times_seen env (packets_read env (dx_pkt_count dx) pkts). due_at (dx_tracks dx ! t) c i)))"
  using assms
proof (induction pkts arbitrary: dx)
  case (Cons pkt pkts)
  show ?case
  proof (cases "de_stop env (dx_pkt_count dx)")
    case True
    with Cons.prems(1) show ?thesis by simp
  next
    case False
    with Cons.prems(1) obtain dx1 where p: "process_packet env pkt dx = Inr dx1"
      and r: "demux_loop env pkts dx1 = Inr dx'" by (auto simp: sbind_eq_Inr_iff)
    note P = process_packet_Inr [OF p]
    show ?thesis
    proof (cases "packet_dropped env pkt")
      case True
      with P(2) Cons.IH [OF r] Cons.prems False show ?thesis by simp
    next
      case nd: False
      let ?tr = "dx_tracks dx ! t" and ?tr1 = "dx_tracks dx1 ! t"
      from P(3) [OF nd] obtain mx where
        lv: "dx_last_valid dx1 = (if packet_time env pkt = None then dx_last_valid dx else packet_time env pkt)"
        and em: "emit_tracks env 0 (dx_last_valid dx1) (dx_tracks dx) (dx_mux dx) (dx_subs_emitted dx) =
          Inr (dx_tracks dx1, mx, dx_subs_emitted dx1)" by blast
      note T = emit_tracks_each [OF em]
      from T Cons.prems(2) obtain mx1 n1 mx2 n2 where
        e: "emit_due env t (dx_last_valid dx1) ?tr mx1 n1 = Inr (?tr1, mx2, n2)" by auto
      note M = emit_due_moved [OF e] and X = emit_due_exact [OF e Cons.prems(3)]
      have old: "due_at ?tr d i \<Longrightarrow> i < tr_cur_sub ?tr" 
        if "dx_last_valid dx = Some d" "i < length (tr_entries ?tr)" for d
      proof (rule ccontr)
        assume a: "due_at ?tr d i" "\<not> i < tr_cur_sub ?tr"
        with cues_in_order_due [OF Cons.prems(3) a(1), of "tr_cur_sub ?tr"] that Cons.prems(4) show False
          by (simp add: cue_due_def due_at_def)
      qed
      have "length (dx_tracks dx') = length (dx_tracks dx1) \<and> moved_on ?tr1 (dx_tracks dx' ! t) \<and>
        (i < tr_cur_sub (dx_tracks dx' ! t) \<longleftrightarrow>
          i < tr_cur_sub ?tr1 \<or>
          (i < length (tr_entries ?tr1) \<and>
           (\<exists>c\<in>times_seen env (packets_read env (dx_pkt_count dx1) pkts). due_at ?tr1 c i)))"
        using T M Cons.prems by (intro Cons.IH [OF r]) (auto simp: moved_on_order)
      moreover have "moved_on ?tr (dx_tracks dx' ! t)" if "moved_on ?tr1 (dx_tracks dx' ! t)"
        using M that by (blast intro: moved_on_trans)
      moreover have "tr_entries ?tr1 = tr_entries ?tr" "due_at ?tr1 = due_at ?tr"
        using M moved_on_due [of ?tr ?tr1] by (auto simp: moved_on_def)
      moreover have "i < tr_cur_sub ?tr1 \<longleftrightarrow> i < tr_cur_sub ?tr \<or>
          (i < length (tr_entries ?tr) \<and> (\<exists>c\<in>set_option (packet_time env pkt). due_at ?tr c i))"
        using X old lv by (cases "packet_time env pkt") auto
      ultimately show ?thesis using T P(1) nd False by (auto simp: bex_Un)
    qed
  qed
qed simp

subsection \<open>The order of the packets of a stream\<close>

definition stream_in_time :: "nat \<Rightarrow> SubTrack \<Rightarrow> mux_state \<Rightarrow> bool" where
  "stream_in_time k tr mx \<longleftrightarrow>
     sorted_wrt (<) (stream_times k (mx_out mx)) \<and>
     (\<forall>t\<in>set (stream_times k (mx_out mx)). \<exists>l. tr_last_pts tr = Some l \<and> t \<le> l)"

text \<open>Only packets of the streams \<open>K\<close> were added.\<close>

definition out_grows :: "nat set \<Rightarrow> mux_state \<Rightarrow> mux_state \<Rightarrow> bool" where
  "out_grows K mx mx' \<longleftrightarrow> (\<exists>ps. mx_out mx' = mx_out mx @ ps \<and> pk_stream ` set ps \<subseteq> K)"

lemma out_grows_refl [simp]: "mx_out mx' = mx_out mx \<Longrightarrow> out_grows K mx mx'"
  by (simp add: out_grows_def)

lemma out_grows_trans: "out_grows K a b \<Longrightarrow> out_grows K b c \<Longrightarrow> out_grows K a c"
  by (force simp: out_grows_def)

lemma out_grows_mono: "out_grows K a b \<Longrightarrow> K \<subseteq> L \<Longrightarrow> out_grows L a b"
  by (force simp: out_grows_def)

lemma out_grows_times:
  assumes "out_grows K mx mx'" and "k \<notin> K"
  shows "stream_in_time k tr mx' = stream_in_time k tr mx"
proof -
  from assms(1) obtain ps where o: "mx_out mx' = mx_out mx @ ps" and K: "pk_stream ` set ps \<subseteq> K"
    by (auto simp: out_grows_def)
  from K assms(2) have "stream_times k ps = []" by (auto simp: stream_times_def filter_empty_conv)
  with o show ?thesis by (simp add: stream_in_time_def)
qed

definition keeps_time :: "nat \<Rightarrow> SubTrack \<times> mux_state \<Rightarrow> SubTrack \<times> mux_state \<Rightarrow> bool" where
  "keeps_time k s s' \<longleftrightarrow>
     tr_stream (fst s') = tr_stream (fst s) \<and> out_grows {k} (snd s) (snd s') \<and>
     (stream_in_time k (fst s) (snd s) \<longrightarrow> stream_in_time k (fst s') (snd s'))"

lemma keeps_time_trans: "keeps_time k a b \<Longrightarrow> keeps_time k b c \<Longrightarrow> keeps_time k a c"
  by (auto simp: keeps_time_def intro: out_grows_trans)

lemma keeps_time_pool [simp]: "keeps_time k s (tr, mx\<lparr>mx_pool := p\<rparr>) = keeps_time k s (tr, mx)"
  by (simp add: keeps_time_def out_grows_def stream_in_time_def)

lemma keeps_time_pool' [simp]: "keeps_time k (tr, mx\<lparr>mx_pool := p\<rparr>) s = keeps_time k (tr, mx) s"
  by (simp add: keeps_time_def out_grows_def stream_in_time_def)

lemma keeps_time_refl [simp]: "keeps_time k s s"
  by (simp add: keeps_time_def)

lemma keeps_time_cursor [simp]:
  "keeps_time k s (tr\<lparr>tr_cur_sub := c\<rparr>, mx) = keeps_time k s (tr, mx)"
  by (simp add: keeps_time_def stream_in_time_def)

lemma encode_keeps_time:
  assumes "encode_and_write_subtitle lib tr sub p mx = Inr (tr', mx')"
    and "tr_stream tr = Some (k, tb_90k)"
  shows "keeps_time k (tr, mx) (tr', mx')"
proof -
  have "stream_in_time k tr' mx'" if "stream_in_time k tr mx"
    using writer.in_time_send [of "(tr, mx)" k lib sub p "(tr', mx')"] assms that
    by (simp add: writer.in_time_def stream_in_time_def)
  moreover have "out_grows {k} mx mx'"
    using encode_Inr [OF assms(1)] assms(2) by (auto simp: out_grows_def sub_packet_def Let_def)
  moreover have "tr_stream tr' = tr_stream tr" using encode_Inr [OF assms(1)] by (simp add: same_track_def)
  ultimately show ?thesis by (simp add: keeps_time_def)
qed

lemma send_keeps_time:
  assumes "send_and_free env tr sub p mx = Inr (tr', mx')" and "tr_stream tr = Some (k, tb_90k)"
  shows "keeps_time k (tr, mx) (tr', mx')"
proof (cases "de_png_only env")
  case True
  with assms(1) show ?thesis by (auto simp: send_and_free_def sbind_eq_Inr_iff)
next
  case False
  with assms(1) obtain mx1 where
    "encode_and_write_subtitle (de_lib env) tr (Some sub) p mx = Inr (tr', mx1)" "\<exists>q. mx' = mx1\<lparr>mx_pool := q\<rparr>"
    by (auto simp: send_and_free_def sbind_eq_Inr_iff)
  with encode_keeps_time [OF this(1) assms(2)] show ?thesis by auto
qed

lemma send_keeps_time':
  assumes "send_and_free env tr sub p (mx\<lparr>mx_pool := q\<rparr>) = Inr (tr', mx')" and "tr_stream tr = Some (k, tb_90k)"
  shows "keeps_time k (tr, mx) (tr', mx')"
  using send_keeps_time [OF assms] by simp

lemma show_keeps_time:
  assumes "show_cue env t e tr mx = Inr (tr', mx', j)" and "tr_stream tr = Some (k, tb_90k)"
  shows "keeps_time k (tr, mx) (tr', mx')"
  using assms
  by (auto simp: show_cue_def Let_def sbind_eq_Inr_iff split: option.splits elim: send_keeps_time')

lemma clear_keeps_time:
  assumes "clear_cue env e tr mx = Inr (tr', mx')" and "tr_stream tr = Some (k, tb_90k)"
  shows "keeps_time k (tr, mx) (tr', mx')"
  using assms by (auto simp: clear_cue_def split: prod.splits option.splits elim: send_keeps_time')

lemma emit_cue_keeps_time:
  assumes "emit_cue env t tr mx n = Inr (tr', mx', n')" and k: "tr_stream tr = Some (k, tb_90k)"
  shows "keeps_time k (tr, mx) (tr', mx')"
proof -
  obtain tr1 mx1 j tr2 where
    e: "show_cue env t (tr_entries tr ! tr_cur_sub tr) tr mx = Inr (tr1, mx1, j)"
    "clear_cue env (tr_entries tr ! tr_cur_sub tr) tr1 mx1 = Inr (tr2, mx')"
    "tr' = tr2\<lparr>tr_cur_sub := tr_cur_sub tr2 + 1\<rparr>"
    by (rule emit_cue_Inr [OF assms(1)])
  have s: "keeps_time k (tr, mx) (tr1, mx1)"
    using e(1) k by (rule show_keeps_time)
  then have k1: "tr_stream tr1 = Some (k, tb_90k)" using k by (simp add: keeps_time_def)
  have "keeps_time k (tr1, mx1) (tr2, mx')"
    using e(2) k1 by (rule clear_keeps_time)
  with s e(3) show ?thesis by (auto intro: keeps_time_trans)
qed

lemma emit_due_keeps_time:
  "emit_due env t c tr mx n = Inr (tr', mx', n') \<Longrightarrow> tr_stream tr = Some (k, tb_90k) \<Longrightarrow>
   keeps_time k (tr, mx) (tr', mx')"
proof (induction env t c tr mx n rule: emit_due.induct)
  case (1 env t c tr mx n)
  show ?case
  proof (cases "cue_due tr c")
    case False
    with 1(2) show ?thesis by (simp add: emit_due_stop)
  next
    case True
    obtain tr1 mx1 n1 where e: "emit_cue env t tr mx n = Inr (tr1, mx1, n1)"
      and r: "emit_due env t c tr1 mx1 n1 = Inr (tr', mx', n')"
      by (rule emit_due_step [OF 1(2) True])
    note s = emit_cue_keeps_time [OF e 1(3)]
    then have "tr_stream tr1 = Some (k, tb_90k)" using 1(3) by (simp add: keeps_time_def)
    with 1(1) [OF True e] r s show ?thesis by (auto intro: keeps_time_trans)
  qed
qed

text \<open>Every track has a stream of its own, in ticks of 90 kHz.\<close>

definition sub_streams :: "SubTrack list \<Rightarrow> nat set" where
  "sub_streams trs = {k. \<exists>tr\<in>set trs. tr_stream tr = Some (k, tb_90k)}"

definition own_streams :: "SubTrack list \<Rightarrow> bool" where
  "own_streams trs \<longleftrightarrow> distinct (map tr_stream trs) \<and> (\<forall>tr\<in>set trs. \<exists>k. tr_stream tr = Some (k, tb_90k))"

definition all_in_time :: "SubTrack list \<Rightarrow> mux_state \<Rightarrow> bool" where
  "all_in_time trs mx \<longleftrightarrow> (\<forall>tr\<in>set trs. \<forall>k. tr_stream tr = Some (k, tb_90k) \<longrightarrow> stream_in_time k tr mx)"

lemma all_in_time_frame:
  assumes "all_in_time trs mx" and "out_grows K mx mx'" and "K \<inter> sub_streams trs = {}"
  shows "all_in_time trs mx'"
  unfolding all_in_time_def
proof (intro ballI allI impI)
  fix tr k
  assume t: "tr \<in> set trs" "tr_stream tr = Some (k, tb_90k)"
  then have "k \<notin> K" using assms(3) by (auto simp: sub_streams_def)
  with t assms(1) out_grows_times [OF assms(2)] show "stream_in_time k tr mx'" by (simp add: all_in_time_def)
qed

lemma sub_streams_image: "sub_streams trs = {k. Some (k, tb_90k) \<in> set (map tr_stream trs)}"
  by (force simp: sub_streams_def image_iff)

lemma own_streams_image:
  "own_streams trs \<longleftrightarrow>
   distinct (map tr_stream trs) \<and> (\<forall>x\<in>set (map tr_stream trs). \<exists>k. x = Some (k, tb_90k))"
  by (simp add: own_streams_def)

lemma own_streams_cong: "map tr_stream trs' = map tr_stream trs \<Longrightarrow> own_streams trs' = own_streams trs"
  by (simp only: own_streams_image)

lemma sub_streams_cong: "map tr_stream trs' = map tr_stream trs \<Longrightarrow> sub_streams trs' = sub_streams trs"
  by (simp only: sub_streams_image)

lemma emit_tracks_in_time:
  "emit_tracks env t c trs mx n = Inr (trs', mx', n') \<Longrightarrow> own_streams trs \<Longrightarrow> all_in_time trs mx \<Longrightarrow>
   map tr_stream trs' = map tr_stream trs \<and> all_in_time trs' mx' \<and> out_grows (sub_streams trs) mx mx'"
proof (induction trs arbitrary: t mx n trs' mx' n')
  case Nil
  then show ?case by (simp add: all_in_time_def)
next
  case (Cons tr trs)
  from Cons.prems(1) obtain tr1 mx1 n1 trs1 where
    e: "emit_due env t c tr mx n = Inr (tr1, mx1, n1)"
    and r: "emit_tracks env (t + 1) c trs mx1 n1 = Inr (trs1, mx', n')" and t': "trs' = tr1 # trs1"
    by (auto simp: sbind_eq_Inr_iff)
  from Cons.prems(2) obtain k where k: "tr_stream tr = Some (k, tb_90k)" and own: "own_streams trs"
    and nk: "k \<notin> sub_streams trs"
    by (force simp: own_streams_def sub_streams_def)
  note K = emit_due_keeps_time [OF e k, unfolded keeps_time_def fst_conv snd_conv]
  have "all_in_time trs mx1"
    using Cons.prems(3) K nk all_in_time_frame [of trs mx "{k}" mx1] by (simp add: all_in_time_def)
  note IH = Cons.IH [OF r own this]
  have "stream_in_time k tr1 mx'"
    using K Cons.prems(3) k IH nk out_grows_times [of "sub_streams trs" mx1 mx' k] by (simp add: all_in_time_def)
  moreover have "sub_streams (tr # trs) = insert k (sub_streams trs)" using k by (auto simp: sub_streams_def)
  moreover have "out_grows (insert k (sub_streams trs)) mx mx'"
    using K IH by (blast intro: out_grows_trans out_grows_mono)
  ultimately show ?case using IH K k t' by (simp add: all_in_time_def)
qed

text \<open>No packet that is passed on goes to the stream of a track.\<close>

definition streams_apart :: "demux_env \<Rightarrow> SubTrack list \<Rightarrow> bool" where
  "streams_apart env trs \<longleftrightarrow>
     (\<forall>s k. s < de_nb_streams env \<longrightarrow> de_out_stream env s = Some k \<longrightarrow>
        \<not> is_overwrite_stream (de_overwrite_subs env) (de_targets env) (int s) \<longrightarrow> k \<notin> sub_streams trs)"

lemma pass_on_grows:
  "out_grows (set_option (de_out_stream env s)) mx (pass_on env s pts pkt mx)"
  by (auto simp: out_grows_def pass_on_def Let_def split: option.split)

lemma demux_loop_in_time:
  "demux_loop env pkts dx = Inr dx' \<Longrightarrow> own_streams (dx_tracks dx) \<Longrightarrow> streams_apart env (dx_tracks dx) \<Longrightarrow>
   all_in_time (dx_tracks dx) (dx_mux dx) \<Longrightarrow>
   map tr_stream (dx_tracks dx') = map tr_stream (dx_tracks dx) \<and> all_in_time (dx_tracks dx') (dx_mux dx')"
proof (induction pkts arbitrary: dx)
  case (Cons pkt pkts)
  show ?case
  proof (cases "de_stop env (dx_pkt_count dx)")
    case True
    with Cons.prems show ?thesis by simp
  next
    case False
    with Cons.prems(1) obtain dx1 where p: "process_packet env pkt dx = Inr dx1"
      and r: "demux_loop env pkts dx1 = Inr dx'" by (auto simp: sbind_eq_Inr_iff)
    note P = process_packet_Inr [OF p]
    have "map tr_stream (dx_tracks dx1) = map tr_stream (dx_tracks dx) \<and> all_in_time (dx_tracks dx1) (dx_mux dx1)"
    proof (cases "packet_dropped env pkt")
      case True
      with P(2) Cons.prems show ?thesis by simp
    next
      case nd: False
      from P(3) [OF nd] obtain mx where
        em: "emit_tracks env 0 (dx_last_valid dx1) (dx_tracks dx) (dx_mux dx) (dx_subs_emitted dx) =
          Inr (dx_tracks dx1, mx, dx_subs_emitted dx1)"
        and mx: "dx_mux dx1 = pass_on env (nat (ip_stream pkt)) (packet_pts pkt) pkt mx" by blast
      note T = emit_tracks_in_time [OF em Cons.prems(2,4)]
      have s: "nat (ip_stream pkt) < de_nb_streams env"
        "\<not> is_overwrite_stream (de_overwrite_subs env) (de_targets env) (int (nat (ip_stream pkt)))"
        using nd by (auto simp: packet_dropped_def)
      have "set_option (de_out_stream env (nat (ip_stream pkt))) \<inter> sub_streams (dx_tracks dx1) = {}"
        using Cons.prems(3) [unfolded streams_apart_def, rule_format, OF s(1) _ s(2)] T
        by (auto simp: sub_streams_cong [of "dx_tracks dx1" "dx_tracks dx"])
      then have "all_in_time (dx_tracks dx1) (dx_mux dx1)"
        using T all_in_time_frame [OF _ pass_on_grows] mx by simp
      with T show ?thesis by blast
    qed
    with Cons.IH [OF r] Cons.prems(2,3) show ?thesis
      by (simp add: own_streams_cong [of "dx_tracks dx1" "dx_tracks dx"] streams_apart_def
        sub_streams_cong [of "dx_tracks dx1" "dx_tracks dx"])
  qed
qed simp

subsection \<open>Memory\<close>

text \<open>What is relied on: the encoder does not fill its buffer, the renderers deliver proper bitmaps, and
  \<^verbatim>\<open>avsubtitle_free\<close> releases the rectangles of the subtitle it is given and nothing else.\<close>

definition frees_rects :: "(subtitle \<Rightarrow> pool \<Rightarrow> pool cres) \<Rightarrow> bool" where
  "frees_rects free \<longleftrightarrow>
     (\<forall>sub st. pool_inv st \<longrightarrow> owns st sub \<longrightarrow>
        (\<exists>st'. free sub st = Inr st' \<and> pool_inv st' \<and> pool_used st' = pool_used st |` (- rect_blocks sub)))"

definition env_ok :: "demux_env \<Rightarrow> bool" where
  "env_ok env \<longleftrightarrow>
     encoder_ok (de_lib env) \<and> (\<forall>t e. bitmap_ok (de_render env t e)) \<and> frees_rects (de_free_sub env)"

text \<open>The memory of a track before and after: at most its buffer is new.\<close>

definition mem_step :: "SubTrack \<times> pool \<Rightarrow> SubTrack \<times> pool \<Rightarrow> bool" where
  "mem_step s s' \<longleftrightarrow>
     (tr_tmpbuf (fst s) = None \<or> tr_tmpbuf (fst s') = tr_tmpbuf (fst s)) \<and>
     pool_used (snd s) \<subseteq>\<^sub>m pool_used (snd s') \<and>
     dom (pool_used (snd s')) \<subseteq> dom (pool_used (snd s)) \<union> set_option (tr_tmpbuf (fst s')) \<and>
     (tr_tmpbuf (fst s) = None \<longrightarrow> set_option (tr_tmpbuf (fst s')) \<inter> dom (pool_used (snd s)) = {})"

definition mem_ok :: "SubTrack \<times> pool \<Rightarrow> bool" where
  "mem_ok s \<longleftrightarrow> pool_inv (snd s) \<and> tmpbuf_ok (fst s) (snd s)"

lemma mem_step_trans:
  assumes "mem_step a b" and "mem_step b c"
  shows "mem_step a c"
proof -
  have "set_option (tr_tmpbuf (fst b)) \<subseteq> set_option (tr_tmpbuf (fst c))"
    using assms(2) by (auto simp: mem_step_def)
  then have "dom (pool_used (snd c)) \<subseteq> dom (pool_used (snd a)) \<union> set_option (tr_tmpbuf (fst c))"
    using assms unfolding mem_step_def by blast
  moreover have "pool_used (snd a) \<subseteq>\<^sub>m pool_used (snd c)"
    using assms unfolding mem_step_def by (blast intro: map_le_trans)
  moreover have "dom (pool_used (snd a)) \<subseteq> dom (pool_used (snd b))"
    using assms(1) by (simp add: mem_step_def map_le_implies_dom_le)
  then have "tr_tmpbuf (fst a) = None \<longrightarrow> set_option (tr_tmpbuf (fst c)) \<inter> dom (pool_used (snd a)) = {}"
    using assms by (cases "tr_tmpbuf (fst b)") (auto simp: mem_step_def)
  ultimately show ?thesis using assms by (auto simp: mem_step_def)
qed

lemma mem_step_refl [simp]: "mem_step s s"
  by (simp add: mem_step_def)

lemma tmpbuf_ok_mono: "tmpbuf_ok tr p \<Longrightarrow> pool_used p \<subseteq>\<^sub>m pool_used p' \<Longrightarrow> tmpbuf_ok tr p'"
  by (fastforce simp: tmpbuf_ok_def map_le_def dom_def split: option.splits)

lemma tmpbuf_ok_restrict:
  assumes "tmpbuf_ok tr p" and "pool_used q = pool_used p |` B"
    and "\<And>a. tr_tmpbuf tr = Some a \<Longrightarrow> pool_used q a \<noteq> None"
  shows "tmpbuf_ok tr q"
proof (cases "tr_tmpbuf tr")
  case (Some a)
  with assms(3) have "a \<in> B" by (auto simp: assms(2) restrict_map_def split: if_splits)
  with Some assms(1) show ?thesis by (simp add: tmpbuf_ok_def assms(2))
qed (use assms(1) in \<open>simp add: tmpbuf_ok_def\<close>)

lemma only_tmpbuf_step: "only_tmpbuf tr tr' p p' \<Longrightarrow> mem_step (tr, p) (tr', p')"
  by (auto simp: only_tmpbuf_def mem_step_def map_le_def)

lemma owns_grow: "owns p sub \<Longrightarrow> pool_used p \<subseteq>\<^sub>m pool_used p' \<Longrightarrow> owns p' sub"
proof -
  assume o: "owns p sub" and le: "pool_used p \<subseteq>\<^sub>m pool_used p'"
  have "pool_used p' a = Some n" if "pool_used p a = Some n" for a n
    using le that by (metis domI map_le_def)
  then show "owns p' sub" using o by (auto simp: owns_def split: option.splits)
qed

text \<open>A block of a subtitle stays apart from what the encoder adds.\<close>

lemma restrict_step:
  assumes "only_tmpbuf tr tr' p p'" and "B \<subseteq> dom (pool_used p)"
    and "pool_used p0 = pool_used p |` (- B)" and "pool_used q = pool_used p' |` (- B)"
  shows "only_tmpbuf tr tr' p0 q"
proof -
  from assms(1) consider "tr_tmpbuf tr' = tr_tmpbuf tr" "pool_used p' = pool_used p"
    | a n where "tr_tmpbuf tr = None" "tr_tmpbuf tr' = Some a" "pool_used p a = None"
      "pool_used p' = (pool_used p)(a \<mapsto> n)" by (auto simp: only_tmpbuf_def)
  then show ?thesis
  proof cases
    case 1
    with assms show ?thesis by (simp add: only_tmpbuf_def)
  next
    case 2
    then have "a \<notin> B" using assms(2) by auto
    then have "pool_used q = (pool_used p0)(a \<mapsto> n)" "pool_used p0 a = None"
      by (simp_all add: 2 assms(3,4) restrict_map_def fun_eq_iff)
    with 2 show ?thesis unfolding only_tmpbuf_def by blast
  qed
qed

lemma owns_dom: "owns p sub \<Longrightarrow> insert (s_self sub) (rect_blocks sub) \<subseteq> dom (pool_used p)"
  by (auto simp: owns_def rect_blocks_def split: option.splits)

lemma send_and_free_safe:
  assumes env: "env_ok env" and b: "building (pool_used p0) (mx_pool mx) sub" and tb: "tmpbuf_ok tr p0"
  shows "\<exists>tr' mx'. send_and_free env tr sub p mx = Inr (tr', mx') \<and> mem_ok (tr', mx_pool mx') \<and>
    mem_step (tr, p0) (tr', mx_pool mx')"
proof -
  let ?B = "insert (s_self sub) (rect_blocks sub)"
  from b have inv: "pool_inv (mx_pool mx)" and own: "owns (mx_pool mx) sub"
    and U: "pool_used (mx_pool mx) |` (- ?B) = pool_used p0" by (auto simp: building_def)
  have tb1: "tmpbuf_ok tr (mx_pool mx)"
    by (rule tmpbuf_ok_mono [OF tb]) (auto simp: U [symmetric] map_le_def restrict_map_def)
  obtain tr1 mx1 where e: "(if de_png_only env then Inr (tr, mx)
      else encode_and_write_subtitle (de_lib env) tr (Some sub) p mx) = Inr (tr1, mx1)"
    and e1: "pool_inv (mx_pool mx1)" "tmpbuf_ok tr1 (mx_pool mx1)" "only_tmpbuf tr tr1 (mx_pool mx) (mx_pool mx1)"
    using encode_safe [OF _ inv tb1, of "de_lib env" "Some sub" p] env inv tb1
    by (cases "de_png_only env") (auto simp: env_ok_def only_tmpbuf_def)
  have own1: "owns (mx_pool mx1) sub"
    using owns_grow [OF own] only_tmpbuf_step [OF e1(3)] by (simp add: mem_step_def)
  with env e1(1) obtain p1 where f: "de_free_sub env sub (mx_pool mx1) = Inr p1" "pool_inv p1"
    "pool_used p1 = pool_used (mx_pool mx1) |` (- rect_blocks sub)"
    unfolding env_ok_def frees_rects_def by blast
  obtain n where "pool_used p1 (s_self sub) = Some n" using own1 f(3) by (auto simp: owns_def)
  from free_struct [OF f(2) this] obtain p2 where g: "av_free (s_self sub) p1 = Inr p2" "pool_inv p2"
    "pool_used p2 = pool_used p1 |` (- {s_self sub})" by blast
  have q: "pool_used p2 = pool_used (mx_pool mx1) |` (- ?B)"
    unfolding g(3) f(3) restrict_restrict by (rule arg_cong [where f = "restrict_map _"]) auto
  have st: "only_tmpbuf tr tr1 p0 p2"
    by (rule restrict_step [OF e1(3) owns_dom [OF own] U [symmetric] q])
  have "tmpbuf_ok tr1 p2"
    by (rule tmpbuf_ok_restrict [OF e1(2) q]) (use st tb in \<open>auto simp: only_tmpbuf_def tmpbuf_ok_def split: option.splits\<close>)
  moreover have "send_and_free env tr sub p mx = Inr (tr1, mx1\<lparr>mx_pool := p2\<rparr>)"
    using e f(1) g(1) by (simp add: send_and_free_def)
  ultimately show ?thesis using g(2) only_tmpbuf_step [OF st] by (auto simp: mem_ok_def)
qed

lemma building_times:
  "building U st (sub\<lparr>s_start_display_time := a, s_end_display_time := b\<rparr>) = building U st sub"
  by (simp add: building_def owns_def rect_blocks_def)

lemma show_cue_safe:
  assumes env: "env_ok env" and ok: "mem_ok (tr, mx_pool mx)"
  shows "\<exists>tr' mx' k. show_cue env t e tr mx = Inr (tr', mx', k) \<and> mem_ok (tr', mx_pool mx') \<and>
    mem_step (tr, mx_pool mx) (tr', mx_pool mx')"
proof -
  let ?m = "make_subtitle (ml_av (de_lib env)) (de_sizes env) (de_render env t e) (start_ms e) (end_ms e) (mx_pool mx)"
  from ok have tb: "tmpbuf_ok tr (mx_pool mx)" by (simp add: mem_ok_def)
  have r: "sub_result (pool_used (mx_pool mx)) ?m"
    using env ok by (intro make_subtitle_result) (simp_all add: env_ok_def mem_ok_def)
  then obtain so p1 where m: "?m = Inr (so, p1)" by (cases ?m) (auto simp: sub_result_def)
  show ?thesis
  proof (cases so)
    case None
    with r m have p1: "pool_inv p1" "pool_used p1 = pool_used (mx_pool mx)" by (simp_all add: sub_result_def)
    then have "tmpbuf_ok tr p1" using ok tmpbuf_ok_mono [of tr "mx_pool mx" p1] by (simp add: mem_ok_def)
    with None m p1 show ?thesis by (simp add: show_cue_def mem_ok_def mem_step_def)
  next
    case (Some sub)
    let ?sub = "sub\<lparr>s_start_display_time := 0, s_end_display_time := (end_ms e - start_ms e) mod 4294967296\<rparr>"
    have "building (pool_used (mx_pool mx)) (mx_pool (mx\<lparr>mx_pool := p1\<rparr>)) ?sub"
      using r m Some by (simp add: sub_result_def building_times)
    from send_and_free_safe [OF env this tb, of "cue_pts90 env tr (start_ms e)"] obtain tr' mx' where
      "send_and_free env tr ?sub (cue_pts90 env tr (start_ms e)) (mx\<lparr>mx_pool := p1\<rparr>) = Inr (tr', mx')"
      "mem_ok (tr', mx_pool mx')" "mem_step (tr, mx_pool mx) (tr', mx_pool mx')"
      by blast
    with m Some show ?thesis by (simp add: show_cue_def Let_def)
  qed
qed

lemma clear_cue_safe:
  assumes env: "env_ok env" and ok: "mem_ok (tr, mx_pool mx)"
  shows "\<exists>tr' mx'. clear_cue env e tr mx = Inr (tr', mx') \<and> mem_ok (tr', mx_pool mx') \<and>
    mem_step (tr, mx_pool mx) (tr', mx_pool mx')"
proof -
  from ok have inv: "pool_inv (mx_pool mx)" and tb: "tmpbuf_ok tr (mx_pool mx)" by (simp_all add: mem_ok_def)
  obtain q p1 where m: "av_mallocz (ml_av (de_lib env)) (sz_sub (de_sizes env)) (mx_pool mx) = (q, p1)" by fastforce
  have i1: "pool_inv p1" by (rule raw.alloc_inv [OF inv]) (rule arg_cong [OF m])
  show ?thesis
  proof (cases q)
    case None
    have "pool_used p1 = pool_used (mx_pool mx)"
      by (rule raw.alloc_None [OF inv]) (rule arg_cong [OF m [unfolded None]])
    moreover from this have "tmpbuf_ok tr p1" using ok tmpbuf_ok_mono [of tr "mx_pool mx" p1] by (simp add: mem_ok_def)
    ultimately show ?thesis using None m i1 by (simp add: clear_cue_def mem_ok_def mem_step_def)
  next
    case (Some a)
    let ?sub = "\<lparr>s_self = a, s_rects = None, s_start_display_time = 0, s_end_display_time = 1\<rparr>"
    have "pool_used (mx_pool mx) a = None \<and> pool_used p1 = (pool_used (mx_pool mx))(a \<mapsto> sz_sub (de_sizes env))"
      by (rule raw.alloc_Some [OF inv]) (rule arg_cong [OF m [unfolded Some]])
    then have "building (pool_used (mx_pool mx)) (mx_pool (mx\<lparr>mx_pool := p1\<rparr>)) ?sub"
      using i1 by (auto simp: building_def owns_def rect_blocks_def restrict_map_def fun_eq_iff)
    from send_and_free_safe [OF env this tb, of "cue_pts90 env tr (end_ms e)"] obtain tr' mx' where
      "send_and_free env tr ?sub (cue_pts90 env tr (end_ms e)) (mx\<lparr>mx_pool := p1\<rparr>) = Inr (tr', mx')"
      "mem_ok (tr', mx_pool mx')" "mem_step (tr, mx_pool mx) (tr', mx_pool mx')"
      by blast
    with m Some show ?thesis by (simp add: clear_cue_def)
  qed
qed

lemma mem_cursor [simp]:
  "mem_ok (tr\<lparr>tr_cur_sub := i\<rparr>, p) = mem_ok (tr, p)"
  "mem_step s (tr\<lparr>tr_cur_sub := i\<rparr>, p) = mem_step s (tr, p)"
  by (simp_all add: mem_ok_def mem_step_def tmpbuf_ok_def cong: option.case_cong)

lemma emit_cue_safe:
  assumes env: "env_ok env" and ok: "mem_ok (tr, mx_pool mx)"
  shows "\<exists>tr' mx' n'. emit_cue env t tr mx n = Inr (tr', mx', n') \<and> mem_ok (tr', mx_pool mx') \<and>
    mem_step (tr, mx_pool mx) (tr', mx_pool mx')"
proof -
  let ?e = "tr_entries tr ! tr_cur_sub tr"
  from show_cue_safe [OF assms, of t ?e] obtain tr1 mx1 k where s: "show_cue env t ?e tr mx = Inr (tr1, mx1, k)"
    "mem_ok (tr1, mx_pool mx1)" "mem_step (tr, mx_pool mx) (tr1, mx_pool mx1)" by blast
  from clear_cue_safe [OF env s(2), of ?e] obtain tr2 mx2 where c: "clear_cue env ?e tr1 mx1 = Inr (tr2, mx2)"
    "mem_ok (tr2, mx_pool mx2)" "mem_step (tr1, mx_pool mx1) (tr2, mx_pool mx2)" by blast
  have "emit_cue env t tr mx n = Inr (tr2\<lparr>tr_cur_sub := tr_cur_sub tr2 + 1\<rparr>, mx2, n + k)"
    using s(1) c(1) by (simp add: emit_cue_def)
  with c(2) mem_step_trans [OF s(3) c(3)] show ?thesis by simp
qed

lemma emit_due_safe:
  assumes "env_ok env" and "mem_ok (tr, mx_pool mx)"
  shows "\<exists>tr' mx' n'. emit_due env t c tr mx n = Inr (tr', mx', n') \<and> mem_ok (tr', mx_pool mx') \<and>
    mem_step (tr, mx_pool mx) (tr', mx_pool mx')"
  using assms
proof (induction env t c tr mx n rule: emit_due.induct)
  case (1 env t c tr mx n)
  show ?case
  proof (cases "cue_due tr c")
    case False
    with 1(3) show ?thesis by (simp add: emit_due_stop)
  next
    case True
    from emit_cue_safe [OF 1(2,3), of t n] obtain tr1 mx1 n1 where
      e: "emit_cue env t tr mx n = Inr (tr1, mx1, n1)" "mem_ok (tr1, mx_pool mx1)"
      "mem_step (tr, mx_pool mx) (tr1, mx_pool mx1)" by blast
    from 1(1) [OF True e(1)] 1(2) e(2) obtain tr' mx' n' where
      r: "emit_due env t c tr1 mx1 n1 = Inr (tr', mx', n')" "mem_ok (tr', mx_pool mx')"
      "mem_step (tr1, mx_pool mx1) (tr', mx_pool mx')" by auto
    have "emit_due env t c tr mx n = Inr (tr', mx', n')"
      using True e(1) r(1) by (subst emit_due.simps) simp
    with r(2) mem_step_trans [OF e(3) r(3)] show ?thesis by blast
  qed
qed

text \<open>The buffers of all tracks.\<close>

definition tmpbufs :: "SubTrack list \<Rightarrow> addr set" where
  "tmpbufs trs = {a. \<exists>tr\<in>set trs. tr_tmpbuf tr = Some a}"

definition all_mem_ok :: "SubTrack list \<Rightarrow> pool \<Rightarrow> bool" where
  "all_mem_ok trs p \<longleftrightarrow>
     pool_inv p \<and> (\<forall>tr\<in>set trs. tmpbuf_ok tr p) \<and> distinct (List.map_filter tr_tmpbuf trs)"

lemma tmpbufs_set: "set (List.map_filter tr_tmpbuf trs) = tmpbufs trs"
  by (force simp: List.map_filter_def tmpbufs_def)

lemma tmpbufs_simps [simp]:
  "tmpbufs [] = {}" "tmpbufs (tr # trs) = set_option (tr_tmpbuf tr) \<union> tmpbufs trs"
  by (auto simp: tmpbufs_def)

text \<open>What is in use before and after: only buffers of the tracks are new, and none of them is dropped.\<close>

definition mem_grows :: "SubTrack list \<times> pool \<Rightarrow> SubTrack list \<times> pool \<Rightarrow> bool" where
  "mem_grows s s' \<longleftrightarrow>
     tmpbufs (fst s) \<subseteq> tmpbufs (fst s') \<and> pool_used (snd s) \<subseteq>\<^sub>m pool_used (snd s') \<and>
     dom (pool_used (snd s')) \<subseteq> dom (pool_used (snd s)) \<union> tmpbufs (fst s') \<and>
     (tmpbufs (fst s') - tmpbufs (fst s)) \<inter> dom (pool_used (snd s)) = {}"

lemma mem_grows_trans:
  assumes "mem_grows a b" and "mem_grows b c"
  shows "mem_grows a c"
proof -
  have "pool_used (snd a) \<subseteq>\<^sub>m pool_used (snd c)"
    using assms unfolding mem_grows_def by (blast intro: map_le_trans)
  moreover have "dom (pool_used (snd c)) \<subseteq> dom (pool_used (snd a)) \<union> tmpbufs (fst c)"
    using assms unfolding mem_grows_def by blast
  moreover have "dom (pool_used (snd a)) \<subseteq> dom (pool_used (snd b))"
    using assms(1) by (simp add: mem_grows_def map_le_implies_dom_le)
  then have "(tmpbufs (fst c) - tmpbufs (fst a)) \<inter> dom (pool_used (snd a)) = {}"
    using assms unfolding mem_grows_def by blast
  ultimately show ?thesis using assms unfolding mem_grows_def by blast
qed

lemma mem_grows_refl [simp]: "mem_grows s s"
  by (simp add: mem_grows_def)

lemma emit_tracks_safe:
  assumes "env_ok env" and "all_mem_ok trs (mx_pool mx)"
  shows "\<exists>trs' mx' n'. emit_tracks env t c trs mx n = Inr (trs', mx', n') \<and> all_mem_ok trs' (mx_pool mx') \<and>
    mem_grows (trs, mx_pool mx) (trs', mx_pool mx')"
  using assms(2)
proof (induction trs arbitrary: t mx n)
  case (Cons tr trs)
  then have "mem_ok (tr, mx_pool mx)" by (simp add: all_mem_ok_def mem_ok_def)
  from emit_due_safe [OF assms(1) this, of t c n] obtain tr1 mx1 n1 where
    e: "emit_due env t c tr mx n = Inr (tr1, mx1, n1)" "mem_ok (tr1, mx_pool mx1)"
    "mem_step (tr, mx_pool mx) (tr1, mx_pool mx1)" by blast
  have le: "pool_used (mx_pool mx) \<subseteq>\<^sub>m pool_used (mx_pool mx1)" using e(3) by (simp add: mem_step_def)
  have "all_mem_ok trs (mx_pool mx1)"
    using Cons.prems e(2) tmpbuf_ok_mono [OF _ le] by (auto simp: all_mem_ok_def mem_ok_def split: option.splits)
  from Cons.IH [OF this, of "t + 1" n1] obtain trs' mx' n' where
    r: "emit_tracks env (t + 1) c trs mx1 n1 = Inr (trs', mx', n')" "all_mem_ok trs' (mx_pool mx')"
    "mem_grows (trs, mx_pool mx1) (trs', mx_pool mx')" by blast
  have le': "pool_used (mx_pool mx1) \<subseteq>\<^sub>m pool_used (mx_pool mx')" using r(3) by (simp add: mem_grows_def)
  have old: "tmpbufs trs \<subseteq> dom (pool_used (mx_pool mx))"
    using Cons.prems by (fastforce simp: all_mem_ok_def tmpbufs_def tmpbuf_ok_def)
  have apart: "a \<notin> tmpbufs trs'" if a: "tr_tmpbuf tr1 = Some a" for a
  proof -
    have "a \<in> dom (pool_used (mx_pool mx1))" using e(2) a by (auto simp: mem_ok_def tmpbuf_ok_def)
    moreover have "a \<notin> tmpbufs trs"
    proof (cases "tr_tmpbuf tr")
      case None
      with e(3) a have "a \<notin> dom (pool_used (mx_pool mx))" by (auto simp: mem_step_def)
      with old show ?thesis by blast
    next
      case (Some b)
      with e(3) a have "tr_tmpbuf tr = Some a" by (auto simp: mem_step_def)
      with Cons.prems show ?thesis by (auto simp: all_mem_ok_def tmpbufs_set)
    qed
    ultimately show ?thesis using r(3) by (auto simp: mem_grows_def)
  qed
  have "all_mem_ok (tr1 # trs') (mx_pool mx')"
    using r(2) e(2) tmpbuf_ok_mono [OF _ le'] apart
    by (auto simp: all_mem_ok_def mem_ok_def tmpbufs_set split: option.split)
  moreover have "mem_grows (tr # trs, mx_pool mx) (tr1 # trs', mx_pool mx')"
  proof (rule mem_grows_trans)
    show "mem_grows (tr # trs, mx_pool mx) (tr1 # trs, mx_pool mx1)"
      using e(3) by (auto simp: mem_grows_def mem_step_def)
    show "mem_grows (tr1 # trs, mx_pool mx1) (tr1 # trs', mx_pool mx')"
      using r(3) by (auto simp: mem_grows_def)
  qed
  ultimately show ?case using e(1) r(1) by simp
qed (simp add: all_mem_ok_def)

lemma pass_on_pool [simp]: "mx_pool (pass_on env s pts pkt mx) = mx_pool mx"
  by (simp add: pass_on_def Let_def split: option.split)

lemma process_packet_safe:
  assumes "env_ok env" and "all_mem_ok (dx_tracks dx) (mx_pool (dx_mux dx))"
  shows "\<exists>dx'. process_packet env pkt dx = Inr dx' \<and> all_mem_ok (dx_tracks dx') (mx_pool (dx_mux dx')) \<and>
    mem_grows (dx_tracks dx, mx_pool (dx_mux dx)) (dx_tracks dx', mx_pool (dx_mux dx'))"
proof -
  let ?c = "if packet_time env pkt \<noteq> None then packet_time env pkt else dx_last_valid dx"
  from emit_tracks_safe [OF assms, of 0 ?c "dx_subs_emitted dx"] obtain trs' mx' n' where
    "emit_tracks env 0 ?c (dx_tracks dx) (dx_mux dx) (dx_subs_emitted dx) = Inr (trs', mx', n')"
    "all_mem_ok trs' (mx_pool mx')" "mem_grows (dx_tracks dx, mx_pool (dx_mux dx)) (trs', mx_pool mx')" by blast
  with assms show ?thesis
    by (cases "packet_dropped env pkt"; cases "packet_time env pkt") (simp_all add: process_packet_def)
qed

lemma demux_loop_safe:
  assumes "env_ok env" and "all_mem_ok (dx_tracks dx) (mx_pool (dx_mux dx))"
  shows "\<exists>dx'. demux_loop env pkts dx = Inr dx' \<and> all_mem_ok (dx_tracks dx') (mx_pool (dx_mux dx')) \<and>
    mem_grows (dx_tracks dx, mx_pool (dx_mux dx)) (dx_tracks dx', mx_pool (dx_mux dx'))"
  using assms(2)
proof (induction pkts arbitrary: dx)
  case (Cons pkt pkts)
  from process_packet_safe [OF assms(1) Cons.prems] obtain dx1 where
    p: "process_packet env pkt dx = Inr dx1" "all_mem_ok (dx_tracks dx1) (mx_pool (dx_mux dx1))"
    "mem_grows (dx_tracks dx, mx_pool (dx_mux dx)) (dx_tracks dx1, mx_pool (dx_mux dx1))" by blast
  from Cons.IH [OF p(2)] p Cons.prems show ?case by (auto intro: mem_grows_trans)
qed simp

subsection \<open>What the loop delivers\<close>


text \<open>C13. The times of the subtitle packets of every track strictly increase in the output, over the whole
  loop and whatever the cues are, as long as every track has a stream of its own.\<close>

theorem demux_times_increase:
  assumes "demux_loop env pkts dx = Inr dx'" and "own_streams (dx_tracks dx)"
    and "streams_apart env (dx_tracks dx)" and "mx_out (dx_mux dx) = []"
    and "tr \<in> set (dx_tracks dx')" and "tr_stream tr = Some (k, b)"
  shows "b = tb_90k \<and> sorted_wrt (<) (stream_times k (mx_out (dx_mux dx')))"
proof -
  have "all_in_time (dx_tracks dx) (dx_mux dx)"
    by (simp add: all_in_time_def stream_in_time_def stream_times_def assms(4))
  note L = demux_loop_in_time [OF assms(1-3) this]
  have "own_streams (dx_tracks dx')" using L assms(2) own_streams_cong by blast
  with assms(5,6) have "b = tb_90k" by (auto simp: own_streams_def)
  with L assms(5,6) show ?thesis by (auto simp: all_in_time_def stream_in_time_def)
qed


lemma lang_loop_skip: "c = CHR '','' \<or> isspace c \<Longrightarrow> lang_loop lang (c # r) = lang_loop lang r"
  unfolding lang_loop.simps [of lang "c # r"] lang_loop.simps [of lang r] by simp

lemma lang_loop_tokens:
  "lang_loop lang p \<longleftrightarrow>
   (\<exists>t\<in>set (tokens (CHR '','') p). trim_string_inplace t = ''*'' \<or>
      length (trim_string_inplace t) = 3 \<and> strncasecmp3 (trim_string_inplace t) lang)"
proof (induction "length p" arbitrary: p rule: less_induct)
  case less
  let ?d = "CHR '',''"
  show ?case
  proof (cases p)
    case Nil
    then show ?thesis by (simp add: lang_loop.simps [of lang "[]"])
  next
    case (Cons c r)
    consider "c = ?d" | "c \<noteq> ?d" "isspace c" | "c \<noteq> ?d" "\<not> isspace c" by blast
    then show ?thesis
    proof cases
      case 1
      then have "lang_loop lang p = lang_loop lang r" by (simp add: Cons lang_loop_skip)
      with 1 less [of r] Cons show ?thesis by simp
    next
      case 2
      then have l: "lang_loop lang p = lang_loop lang r" by (simp add: Cons lang_loop_skip)
      have t: "trim_string_inplace (c # x) = trim_string_inplace x" for x
        using 2 by (simp add: trim_string_inplace_def lstrip_def)
      have "trim_string_inplace [] = []" by (simp add: trim_string_inplace_def lstrip_def rstrip_by_def)
      moreover have "tokens ?d p = (c # takeWhile (\<lambda>c. c \<noteq> ?d) r) # tokens ?d (dropWhile (\<lambda>c. c \<noteq> ?d) r)"
        using tokens_word [of p ?d] 2 Cons by simp
      moreover have "tokens ?d r = takeWhile (\<lambda>c. c \<noteq> ?d) r # tokens ?d (dropWhile (\<lambda>c. c \<noteq> ?d) r) \<or>
          takeWhile (\<lambda>c. c \<noteq> ?d) r = [] \<and> tokens ?d r = tokens ?d (dropWhile (\<lambda>c. c \<noteq> ?d) r)"
        using tokens_word [of r ?d] by (cases r) auto
      ultimately show ?thesis using l less [of r] Cons t by auto
    next
      case 3
      let ?u = "dropWhile (\<lambda>c. c \<noteq> ?d) p" and ?w = "takeWhile (\<lambda>c. c \<noteq> ?d) p"
      have w: "trim_string_inplace ?w = rstrip_by isspace ?w"
        using 3 Cons by (simp add: trim_string_inplace_def lstrip_def)
      have "length ?u < length p" using 3 Cons length_dropWhile_le [of "\<lambda>c. c \<noteq> ?d" r] by simp
      note IH = less [OF this]
      have d: "dropWhile (\<lambda>c. c = ?d \<or> isspace c) p = p" "p \<noteq> []" using 3 Cons by simp_all
      have "lang_loop lang p \<longleftrightarrow> trim_string_inplace ?w = ''*'' \<or>
          length (trim_string_inplace ?w) = 3 \<and> strncasecmp3 (trim_string_inplace ?w) lang \<or> lang_loop lang ?u"
        unfolding lang_loop.simps [of lang p] Let_def d(1) w using d(2) by auto
      moreover have "tokens ?d p = ?w # tokens ?d ?u" using tokens_word [of p ?d] 3 Cons by simp
      ultimately show ?thesis using IH by auto
    qed
  qed
qed

text \<open>C35. The filter of \<^verbatim>\<open>--overwrite-subs\<close> accepts a language exactly when there is no filter, or one of the
  comma-separated items, trimmed, is an asterisk or three characters that agree with the language up to case.\<close>

theorem overwrite_lang_allowed_exact:
  "overwrite_lang_allowed list (Some lang) \<longleftrightarrow>
     lang \<noteq> [] \<and>
     (list = None \<or> list = Some [] \<or>
      list_ex (\<lambda>t. t = ''*'' \<or> length t = 3 \<and> map tolower t = map tolower (take 3 lang))
        (map trim_string_inplace (tokens (CHR '','') (the list))))"
  by (cases list) (auto simp: overwrite_lang_allowed_def lang_loop_tokens list_ex_iff strncasecmp3_def)

subsection \<open>A run\<close>

text \<open>\<^verbatim>\<open>avsubtitle_free\<close> as FFmpeg has it: the planes, the rectangle and the array, each to the allocator.\<close>

primrec free_list :: "addr list \<Rightarrow> pool \<Rightarrow> pool cres" where
  "free_list [] st = Inr st"
| "free_list (a # as) st = sbind (av_free a st) (free_list as)"

definition sample_free :: "subtitle \<Rightarrow> pool \<Rightarrow> pool cres" where
  "sample_free sub =
     free_list
       (case s_rects sub of
          None \<Rightarrow> []
        | Some (arr, rect, r) \<Rightarrow>
            (case r_data0 r of None \<Rightarrow> [] | Some a \<Rightarrow> [a]) @ (case r_data1 r of None \<Rightarrow> [] | Some a \<Rightarrow> [a]) @
            [rect, arr])"

lemma free_list_ok:
  "pool_inv st \<Longrightarrow> distinct as \<Longrightarrow> set as \<subseteq> dom (pool_used st) \<Longrightarrow>
   \<exists>st'. free_list as st = Inr st' \<and> pool_inv st' \<and> pool_used st' = pool_used st |` (- set as)"
proof (induction as arbitrary: st)
  case (Cons a as)
  from Cons.prems obtain n where "pool_used st a = Some n" by auto
  from free_struct [OF Cons.prems(1) this] obtain st1 where
    f: "av_free a st = Inr st1" "pool_inv st1" "pool_used st1 = pool_used st |` (- {a})" by blast
  have "set as \<subseteq> dom (pool_used st1)" using Cons.prems by (auto simp: f(3) restrict_map_def)
  with Cons.IH [OF f(2)] Cons.prems(2) obtain st' where
    "free_list as st1 = Inr st'" "pool_inv st'" "pool_used st' = pool_used st1 |` (- set as)" by auto
  moreover have "- {a} \<inter> - set as = - set (a # as)" by auto
  ultimately show ?case using f(1) by (simp add: f(3))
qed (simp add: restrict_map_def)

lemma sample_free_ok: "frees_rects sample_free"
  unfolding frees_rects_def
proof (intro allI impI)
  fix sub st
  assume inv: "pool_inv st" and own: "owns st sub"
  let ?as = "case s_rects sub of None \<Rightarrow> []
    | Some (arr, rect, r) \<Rightarrow> (case r_data0 r of None \<Rightarrow> [] | Some a \<Rightarrow> [a]) @
        (case r_data1 r of None \<Rightarrow> [] | Some a \<Rightarrow> [a]) @ [rect, arr]"
  have as: "distinct ?as" "set ?as = rect_blocks sub"
    using own by (auto simp: owns_def rect_blocks_def split: option.splits)
  show "\<exists>st'. sample_free sub st = Inr st' \<and> pool_inv st' \<and> pool_used st' = pool_used st |` (- rect_blocks sub)"
    using free_list_ok [OF inv as(1)] owns_dom [OF own] as(2) by (simp add: sample_free_def)
qed

definition sample_denv :: demux_env where
  "sample_denv =
     \<lparr>de_lib = sample_lib, de_sizes = \<lparr>sz_sub = 32, sz_rect = 64\<rparr>, de_render = (\<lambda>_ _. sample_bitmap),
      de_free_sub = sample_free, de_png_only = False, de_start_pts90 = 0, de_nb_streams = 2,
      de_time_base = (\<lambda>_. tb_90k), de_out_stream = Some, de_overwrite_subs = False, de_targets = [],
      de_stop = (\<lambda>_. False)\<rparr>"

definition sample_dx :: demux where
  "sample_dx =
     \<lparr>dx_tracks = [sample_track\<lparr>tr_entries :=
          [\<lparr>start_ms = 1000, end_ms = 3000, entry_text = ''A'', alignment = 2\<rparr>,
           \<lparr>start_ms = 3000, end_ms = 3000, entry_text = ''B'', alignment = 2\<rparr>]\<rparr>],
      dx_mux = sample_mux, dx_last_valid = None, dx_pkt_count = 0, dx_subs_emitted = 0\<rparr>"

definition sample_pkts :: "in_packet list" where
  "sample_pkts =
     [\<lparr>ip_stream = 0, ip_pts = Some 90000, ip_dts = None, ip_data = [1]\<rparr>,
      \<lparr>ip_stream = 1, ip_pts = None, ip_dts = Some 180000, ip_data = [2]\<rparr>,
      \<lparr>ip_stream = 5, ip_pts = None, ip_dts = Some 900000, ip_data = [3]\<rparr>]"

lemma sample_denv_ok: "env_ok sample_denv"
  by (simp add: env_ok_def sample_denv_def sample_lib_ok sample_bitmap_ok sample_free_ok)

lemma sample_dx_ok: "all_mem_ok (dx_tracks sample_dx) (mx_pool (dx_mux sample_dx))"
  by (simp add: all_mem_ok_def sample_dx_def sample_mux_def pool_inv_empty tmpbuf_ok_def sample_track_def)

lemma sample_run: "\<exists>dx'. demux_loop sample_denv sample_pkts sample_dx = Inr dx'"
  using demux_loop_safe [OF sample_denv_ok sample_dx_ok] by blast

lemma sample_times:
  "times_seen sample_denv (packets_read sample_denv (dx_pkt_count sample_dx) sample_pkts) = {90000, 180000}"
  by (auto simp: sample_pkts_def sample_denv_def sample_dx_def packet_dropped_def is_overwrite_stream_def
    packet_time_def packet_pts_def sample_lib_def)


theorem demux_times_increase_witness:
  "\<exists>dx'. demux_loop sample_denv sample_pkts sample_dx = Inr dx' \<and> sorted_wrt (<) (stream_times 3 (mx_out (dx_mux dx')))"
proof -
  from sample_run obtain dx' where r: "demux_loop sample_denv sample_pkts sample_dx = Inr dx'" ..
  have own: "own_streams (dx_tracks sample_dx)" and apart: "streams_apart sample_denv (dx_tracks sample_dx)"
    and out: "mx_out (dx_mux sample_dx) = []"
    by (auto simp: own_streams_def streams_apart_def sub_streams_def sample_denv_def sample_dx_def
      sample_track_def sample_mux_def)
  have "all_in_time (dx_tracks sample_dx) (dx_mux sample_dx)"
    by (simp add: all_in_time_def stream_in_time_def stream_times_def out)
  from demux_loop_in_time [OF r own apart this] obtain tr where
    "tr \<in> set (dx_tracks dx')" "tr_stream tr = Some (3, tb_90k)"
    by (auto simp: sample_dx_def sample_track_def)
  with demux_times_increase [OF r own apart out] r show ?thesis by blast
qed


end
