(* ===== verification/Srt_markup.thy ===== *)
theory Srt_markup
  imports Text_buffer Cfloat
begin

text \<open>
  Markup of cues: \<^verbatim>\<open>srt_html_to_ass\<close>, which turns HTML tags into overrides for libass, and in the other
  direction \<^verbatim>\<open>parse_ass_color\<close> and \<^verbatim>\<open>normalize_tags\<close> (\<^verbatim>\<open>srt_parser.c\<close>). Text is appended through
  \<^verbatim>\<open>dyn_append\<close>. The lemmas say where the conversions are safe, and what becomes of a colour.
\<close>

subsection \<open>Hexadecimal numbers\<close>

definition hex_char :: "nat \<Rightarrow> char" where
  "hex_char d = char_of (if d < 10 then 48 + d else 55 + d)"

fun hex :: "nat \<Rightarrow> cstr" where
  "hex n = (if n < 16 then [hex_char n] else hex (n div 16) @ [hex_char (n mod 16)])"

declare hex.simps [simp del]

text \<open>\<^verbatim>\<open>%02X\<close>.\<close>

definition hex2 :: "nat \<Rightarrow> cstr" where
  "hex2 n = (if n < 16 then CHR ''0'' # hex n else hex n)"

text \<open>\<^verbatim>\<open>%02X\<close> of \<^verbatim>\<open>sscanf\<close>: white space is skipped, and of the next two characters the first may be a sign
  or both the prefix \<^verbatim>\<open>0x\<close>, which counts as a zero. The value is an \<^verbatim>\<open>unsigned int\<close>.\<close>

definition scan_hex2 :: "cstr \<Rightarrow> (nat \<times> cstr) option" where
  "scan_hex2 s =
     (let t = lstrip s;
          sign = (t \<noteq> [] \<and> (hd t = CHR ''-'' \<or> hd t = CHR ''+''));
          u = (if sign then tl t else t); w = (if sign then 1 else 2 :: nat);
          ds = takeWhile isxdigit (take w u)
      in if ds = [] then None
         else if w = 2 \<and> length u \<ge> 2 \<and> hd u = CHR ''0'' \<and> tolower (u ! 1) = CHR ''x'' then Some (0, drop 2 u)
         else
           let v = nat (base_val 16 ds)
           in Some (if sign \<and> hd t = CHR ''-'' then (4294967296 - v) mod 4294967296 else v, drop (length ds) u))"

fun scan_hexes :: "nat \<Rightarrow> cstr \<Rightarrow> nat list" where
  "scan_hexes 0 s = []"
| "scan_hexes (Suc n) s = (case scan_hex2 s of None \<Rightarrow> [] | Some (v, r) \<Rightarrow> v # scan_hexes n r)"

subsection \<open>HTML to ASS\<close>

text \<open>The override for a colour, of which at most 15 bytes were copied. What \<^verbatim>\<open>sscanf\<close> does not store stays
  255.\<close>

definition color_tag :: "cstr \<Rightarrow> cstr" where
  "color_tag color =
     (let clen = length color; hash = (color \<noteq> [] \<and> hd color = CHR ''#'');
          vals = (if hash \<and> clen = 7 then scan_hexes 3 (tl color)
                  else if hash \<and> clen = 9 then scan_hexes 4 (tl color) else []);
          val = (\<lambda>i. if i < length vals then vals ! i else 255);
          rgb = hex2 (val 0) @ hex2 (val 1) @ hex2 (val 2)
      in if clen = 9 then
           CHR ''{'' # BSL # ''1c&H'' @ rgb @ CHR ''&'' # BSL # ''1a&H'' @ hex2 (255 - val 3 mod 256) @ ''&}''
         else CHR ''{'' # BSL # ''1c&H'' @ rgb @ ''&}'')"

text \<open>The text between the next two quotes, and the pointer to the second of them.\<close>

definition quoted :: "cstr \<Rightarrow> (cstr \<times> cstr) option" where
  "quoted p =
     (case strchr DQ p of
        None \<Rightarrow> None
      | Some q \<Rightarrow>
          (case strchr DQ (tl q) of
             None \<Rightarrow> None
           | Some r \<Rightarrow> Some (take (length (tl q) - length r) (tl q), r)))"

text \<open>The pointer two bytes behind a quote; behind the last byte of the string it has left the block.\<close>

definition skip_quote :: "cstr \<Rightarrow> cstr cres" where
  "skip_quote r = (if tl r = [] then Inl Out_of_bounds else Inr (tl (tl r)))"

definition font_piece :: "(cstr \<Rightarrow> cstr) \<Rightarrow> cstr \<Rightarrow> (cstr option \<times> cstr) cres" where
  "font_piece tag p =
     (case quoted p of
        None \<Rightarrow> Inr (None, tl p)
      | Some (s, r) \<Rightarrow> sbind (skip_quote r) (\<lambda>p'. Inr (Some (tag s), p')))"

text \<open>What is appended for the text at \<open>p\<close>, if anything, and where the loop goes on.\<close>

definition html_piece :: "cstr \<Rightarrow> (cstr option \<times> cstr) cres" where
  "html_piece p =
     (if starts_ci ''<i>'' p then Inr (Some (CHR ''{'' # BSL # ''i1}''), drop 3 p)
      else if starts_ci ''</i>'' p then Inr (Some (CHR ''{'' # BSL # ''i0}''), drop 4 p)
      else if starts_ci ''<b>'' p then Inr (Some (CHR ''{'' # BSL # ''b1}''), drop 3 p)
      else if starts_ci ''</b>'' p then Inr (Some (CHR ''{'' # BSL # ''b0}''), drop 4 p)
      else if starts_ci ''<font color='' p then font_piece (\<lambda>s. color_tag (take 15 s)) p
      else if starts_ci ''<font face='' p then
        font_piece (\<lambda>s. CHR ''{'' # BSL # ''fn'' @ take 63 s @ ''}'') p
      else if starts_ci ''</font>'' p then Inr (Some (CHR ''{'' # BSL # ''r}''), drop 7 p)
      else if hd p = LF then Inr (Some (BSL # ''N''), tl p)
      else if hd p = CR then Inr (None, tl p)
      else Inr (Some [hd p], tl p))"

lemma quoted_suffix:
  assumes "quoted p = Some (s, r)"
  shows "\<exists>r'. r = DQ # r' \<and> suffix r p"
proof -
  from assms obtain q where q: "strchr DQ p = Some q" "strchr DQ (tl q) = Some r"
    by (auto simp: quoted_def split: option.splits)
  obtain q' where "q = DQ # q'" using strchr_Some_Cons [OF q(1)] by blast
  then have "suffix r p"
    using strchr_Some_suffix(2) [OF q(1)] strchr_Some_suffix(2) [OF q(2)]
    by (metis list.sel(3) suffix_ConsD suffix_order.order_trans)
  with strchr_Some_Cons [OF q(2)] show ?thesis by blast
qed

lemma font_piece_shorter: "font_piece tag p = Inr (s, p') \<Longrightarrow> p \<noteq> [] \<Longrightarrow> length p' < length p"
  by (cases p) (auto simp: font_piece_def skip_quote_def sbind_eq_Inr_iff split: option.splits if_splits
      dest!: quoted_suffix suffix_length_le)

lemma html_piece_shorter: "html_piece p = Inr (s, p') \<Longrightarrow> p \<noteq> [] \<Longrightarrow> length p' < length p"
  by (auto simp: html_piece_def font_piece_shorter split: if_splits dest!: starts_ci_length)

function html_loop :: "(nat \<Rightarrow> bool) \<Rightarrow> cstr \<Rightarrow> dbuf \<Rightarrow> dbuf cres" where
  "html_loop alloc p b =
     (if p = [] then Inr b
      else sbind (html_piece p) (\<lambda>x.
        sbind (case fst x of None \<Rightarrow> Inr b | Some s \<Rightarrow> dyn_append alloc s b) (html_loop alloc (snd x))))"
  by pat_completeness auto
termination
  by (relation "measure (\<lambda>(_, p, _). length p)") (auto dest: html_piece_shorter)

declare html_loop.simps [simp del]

definition srt_html_to_ass :: "(nat \<Rightarrow> bool) \<Rightarrow> cstr \<Rightarrow> cstr cres" where
  "srt_html_to_ass alloc inp =
     sbind (dbuf_new alloc (length inp * 8 + 128)) (\<lambda>b.
     sbind (html_loop alloc inp b) (\<lambda>b'. Inr (db_text b')))"

subsection \<open>ASS to Pango\<close>

definition parse_ass_color :: "cstr \<Rightarrow> nat \<Rightarrow> cstr" where
  "parse_ass_color tag outsz =
     (let c1 = CHR ''{'' # BSL # ''c&H''; c2 = CHR ''{'' # BSL # ''1c&H'';
          v1 = (if starts c1 tag then scan_hexes 3 (drop 5 tag) else []);
          v2 = (if starts c2 tag then scan_hexes 3 (drop 6 tag) else []);
          vals = (if length v1 = 3 then v1 else v2)
      in take (outsz - 1)
           (if length vals = 3 then CHR ''#'' # hex2 (vals ! 2) @ hex2 (vals ! 1) @ hex2 (vals ! 0)
            else ''#FFFFFF''))"

definition MAX_TAG_STACK :: nat where "MAX_TAG_STACK = 32"

text \<open>The closing tags in use, the innermost last.\<close>

definition push_tag :: "cstr \<Rightarrow> cstr list \<Rightarrow> cstr list" where
  "push_tag t st =
     (let st' = st @ [t] in if length st' \<ge> MAX_TAG_STACK then take (MAX_TAG_STACK - 1) st' else st')"

text \<open>The innermost occurrence of a tag, and the stack below it.\<close>

definition pop_tag :: "cstr \<Rightarrow> cstr list \<Rightarrow> cstr list \<times> cstr list" where
  "pop_tag t st =
     (if t \<in> set st then ([t], rev (tl (dropWhile (\<lambda>x. x \<noteq> t) (rev st)))) else ([], st))"

fun append_all :: "(nat \<Rightarrow> bool) \<Rightarrow> cstr list \<Rightarrow> dbuf \<Rightarrow> dbuf cres" where
  "append_all alloc [] b = Inr b"
| "append_all alloc (s # ss) b = sbind (dyn_append alloc s b) (append_all alloc ss)"

definition open_tag :: "cstr \<Rightarrow> cstr list \<Rightarrow> cstr \<Rightarrow> cstr list \<times> cstr list \<times> cstr" where
  "open_tag letter st p = ([''<'' @ letter @ ''>''], push_tag (''</'' @ letter @ ''>'') st, drop 5 p)"

definition close_tag :: "cstr \<Rightarrow> cstr list \<Rightarrow> cstr \<Rightarrow> cstr list \<times> cstr list \<times> cstr" where
  "close_tag letter st p =
     (case pop_tag (''</'' @ letter @ ''>'') st of (out, st') \<Rightarrow> (out, st', drop 5 p))"

text \<open>What is appended at \<open>p\<close>, the stack, and where the loop goes on.\<close>

definition tag_piece :: "cstr list \<Rightarrow> cstr \<Rightarrow> cstr list \<times> cstr list \<times> cstr" where
  "tag_piece st p =
     (let tag = (\<lambda>s. starts (CHR ''{'' # BSL # s) p)
      in if tag ''i1}'' then open_tag ''i'' st p
         else if tag ''i0}'' then close_tag ''i'' st p
         else if tag ''b1}'' then open_tag ''b'' st p
         else if tag ''b0}'' then close_tag ''b'' st p
         else if tag ''u1}'' then open_tag ''u'' st p
         else if tag ''u0}'' then close_tag ''u'' st p
         else if tag ''c&H'' \<or> tag ''1c&H'' then
           (case pop_tag ''</span>'' st of (out, st') \<Rightarrow>
              let span = ''<span foreground='' @ DQ # parse_ass_color p 16 @ DQ # ''>'';
                  st'' = push_tag ''</span>'' st'
              in case strchr (CHR ''}'') p of
                   Some q \<Rightarrow> (out @ [span], st'', tl q)
                 | None \<Rightarrow> (out @ [span, ''{''], st'', tl p))
         else if tag ''fn'' then
           (case pop_tag ''</span>'' st of (out, st') \<Rightarrow>
              case strchr (CHR ''}'') p of
                Some q \<Rightarrow>
                  let fontname = take 127 (take (length p - 3 - length q) (drop 3 p))
                  in (out @ [''<span font='' @ DQ # fontname @ DQ # ''>''], push_tag ''</span>'' st', tl q)
              | None \<Rightarrow> (out, st', tl p))
         else if tag ''pos'' \<or> tag ''move'' \<or> tag ''fad'' \<or> tag ''org'' then
           (case strchr (CHR ''}'') p of Some q \<Rightarrow> ([], st, tl q) | None \<Rightarrow> ([''{''], st, tl p))
         else ([[hd p]], st, tl p))"

lemma strchr_tl_shorter: "strchr c p = Some q \<Longrightarrow> length (tl q) < length p"
  using strchr_length_le [of c p q] strchr_Some_Cons [of c p q] by auto

lemma tag_piece_shorter: "tag_piece st p = (out, st', p') \<Longrightarrow> p \<noteq> [] \<Longrightarrow> length p' < length p"
  by (auto simp: tag_piece_def open_tag_def close_tag_def Let_def split: if_splits prod.splits option.splits
      dest: strchr_tl_shorter)

function tags_loop :: "(nat \<Rightarrow> bool) \<Rightarrow> cstr list \<Rightarrow> cstr \<Rightarrow> dbuf \<Rightarrow> (cstr list \<times> dbuf) cres" where
  "tags_loop alloc st p b =
     (if p = [] then Inr (st, b)
      else
        sbind (append_all alloc (fst (tag_piece st p)) b)
          (tags_loop alloc (fst (snd (tag_piece st p))) (snd (snd (tag_piece st p)))))"
  by pat_completeness auto
termination
proof (relation "measure (\<lambda>(_, _, p, _). length p)", simp, goal_cases)
  case (1 alloc st p b)
  obtain out st' p' where "tag_piece st p = (out, st', p')" by (rule prod_cases3)
  with tag_piece_shorter [OF this] 1 show ?case by simp
qed

declare tags_loop.simps [simp del]

definition normalize_tags :: "(nat \<Rightarrow> bool) \<Rightarrow> cstr \<Rightarrow> cstr cres" where
  "normalize_tags alloc inp =
     sbind (dbuf_new alloc (length inp * 6 + 256)) (\<lambda>b.
     sbind (tags_loop alloc [] inp b) (\<lambda>(st, b').
     sbind (append_all alloc (rev st) b') (\<lambda>b''. Inr (db_text b''))))"

subsection \<open>Where the conversion to ASS is safe\<close>

lemma skip_quote_Inr: "skip_quote (c # r) = Inr p \<Longrightarrow> suffix p (c # r)"
  by (auto simp: skip_quote_def suffix_def split: if_splits intro: exI [of _ "[c, hd r]"])

lemma font_piece_suffix: "font_piece tag p = Inr (s, p') \<Longrightarrow> suffix p' p"
  by (auto simp: font_piece_def sbind_eq_Inr_iff suffix_tl split: option.splits
      dest!: quoted_suffix skip_quote_Inr intro: suffix_order.order_trans)

lemma html_piece_suffix: "html_piece p = Inr (s, p') \<Longrightarrow> suffix p' p"
  by (auto simp: html_piece_def suffix_drop suffix_tl split: if_splits dest: font_piece_suffix)

lemma suffix_last: "suffix p s \<Longrightarrow> p \<noteq> [] \<Longrightarrow> s \<noteq> [] \<and> last s = last p"
  by (auto simp: suffix_def)

lemma font_piece_fault: "font_piece tag p = Inl e \<Longrightarrow> e = Out_of_bounds \<and> p \<noteq> [] \<and> last p = DQ"
proof -
  assume a: "font_piece tag p = Inl e"
  then obtain s r where q: "quoted p = Some (s, r)" and r: "tl r = []" "e = Out_of_bounds"
    by (auto simp: font_piece_def skip_quote_def sbind_eq_Inl_iff split: option.splits if_splits)
  from quoted_suffix [OF q] r(1) have "suffix [DQ] p" by auto
  from suffix_last [OF this] r(2) show ?thesis by simp
qed

lemma html_piece_fault: "html_piece p = Inl e \<Longrightarrow> e = Out_of_bounds \<and> p \<noteq> [] \<and> last p = DQ"
  by (auto simp: html_piece_def split: if_splits dest: font_piece_fault)

lemma append_opt:
  "dbuf_wf b \<Longrightarrow> (case so of None \<Rightarrow> Inr b | Some s \<Rightarrow> dyn_append alloc s b) = Inl e \<Longrightarrow> alloc_fault alloc e"
  "dbuf_wf b \<Longrightarrow> (case so of None \<Rightarrow> Inr b | Some s \<Rightarrow> dyn_append alloc s b) = Inr b' \<Longrightarrow>
     dbuf_wf b' \<and> db_text b' = db_text b @ (case so of None \<Rightarrow> [] | Some s \<Rightarrow> s)"
  by (auto split: option.splits dest: dyn.app_fault dyn.app_Inr)

lemma html_loop_fault:
  "html_loop alloc p b = Inl e \<Longrightarrow> dbuf_wf b \<Longrightarrow>
   alloc_fault alloc e \<or> e = Out_of_bounds \<and> p \<noteq> [] \<and> last p = DQ"
proof (induction alloc p b rule: html_loop.induct)
  case (1 alloc p b)
  have p: "p \<noteq> []" using 1(2) by (auto simp: html_loop.simps)
  show ?case
  proof (cases "html_piece p")
    case (Inl e')
    with 1(2) p have "e = e'" by (simp add: html_loop.simps)
    with html_piece_fault [OF Inl] show ?thesis by simp
  next
    case (Inr x)
    show ?thesis
    proof (cases "case fst x of None \<Rightarrow> Inr b | Some s \<Rightarrow> dyn_append alloc s b")
      case (Inl e')
      with 1(2) p Inr have "e = e'" by (simp add: html_loop.simps)
      with append_opt(1) [OF 1(3) Inl] show ?thesis by simp
    next
      case b': (Inr b')
      have "html_loop alloc (snd x) b' = Inl e" using 1(2) p Inr b' by (simp add: html_loop.simps [of alloc p])
      from 1(1) [OF p Inr b' this] append_opt(2) [OF 1(3) b']
      have "alloc_fault alloc e \<or> e = Out_of_bounds \<and> snd x \<noteq> [] \<and> last (snd x) = DQ" by simp
      moreover have "suffix (snd x) p" using html_piece_suffix [of p "fst x" "snd x"] Inr by simp
      ultimately show ?thesis using suffix_last [of "snd x" p] by auto
    qed
  qed
qed

text \<open>Text without angle brackets is copied, with line ends as \<^verbatim>\<open>\N\<close>.\<close>

definition ass_char :: "char \<Rightarrow> cstr" where
  "ass_char c = (if c = LF then BSL # ''N'' else if c = CR then [] else [c])"

lemma html_piece_plain:
  assumes "c \<noteq> CHR ''<''"
  shows "html_piece (c # p) = Inr (if c = CR then None else Some (ass_char c), p)"
proof -
  have "\<not> starts_ci (CHR ''<'' # s) (c # p)" for s by (rule starts_ci_angle [OF assms])
  then show ?thesis by (simp add: html_piece_def ass_char_def)
qed

lemma html_loop_append:
  assumes "CHR ''<'' \<notin> set s" and "dbuf_wf b"
  shows "\<exists>b'. html_loop (\<lambda>_. True) (s @ p) b = html_loop (\<lambda>_. True) p b' \<and> dbuf_wf b' \<and>
    db_text b' = db_text b @ concat (map ass_char s)"
  using assms
proof (induction s arbitrary: b)
  case (Cons c s)
  then have c: "c \<noteq> CHR ''<''" by auto
  let ?so = "if c = CR then None else Some (ass_char c)"
  obtain b1 where b1: "(case ?so of None \<Rightarrow> Inr b | Some s \<Rightarrow> dyn_append (\<lambda>_. True) s b) = Inr b1"
    using append_opt(1) [OF Cons.prems(2), where so = ?so and alloc = "\<lambda>_. True"]
    by (cases "case ?so of None \<Rightarrow> Inr b | Some s \<Rightarrow> dyn_append (\<lambda>_. True) s b") (auto simp: alloc_fault_def)
  have t: "dbuf_wf b1" "db_text b1 = db_text b @ ass_char c"
    using append_opt(2) [OF Cons.prems(2) b1] by (auto simp: ass_char_def split: if_splits)
  have "html_loop (\<lambda>_. True) ((c # s) @ p) b = html_loop (\<lambda>_. True) (s @ p) b1"
    using b1 by (simp add: html_loop.simps [of _ "c # s @ p"] html_piece_plain [OF c])
  moreover obtain b' where "html_loop (\<lambda>_. True) (s @ p) b1 = html_loop (\<lambda>_. True) p b'" "dbuf_wf b'"
    "db_text b' = db_text b1 @ concat (map ass_char s)" using Cons.IH [OF _ t(1)] Cons.prems(1) by auto
  ultimately show ?case using t by auto
qed auto

text \<open>C31. \<^verbatim>\<open>srt_html_to_ass\<close> can only fail for want of memory, or because the text ends with a quote, where it
  reads behind the string; and text without tags is carried over unchanged except for its line ends.\<close>

theorem html_to_ass_safe:
  "(case srt_html_to_ass alloc s of
      Inl e \<Rightarrow> alloc_fault alloc e \<or> e = Out_of_bounds \<and> s \<noteq> [] \<and> last s = DQ
    | Inr t \<Rightarrow> True) \<and>
   (CHR ''<'' \<notin> set s \<longrightarrow> srt_html_to_ass (\<lambda>_. True) s = Inr (concat (map ass_char s)))"
proof
  show "case srt_html_to_ass alloc s of
      Inl e \<Rightarrow> alloc_fault alloc e \<or> e = Out_of_bounds \<and> s \<noteq> [] \<and> last s = DQ
    | Inr t \<Rightarrow> True"
  proof (cases "dbuf_new alloc (length s * 8 + 128)")
    case (Inl e)
    then show ?thesis by (auto simp: srt_html_to_ass_def dbuf_new_def alloc_fault_def split: if_splits)
  next
    case (Inr b)
    then have "dbuf_wf b" using dbuf_new_Inr by fastforce
    with Inr html_loop_fault [of alloc s b] show ?thesis
      by (auto simp: srt_html_to_ass_def sbind_eq_Inl_iff split: sum.splits)
  qed
  show "CHR ''<'' \<notin> set s \<longrightarrow> srt_html_to_ass (\<lambda>_. True) s = Inr (concat (map ass_char s))"
  proof
    assume s: "CHR ''<'' \<notin> set s"
    have b: "dbuf_new (\<lambda>_. True) (length s * 8 + 128) = Inr \<lparr>db_text = [], db_cap = length s * 8 + 128\<rparr>"
      by (simp add: dbuf_new_def)
    have "dbuf_wf \<lparr>db_text = [], db_cap = length s * 8 + 128\<rparr>" by (simp add: dbuf_wf_def)
    from html_loop_append [OF s this, of "[]"]
    show "srt_html_to_ass (\<lambda>_. True) s = Inr (concat (map ass_char s))"
      by (auto simp: srt_html_to_ass_def b html_loop.simps [of _ "[]"])
  qed
qed

theorem html_to_ass_safe_witness:
  "srt_html_to_ass (\<lambda>_. True) [CHR ''a'', LF, CHR ''b''] = Inr [CHR ''a'', BSL, CHR ''N'', CHR ''b'']"
  using html_to_ass_safe [of "\<lambda>_. True" "[CHR ''a'', LF, CHR ''b'']"] by (simp add: ass_char_def)

lemma html_piece_color:
  "html_piece (''<font color='' @ p) = font_piece (\<lambda>s. color_tag (take 15 s)) (''<font color='' @ p)"
  by (simp add: html_piece_def starts_ci_def tolower_def code_def)

text \<open>A cue that ends within a colour tag, right after the closing quote, makes \<^verbatim>\<open>srt_html_to_ass\<close> read
  behind the end of the string: it skips the quote and the bracket it expects there.\<close>

lemma html_to_ass_overrun:
  assumes "CHR ''<'' \<notin> set s" and "DQ \<notin> set color"
  shows "srt_html_to_ass (\<lambda>_. True) (s @ ''<font color='' @ DQ # color @ [DQ]) = Inl Out_of_bounds"
proof -
  let ?p = "''<font color='' @ DQ # color @ [DQ]"
  have "quoted ?p = Some (color, [DQ])"
    using assms(2) by (simp add: quoted_def strchr_append)
  then have "html_piece ?p = Inl Out_of_bounds"
    unfolding html_piece_color by (simp add: font_piece_def skip_quote_def)
  then have f: "html_loop (\<lambda>_. True) ?p b = Inl Out_of_bounds" for b
    by (subst html_loop.simps) simp
  have b: "dbuf_wf \<lparr>db_text = [], db_cap = length (s @ ?p) * 8 + 128\<rparr>" by (simp add: dbuf_wf_def)
  from html_loop_append [OF assms(1) b, of ?p]
  have "html_loop (\<lambda>_. True) (s @ ?p) \<lparr>db_text = [], db_cap = length (s @ ?p) * 8 + 128\<rparr> = Inl Out_of_bounds"
    using f by auto
  then show ?thesis by (simp add: srt_html_to_ass_def dbuf_new_def)
qed

lemma html_to_ass_overrun_example:
  "srt_html_to_ass (\<lambda>_. True) (''Hi '' @ ''<font color='' @ DQ # ''#FF0000'' @ [DQ]) = Inl Out_of_bounds"
  by (rule html_to_ass_overrun) simp_all

subsection \<open>Colours\<close>

lemma code_hex_char: "d < 16 \<Longrightarrow> code (hex_char d) = (if d < 10 then 48 + d else 55 + d)"
  by (simp add: hex_char_def code_def)

lemma hex_char_facts:
  assumes "d < 16"
  shows "isxdigit (hex_char d)" and "hex_val (hex_char d) = int d" and "\<not> isspace (hex_char d)"
    and "hex_char d \<noteq> CHR ''-''" and "hex_char d \<noteq> CHR ''+''" and "tolower (hex_char d) \<noteq> CHR ''x''"
    and "hex_char d \<noteq> DQ"
proof -
  note c = code_hex_char [OF assms]
  show "isxdigit (hex_char d)" "hex_val (hex_char d) = int d" "\<not> isspace (hex_char d)"
    using assms c by (auto simp: isxdigit_def isdigit_def hex_val_def digit_val_def isspace_def simp flip: code_inject)
      (auto simp: code_def)
  have "code (hex_char d) \<noteq> code (CHR ''-'')" "code (hex_char d) \<noteq> code (CHR ''+'')"
    "code (hex_char d) \<noteq> code DQ"
    using assms c by (auto simp: code_def)
  then show "hex_char d \<noteq> CHR ''-''" "hex_char d \<noteq> CHR ''+''" "hex_char d \<noteq> DQ" by auto
  show "tolower (hex_char d) \<noteq> CHR ''x''"
  proof
    assume "tolower (hex_char d) = CHR ''x''"
    then have "code (tolower (hex_char d)) = 120" by (simp add: code_def)
    with assms c show False by (auto simp: tolower_def code_def split: if_splits)
  qed
qed

lemma hex2_eq: "n < 256 \<Longrightarrow> hex2 n = [hex_char (n div 16), hex_char (n mod 16)]"
proof -
  assume "n < 256"
  then have "n div 16 < 16" by (simp add: less_mult_imp_div_less)
  then show ?thesis
    by (cases "n < 16") (simp_all add: hex2_def hex.simps [of n] hex.simps [of "n div 16"] hex_char_def
        char_of_def bit_0)
qed

lemma scan_hex2_hex2: "n < 256 \<Longrightarrow> scan_hex2 (hex2 n @ rest) = Some (n, rest)"
proof -
  assume n: "n < 256"
  then have d: "n div 16 < 16" "n mod 16 < 16" by (simp_all add: less_mult_imp_div_less)
  note h = hex_char_facts [OF d(1)] hex_char_facts [OF d(2)]
  have "int (n div 16) * 16 + int (n mod 16) = int n" by presburger
  then have "nat (base_val 16 [hex_char (n div 16), hex_char (n mod 16)]) = n"
    using h by (simp add: base_val_def)
  with h show ?thesis
    by (simp add: hex2_eq [OF n] scan_hex2_def lstrip_def Let_def)
qed

lemma scan_hexes_hex2:
  assumes "r < 256" and "g < 256" and "b < 256"
  shows "scan_hexes 3 (hex2 r @ hex2 g @ hex2 b @ rest) = [r, g, b]"
  using assms by (simp add: numeral_3_eq_3 scan_hex2_hex2)

text \<open>\<^verbatim>\<open>srt_html_to_ass\<close> writes a colour with red first where ASS, as \<^verbatim>\<open>parse_ass_color\<close> reads it, has blue
  first: a font colour comes back with red and blue exchanged.\<close>

lemma ass_color_swapped:
  assumes "r < 256" and "g < 256" and "b < 256"
  shows "\<exists>t. srt_html_to_ass (\<lambda>_. True)
      (''<font color='' @ DQ # ''#'' @ hex2 r @ hex2 g @ hex2 b @ DQ # ''>'') = Inr t \<and>
    parse_ass_color t 16 = ''#'' @ hex2 b @ hex2 g @ hex2 r"
proof -
  let ?c = "''#'' @ hex2 r @ hex2 g @ hex2 b"
  let ?p = "''<font color='' @ DQ # ?c @ DQ # ''>''"
  have l: "length (hex2 x) = 2" "DQ \<notin> set (hex2 x)" if "x < 256" for x
    using that hex_char_facts(7) [of "x div 16"] hex_char_facts(7) [of "x mod 16"]
    by (auto simp: hex2_eq less_mult_imp_div_less)
  have "DQ \<notin> set ?c" using assms l by auto
  then have q: "quoted ?p = Some (?c, DQ # ''>'')" by (simp add: quoted_def strchr_append)
  have "take 15 ?c = ?c" using assms l by simp
  moreover have "color_tag ?c = CHR ''{'' # BSL # ''1c&H'' @ hex2 r @ hex2 g @ hex2 b @ ''&}''"
    using assms l scan_hexes_hex2 [OF assms, of "[]"] by (simp add: color_tag_def Let_def)
  ultimately have p: "html_piece ?p = Inr (Some (CHR ''{'' # BSL # ''1c&H'' @ hex2 r @ hex2 g @ hex2 b @ ''&}''), [])"
    unfolding html_piece_color font_piece_def q by (simp add: skip_quote_def)
  let ?t = "CHR ''{'' # BSL # ''1c&H'' @ hex2 r @ hex2 g @ hex2 b @ ''&}''"
  let ?b = "\<lparr>db_text = [], db_cap = length ?p * 8 + 128\<rparr>"
  have wf: "dbuf_wf ?b" by (simp add: dbuf_wf_def)
  obtain b' where b': "dyn_append (\<lambda>_. True) ?t ?b = Inr b'"
    using dyn.app_fault [OF wf, of "\<lambda>_. True" ?t]
    by (cases "dyn_append (\<lambda>_. True) ?t ?b") (auto simp: alloc_fault_def)
  have "db_text b' = ?t" using dyn.app_text [OF b'] by simp
  moreover have "html_loop (\<lambda>_. True) ?p ?b = Inr b'"
    using b' by (subst html_loop.simps) (simp only: p, simp add: html_loop.simps [of _ "[]"])
  ultimately have "srt_html_to_ass (\<lambda>_. True) ?p = Inr ?t"
    unfolding srt_html_to_ass_def by (simp add: dbuf_new_def)
  moreover have "parse_ass_color ?t 16 = ''#'' @ hex2 b @ hex2 g @ hex2 r"
    using assms l scan_hexes_hex2 [OF assms, of "''&}''"] by (simp add: parse_ass_color_def)
  ultimately show ?thesis by (intro exI [of _ ?t]) simp
qed

lemma ass_color_swapped_example:
  "\<exists>t. srt_html_to_ass (\<lambda>_. True) (''<font color='' @ DQ # ''#FF0000'' @ DQ # ''>'') = Inr t \<and>
     parse_ass_color t 16 = ''#0000FF''"
proof -
  have "hex2 255 = ''FF''" "hex2 0 = ''00''" by code_simp+
  with ass_color_swapped [of 255 0 0] show ?thesis by simp
qed

subsection \<open>The translation to Pango\<close>

lemma push_tag_bound: "length st < MAX_TAG_STACK \<Longrightarrow> length (push_tag t st) < MAX_TAG_STACK"
  by (simp add: push_tag_def MAX_TAG_STACK_def Let_def)

lemma pop_tag_bound: "length (snd (pop_tag t st)) \<le> length st"
  using length_dropWhile_le [of "\<lambda>x. x \<noteq> t" "rev st"] by (auto simp: pop_tag_def)

text \<open>The stack of open tags never overflows.\<close>

lemma tag_piece_bound:
  assumes "length st < MAX_TAG_STACK"
  shows "length (fst (snd (tag_piece st p))) < MAX_TAG_STACK"
proof -
  have "length (snd (pop_tag t st)) < MAX_TAG_STACK" for t
    using assms pop_tag_bound [of t st] by (rule order_le_less_trans [rotated])
  with assms show ?thesis
    by (simp add: tag_piece_def open_tag_def close_tag_def Let_def split_beta push_tag_bound split: option.split)
qed

lemma append_all_wf:
  "dbuf_wf b \<Longrightarrow> append_all alloc ss b = Inr b' \<Longrightarrow> dbuf_wf b'"
  "dbuf_wf b \<Longrightarrow> append_all alloc ss b = Inl e \<Longrightarrow> alloc_fault alloc e"
  by (induction ss arbitrary: b) (auto simp: sbind_eq_Inr_iff sbind_eq_Inl_iff dest: dyn.app_Inr dyn.app_fault)

lemma tags_loop_wf:
  "(tags_loop alloc st p b = Inl e \<longrightarrow> dbuf_wf b \<longrightarrow> alloc_fault alloc e) \<and>
   (tags_loop alloc st p b = Inr (st', b') \<longrightarrow> dbuf_wf b \<longrightarrow> length st < MAX_TAG_STACK \<longrightarrow>
     dbuf_wf b' \<and> length st' < MAX_TAG_STACK)"
proof (induction alloc st p b rule: tags_loop.induct)
  case (1 alloc st p b)
  show ?case
  proof (cases "p = []")
    case False
    show ?thesis
    proof (cases "append_all alloc (fst (tag_piece st p)) b")
      case (Inl e')
      with False show ?thesis by (auto simp: tags_loop.simps [of alloc st p] dest: append_all_wf)
    next
      case (Inr b1)
      with 1 [OF False Inr] False show ?thesis
        by (auto simp: tags_loop.simps [of alloc st p] dest: append_all_wf(1) tag_piece_bound)
    qed
  qed (simp add: tags_loop.simps)
qed

lemma normalize_tags_fault:
  assumes "normalize_tags alloc s = Inl e"
  shows "alloc_fault alloc e"
proof (cases "alloc (length s * 6 + 256)")
  case True
  let ?b = "\<lparr>db_text = [], db_cap = length s * 6 + 256\<rparr>"
  have b: "dbuf_new alloc (length s * 6 + 256) = Inr ?b" "dbuf_wf ?b"
    using True by (simp_all add: dbuf_new_def dbuf_wf_def)
  have w: "length ([] :: cstr list) < MAX_TAG_STACK" by (simp add: MAX_TAG_STACK_def)
  show ?thesis
  proof (cases "tags_loop alloc [] s ?b")
    case (Inl e')
    with assms b(1) have "e' = e" by (simp add: normalize_tags_def)
    with Inl tags_loop_wf b(2) show ?thesis by blast
  next
    case (Inr x)
    obtain st b' where "x = (st, b')" by (rule prod.exhaust)
    with Inr tags_loop_wf [of alloc "[]" s ?b e st b'] b(2) w have "dbuf_wf b'" by simp
    moreover have "append_all alloc (rev st) b' = Inl e"
      using assms b(1) Inr \<open>x = (st, b')\<close> by (auto simp: normalize_tags_def sbind_eq_Inl_iff)
    ultimately show ?thesis by (rule append_all_wf(2))
  qed
qed (use assms in \<open>auto simp: normalize_tags_def dbuf_new_def alloc_fault_def\<close>)

text \<open>Two defects: closing an outer tag forgets the inner ones, and the name of a font keeps the last letter
  of the tag \<^verbatim>\<open>\fn\<close>.\<close>

lemma normalize_tags_forgets:
  "normalize_tags (\<lambda>_. True) (CHR ''{'' # BSL # ''i1}'' @ CHR ''{'' # BSL # ''b1}x'' @ CHR ''{'' # BSL # ''i0}'') =
     Inr ''<i><b>x</i>''"
  by code_simp

lemma normalize_tags_font:
  "normalize_tags (\<lambda>_. True) (CHR ''{'' # BSL # ''fnArial}x'') =
     Inr (''<span font='' @ DQ # ''nArial'' @ DQ # ''>x</span>'')"
  by code_simp

end
