(* ===== verification/Tracks.thy ===== *)
theory Tracks
  imports Cli Demux Srt_markup
begin

text \<open>
  What \<^verbatim>\<open>srt2dvbsub.c\<close> sets up before the main loop: \<^verbatim>\<open>ctx_init\<close> probes the input, mirrors its streams
  in the output and finds those to be replaced; \<^verbatim>\<open>ctx_parse_tracks\<close> makes a subtitle track of every pair
  of a file and a language. The input as libavformat presents it, the allocation of streams and
  codecs and the setup of libass are parameters. The lemmas say which tracks there are, that they
  have streams of their own, and which PIDs they get.
\<close>

subsection \<open>The input and the output\<close>

datatype media_type = Video_media | Audio_media | Subtitle_media | Other_media

type_synonym dict = "cstr \<Rightarrow> cstr option"

record av_stream =
  st_type :: media_type
  st_id :: int
  st_width :: int
  st_height :: int
  st_metadata :: dict
  st_start :: "int option"
  st_time_base :: rational

record av_input =
  fi_streams :: "av_stream list"
  fi_programs :: "dict option list"
  fi_start_time :: "int option"
  fi_bit_rate :: int
  fi_metadata :: dict

text \<open>A stream of the output: its PID, its kind, and the metadata that the program sets.\<close>

record out_stream =
  os_id :: int
  os_type :: media_type
  os_metadata :: dict

record track = SubTrack +
  tk_lang :: cstr
  tk_filename :: cstr
  tk_forced :: bool
  tk_hi :: bool
  tk_ass :: "(cstr \<times> int \<times> int) list option"

record MainCtx =
  mc_tracks :: "track list"
  mc_out :: "out_stream list"
  mc_preserve_pids :: bool
  mc_max_input_pid :: int
  mc_overwrite_subs :: bool
  mc_overwrite_langs :: "cstr option"
  mc_targets :: "OverwriteTarget list"
  mc_delay_vals :: "int list option"
  mc_mux_rate :: int
  mc_service_name :: "cstr option"
  mc_service_provider :: "cstr option"

record track_env =
  te_alloc :: "nat \<Rightarrow> bool"
  te_open_input :: "cstr \<Rightarrow> av_input option"
  te_alloc_output :: bool
  te_new_stream :: "nat \<Rightarrow> bool"
  te_copy_params :: "nat \<Rightarrow> bool"
  te_encoder :: bool
  te_rescale :: "int \<Rightarrow> rational \<Rightarrow> rational \<Rightarrow> int"
  te_file :: "cstr \<Rightarrow> char list option"
  te_codec :: "nat \<Rightarrow> bool"
  te_ass_ready :: bool
  te_ass_track :: "nat \<Rightarrow> bool"
  te_nproc :: int

text \<open>Code that may fault or return early.\<close>

datatype 'a run = Fault cfault | Exit int | Go 'a

definition rbind :: "'a run \<Rightarrow> ('a \<Rightarrow> 'b run) \<Rightarrow> 'b run" where
  "rbind r f = (case r of Fault e \<Rightarrow> Fault e | Exit i \<Rightarrow> Exit i | Go x \<Rightarrow> f x)"

lemma rbind_simps [simp]: "rbind (Fault e) f = Fault e" "rbind (Exit i) f = Exit i" "rbind (Go x) f = f x"
  by (simp_all add: rbind_def)

lemma rbind_eq_Go_iff: "rbind r f = Go y \<longleftrightarrow> (\<exists>x. r = Go x \<and> f x = Go y)"
  by (cases r) simp_all

definition check :: "bool \<Rightarrow> int \<Rightarrow> unit run" where
  "check b i = (if b then Go () else Exit i)"

lemma check_eq_Go [simp]: "check b i = Go u \<longleftrightarrow> b"
  by (simp add: check_def)

subsection \<open>Initialisation\<close>

definition MAX_OVERWRITE_TARGETS :: nat where "MAX_OVERWRITE_TARGETS = 16"

definition dict_set :: "cstr \<Rightarrow> cstr \<Rightarrow> dict \<Rightarrow> dict" where
  "dict_set k v d = d(k := Some v)"

text \<open>The first video stream decides the size.\<close>

definition video_size :: "av_stream list \<Rightarrow> int \<Rightarrow> int \<Rightarrow> int \<times> int" where
  "video_size sts w h =
     (case filter (\<lambda>s. st_type s = Video_media) sts of
        [] \<Rightarrow> (w, h)
      | s # _ \<Rightarrow> (if st_width s > 0 then st_width s else w, if st_height s > 0 then st_height s else h))"

definition av_time_base_q :: rational where "av_time_base_q = (1, 1000000)"

definition start_pts90 :: "track_env \<Rightarrow> av_input \<Rightarrow> int" where
  "start_pts90 env fi =
     (case fi_start_time fi of
        Some t \<Rightarrow> te_rescale env t av_time_base_q tb_90k
      | None \<Rightarrow>
          (case filter (\<lambda>s. st_type s = Video_media) (fi_streams fi) of
             [] \<Rightarrow> 0
           | s # _ \<Rightarrow> (case st_start s of None \<Rightarrow> 0 | Some t \<Rightarrow> te_rescale env t (st_time_base s) tb_90k)))"

text \<open>The candidate for replacement that an input stream is, if it is one; the second component says that
  the language filter skips the rest of the loop body.\<close>

definition overwrite_slot :: "MainCtx \<Rightarrow> nat \<Rightarrow> av_stream \<Rightarrow> OverwriteTarget option \<times> bool" where
  "overwrite_slot ctx i s =
     (if mc_overwrite_subs ctx \<and> length (mc_targets ctx) < MAX_OVERWRITE_TARGETS \<and> st_type s = Subtitle_media then
        (case st_metadata s ''language'' of
           None \<Rightarrow> (None, False)
         | Some l \<Rightarrow>
             if length l = 3 then
               (if \<not> overwrite_lang_allowed (mc_overwrite_langs ctx) (Some l) then (None, True)
                else
                  (Some \<lparr>ow_in_stream = int i, ow_out_stream = int i, ow_pid = st_id s, ow_lang = l, ow_used = False\<rparr>,
                   False))
             else (None, False))
      else (None, False))"

definition mirror_stream :: "nat \<Rightarrow> av_stream \<Rightarrow> MainCtx \<Rightarrow> MainCtx" where
  "mirror_stream i s ctx0 =
     (let out = \<lparr>os_id = 0, os_type = st_type s, os_metadata = st_metadata s\<rparr>;
          (slot, skip) = overwrite_slot ctx0 i s;
          ctx = ctx0\<lparr>mc_targets := mc_targets ctx0 @ (case slot of None \<Rightarrow> [] | Some t \<Rightarrow> [t])\<rparr>
      in if skip \<or> \<not> (mc_preserve_pids ctx \<and> st_id s > 0) then ctx\<lparr>mc_out := mc_out ctx @ [out]\<rparr>
         else ctx\<lparr>mc_out := mc_out ctx @ [out\<lparr>os_id := st_id s\<rparr>],
                  mc_max_input_pid := max (mc_max_input_pid ctx) (st_id s)\<rparr>)"

fun mirror_streams :: "track_env \<Rightarrow> nat \<Rightarrow> av_stream list \<Rightarrow> MainCtx \<Rightarrow> MainCtx run" where
  "mirror_streams env i [] ctx = Go ctx"
| "mirror_streams env i (s # sts) ctx =
     (if \<not> te_new_stream env i \<or> \<not> te_copy_params env i then Exit (- 1)
      else mirror_streams env (i + 1) sts (mirror_stream i s ctx))"

text \<open>The first of two entries of a dictionary, read by \<^verbatim>\<open>strtoll\<close>.\<close>

definition rate_tag :: "dict \<Rightarrow> int" where
  "rate_tag d =
     (case d ''muxrate'' of
        Some v \<Rightarrow> fst (strtol v)
      | None \<Rightarrow> (case d ''bit_rate'' of Some v \<Rightarrow> fst (strtol v) | None \<Rightarrow> 0))"

fun program_rate :: "dict option list \<Rightarrow> int \<Rightarrow> int" where
  "program_rate [] r = r"
| "program_rate (p # ps) r =
     (if r \<noteq> 0 then r
      else (case p of
              None \<Rightarrow> program_rate ps r
            | Some d \<Rightarrow>
                program_rate ps
                  (if d ''muxrate'' = None \<and> d ''bit_rate'' = None then r else rate_tag d)))"

definition detect_mux_rate :: "av_input \<Rightarrow> int" where
  "detect_mux_rate fi =
     (let r0 = (if fi_bit_rate fi > 0 then fi_bit_rate fi else 0);
          r1 = (if r0 = 0 then rate_tag (fi_metadata fi) else r0)
      in if r1 = 0 then program_rate (fi_programs fi) 0 else r1)"

definition tag_text :: "dict \<Rightarrow> cstr \<Rightarrow> cstr option" where
  "tag_text d k = (case d k of Some v \<Rightarrow> (if v = [] then None else Some v) | None \<Rightarrow> None)"

fun program_tag :: "dict option list \<Rightarrow> cstr \<Rightarrow> cstr option" where
  "program_tag [] k = None"
| "program_tag (p # ps) k =
     (case Option.bind p (\<lambda>d. tag_text d k) of None \<Rightarrow> program_tag ps k | Some v \<Rightarrow> Some v)"

definition service_tag :: "av_input \<Rightarrow> cstr \<Rightarrow> cstr option" where
  "service_tag fi k =
     (case program_tag (fi_programs fi) k of Some v \<Rightarrow> Some v | None \<Rightarrow> tag_text (fi_metadata fi) k)"

definition dup_tag :: "track_env \<Rightarrow> cstr option \<Rightarrow> bool" where
  "dup_tag env v \<longleftrightarrow> (case v of None \<Rightarrow> True | Some s \<Rightarrow> te_alloc env (length s + 1))"

definition init_delays :: "track_env \<Rightarrow> cstr option \<Rightarrow> int list option run" where
  "init_delays env list =
     (case list of
        None \<Rightarrow> Go None
      | Some l \<Rightarrow>
          (case parse_delay_list (te_alloc env) l of (e, vals, n) \<Rightarrow>
             if e \<noteq> None then Exit (- 1) else Go vals))"

record init_result =
  ir_ctx :: MainCtx
  ir_input :: av_input
  ir_video_w :: int
  ir_video_h :: int
  ir_start_pts90 :: int

definition ctx_init :: "track_env \<Rightarrow> cli_args \<Rightarrow> init_result run" where
  "ctx_init env a =
     (let ctx0 = \<lparr>mc_tracks = [], mc_out = [], mc_preserve_pids = preserve_pids a,
                  mc_max_input_pid = (if preserve_pids a then 31 else 0),
                  mc_overwrite_subs = overwrite_subs a, mc_overwrite_langs = overwrite_langs a,
                  mc_targets = [], mc_delay_vals = None, mc_mux_rate = 0,
                  mc_service_name = None, mc_service_provider = None\<rparr>
      in case te_open_input env (the (in_path a)) of
           None \<Rightarrow> Exit (- 1)
         | Some fi \<Rightarrow>
             rbind (check (\<not> (mc_overwrite_subs ctx0 \<and> length (fi_programs fi) > 1)) (- 1)) (\<lambda>_.
             rbind (check (te_alloc_output env) (- 1)) (\<lambda>_.
             rbind (mirror_streams env 0 (fi_streams fi) ctx0) (\<lambda>ctx1.
             rbind (check (te_encoder env) (- 1)) (\<lambda>_.
             rbind (init_delays env (subtitle_delay_list a)) (\<lambda>delays.
             rbind (check (dup_tag env (service_tag fi ''service_name'')) (- 1)) (\<lambda>_.
             rbind (check (dup_tag env (service_tag fi ''service_provider'')) (- 1)) (\<lambda>_.
             Go \<lparr>ir_ctx = ctx1\<lparr>mc_delay_vals := delays, mc_mux_rate := detect_mux_rate fi,
                               mc_service_name := service_tag fi ''service_name'',
                               mc_service_provider := service_tag fi ''service_provider''\<rparr>,
                 ir_input = fi,
                 ir_video_w = fst (video_size (fi_streams fi) (video_w a) (video_h a)),
                 ir_video_h = snd (video_size (fi_streams fi) (video_w a) (video_h a)),
                 ir_start_pts90 = start_pts90 env fi\<rparr>))))))))"

subsection \<open>Tracks\<close>

text \<open>The cues of a track: \<^verbatim>\<open>parse_srt_cfg\<close> with the size of the video. A file that cannot be parsed ends the
  program, except for a track that libass renders, which is then empty.\<close>

definition track_penv :: "track_env \<Rightarrow> cli_args \<Rightarrow> int \<Rightarrow> int \<Rightarrow> bool \<Rightarrow> cstr \<Rightarrow> parse_env" where
  "track_penv env a w h ass tok =
     \<lparr>pe_alloc = te_alloc env, pe_filename = tok, pe_qc = False, pe_use_ass = ass, pe_video_w = w, pe_video_h = h,
      pe_global_w = w, pe_global_h = h\<rparr>"

definition parse_srt_cfg :: "parse_env \<Rightarrow> char list option \<Rightarrow> qc_state \<Rightarrow> (SRTEntry list \<times> qc_state) option cres" where
  "parse_srt_cfg penv file q =
     (case parse_srt_internal penv file q of
        Inr r \<Rightarrow> Inr (Some r)
      | Inl Cannot_open \<Rightarrow> Inr None
      | Inl (Parse_fault Alloc_failed) \<Rightarrow> Inr None
      | Inl (Parse_fault e) \<Rightarrow> Inl e)"

fun ass_events :: "(nat \<Rightarrow> bool) \<Rightarrow> int \<Rightarrow> SRTEntry list \<Rightarrow> (cstr \<times> int \<times> int) list cres" where
  "ass_events alloc delay [] = Inr []"
| "ass_events alloc delay (e # es) =
     (case srt_html_to_ass alloc (entry_text e) of
        Inr t \<Rightarrow>
          sbind (ass_events alloc delay es) (\<lambda>evs. Inr ((t, start_ms e + delay, end_ms e + delay) # evs))
      | Inl Alloc_failed \<Rightarrow>
          sbind (ass_events alloc delay es) (\<lambda>evs.
            Inr (if alloc (length (entry_text e) + 1)
                 then (entry_text e, start_ms e + delay, end_ms e + delay) # evs else evs))
      | Inl f \<Rightarrow> Inl f)"

definition of_cres :: "'a cres \<Rightarrow> 'a run" where
  "of_cres r = (case r of Inl e \<Rightarrow> Fault e | Inr x \<Rightarrow> Go x)"

definition load_cues :: "track_env \<Rightarrow> cli_args \<Rightarrow> int \<Rightarrow> int \<Rightarrow> cstr \<Rightarrow> nat \<Rightarrow> int \<Rightarrow> qc_state \<Rightarrow>
    (SRTEntry list \<times> (cstr \<times> int \<times> int) list option \<times> qc_state) run" where
  "load_cues env a w h tok n delay q =
     (if \<not> (use_ass a \<and> is_ass_file (Some tok)) then
        rbind (of_cres (parse_srt_cfg (track_penv env a w h False tok) (te_file env tok) q)) (\<lambda>r.
          case r of None \<Rightarrow> Exit 1 | Some (es, q') \<Rightarrow> Go (es, None, q'))
      else if \<not> te_ass_ready env \<or> \<not> te_ass_track env n then Exit (- 1)
      else
        rbind (of_cres (parse_srt_cfg (track_penv env a w h True tok) (te_file env tok) q)) (\<lambda>r.
          case r of
            None \<Rightarrow> Go ([], Some [], q)
          | Some (es, q') \<Rightarrow> rbind (of_cres (ass_events (te_alloc env) delay es)) (\<lambda>evs. Go (es, Some evs, q'))))"

text \<open>The PID of a new stream behind all those of the input.\<close>

definition preserved_pid :: "MainCtx \<Rightarrow> int" where
  "preserved_pid ctx = (if mc_max_input_pid ctx < 31 then 31 else mc_max_input_pid ctx) + 1"

definition as_subtitle :: "cstr \<Rightarrow> bool \<Rightarrow> bool \<Rightarrow> out_stream \<Rightarrow> out_stream" where
  "as_subtitle lang forced hi s =
     (let m0 = dict_set ''language'' lang (os_metadata s);
          m1 = (if forced then dict_set ''forced'' ''1'' m0 else m0);
          m2 = (if hi then dict_set ''hearing_impaired'' ''1'' m1 else m1)
      in s\<lparr>os_type := Subtitle_media, os_metadata := m2\<rparr>)"

text \<open>The stream of a track: one of the input that is replaced, or a new one.\<close>

definition place_stream :: "track_env \<Rightarrow> cli_args \<Rightarrow> cstr \<Rightarrow> bool \<Rightarrow> bool \<Rightarrow> MainCtx \<Rightarrow> (MainCtx \<times> nat) run" where
  "place_stream env a lang forced hi ctx =
     (case find_overwrite_target (mc_overwrite_subs ctx) (mc_targets ctx) (Some lang) of
        Some j \<Rightarrow>
          let t = mc_targets ctx ! j; k = nat (ow_out_stream t);
              s = as_subtitle lang forced hi (mc_out ctx ! k)
          in Go (ctx\<lparr>mc_targets := (mc_targets ctx)[j := t\<lparr>ow_used := True\<rparr>],
                     mc_out := (mc_out ctx)[k := if ow_pid t > 0 then s\<lparr>os_id := ow_pid t\<rparr> else s]\<rparr>, k)
      | None \<Rightarrow>
          let k = length (mc_out ctx);
              s = as_subtitle lang forced hi \<lparr>os_id = 0, os_type = Other_media, os_metadata = Map.empty\<rparr>
          in if \<not> te_new_stream env k then Exit (- 1)
             else if mc_preserve_pids ctx \<and> pid_list a = None then
               (if preserved_pid ctx > 8186 then Exit (- 1)
                else Go (ctx\<lparr>mc_out := mc_out ctx @ [s\<lparr>os_id := preserved_pid ctx\<rparr>],
                             mc_max_input_pid := preserved_pid ctx\<rparr>, k))
             else Go (ctx\<lparr>mc_out := mc_out ctx @ [s]\<rparr>, k))"

definition track_delay :: "cli_args \<Rightarrow> MainCtx \<Rightarrow> nat \<Rightarrow> int" where
  "track_delay a ctx n =
     (case mc_delay_vals ctx of
        Some vs \<Rightarrow> if n < length vs then vs ! n else subtitle_delay_ms a
      | None \<Rightarrow> subtitle_delay_ms a)"

definition flag_of :: "bool list \<Rightarrow> nat \<Rightarrow> bool" where
  "flag_of fs n = (if n < 8 \<and> n < length fs then fs ! n else False)"

definition add_track :: "track_env \<Rightarrow> cli_args \<Rightarrow> int \<Rightarrow> int \<Rightarrow> bool list \<Rightarrow> bool list \<Rightarrow> cstr \<Rightarrow> cstr \<Rightarrow>
    MainCtx \<times> qc_state \<Rightarrow> (MainCtx \<times> qc_state) run" where
  "add_track env a w h forced_flags hi_flags tok tok_lang s =
     (case s of (ctx, q) \<Rightarrow>
        let n = length (mc_tracks ctx); lang = trim_string_inplace tok_lang;
            forced = flag_of forced_flags n; hi = flag_of hi_flags n; delay = track_delay a ctx n
        in rbind (check (lang \<noteq> [] \<and> length lang = 3) (- 1)) (\<lambda>_.
           rbind (check (te_alloc env (length lang + 1)) 1) (\<lambda>_.
           rbind (check (validate_path_length tok) 1) (\<lambda>_.
           rbind (check (te_alloc env (length tok + 1)) 1) (\<lambda>_.
           rbind (load_cues env a w h tok n delay q) (\<lambda>(es, evs, q').
           rbind (place_stream env a lang forced hi ctx) (\<lambda>(ctx', k).
           rbind (check (te_codec env n) (- 1)) (\<lambda>_.
           Go (ctx'\<lparr>mc_tracks := mc_tracks ctx' @
                 [\<lparr>tr_entries = es, tr_cur_sub = 0, tr_stream = Some (k, tb_90k), tr_codec = True,
                   tr_last_pts = None, tr_delay = delay, tr_tmpbuf = None, tr_tmpbuf_size = 0,
                   tr_full_count = 0, tk_lang = lang, tk_filename = tok, tk_forced = forced, tk_hi = hi,
                   tk_ass = evs\<rparr>]\<rparr>, q')))))))))"

fun track_loop :: "track_env \<Rightarrow> cli_args \<Rightarrow> int \<Rightarrow> int \<Rightarrow> bool list \<Rightarrow> bool list \<Rightarrow> cstr list \<Rightarrow> cstr list \<Rightarrow>
    MainCtx \<times> qc_state \<Rightarrow> (MainCtx \<times> qc_state) run" where
  "track_loop env a w h ff hf (tok # toks) (l # ls) s =
     (if length (mc_tracks (fst s)) < 8 then
        rbind (add_track env a w h ff hf tok l s) (track_loop env a w h ff hf toks ls)
      else Go s)"
| "track_loop env a w h ff hf _ _ s = Go s"

text \<open>The two lists are taken apart at the commas, in step.\<close>

definition ctx_parse_tracks :: "track_env \<Rightarrow> cli_args \<Rightarrow> init_result \<Rightarrow> bool list \<Rightarrow> bool list \<Rightarrow> qc_state \<Rightarrow>
    (MainCtx \<times> qc_state) run" where
  "ctx_parse_tracks env a ir forced_flags hi_flags q =
     track_loop env a (ir_video_w ir) (ir_video_h ir) forced_flags hi_flags
       (tokens (CHR '','') (the (srt_list a))) (tokens (CHR '','') (the (lang_list a))) (ir_ctx ir, q)"

subsection \<open>Streams of their own\<close>

text \<open>A candidate for replacement is one of the \<open>nb\<close> streams of the input, mirrored at the same index.\<close>

definition targets_ok :: "nat \<Rightarrow> MainCtx \<Rightarrow> bool" where
  "targets_ok nb ctx \<longleftrightarrow>
     distinct (map ow_out_stream (mc_targets ctx)) \<and>
     (\<forall>t\<in>set (mc_targets ctx). mc_overwrite_subs ctx \<and> ow_in_stream t = ow_out_stream t \<and>
        0 \<le> ow_out_stream t \<and> ow_out_stream t < int nb)"

text \<open>The stream of a track is new, or that of a candidate in use.\<close>

definition track_placed :: "nat \<Rightarrow> MainCtx \<Rightarrow> track \<Rightarrow> bool" where
  "track_placed nb ctx tr \<longleftrightarrow>
     (\<exists>k. tr_stream tr = Some (k, tb_90k) \<and> k < length (mc_out ctx) \<and>
        (k < nb \<longrightarrow> (\<exists>t\<in>set (mc_targets ctx). ow_used t \<and> ow_out_stream t = int k)))"

definition track_fresh :: "track \<Rightarrow> bool" where
  "track_fresh tr \<longleftrightarrow>
     tr_cur_sub tr = 0 \<and> tr_codec tr \<and> tr_last_pts tr = None \<and> tr_tmpbuf tr = None \<and> tr_tmpbuf_size tr = 0"

definition ctx_inv :: "nat \<Rightarrow> MainCtx \<Rightarrow> bool" where
  "ctx_inv nb ctx \<longleftrightarrow>
     targets_ok nb ctx \<and> nb \<le> length (mc_out ctx) \<and> distinct (map tr_stream (mc_tracks ctx)) \<and>
     (\<forall>tr\<in>set (mc_tracks ctx). track_placed nb ctx tr \<and> track_fresh tr)"

lemma mirror_streams_inv:
  assumes "mirror_streams env i sts ctx = Go ctx'" and "targets_ok i ctx" and "length (mc_out ctx) = i"
  shows "targets_ok (i + length sts) ctx' \<and> length (mc_out ctx') = i + length sts \<and>
    mc_tracks ctx' = mc_tracks ctx \<and> mc_overwrite_subs ctx' = mc_overwrite_subs ctx \<and>
    list_all (\<lambda>t. \<not> ow_used t) (mc_targets ctx) = list_all (\<lambda>t. \<not> ow_used t) (mc_targets ctx')"
  using assms
proof (induction env i sts ctx rule: mirror_streams.induct)
  case (2 env i s sts ctx)
  let ?c = "mirror_stream i s ctx"
  have r: "mirror_streams env (i + 1) sts ?c = Go ctx'" and n: "\<not> (\<not> te_new_stream env i \<or> \<not> te_copy_params env i)"
    using 2(2) by (auto split: if_splits)
  obtain slot skip where sl: "overwrite_slot ctx i s = (slot, skip)" by (rule prod.exhaust)
  have t: "mc_targets ?c = mc_targets ctx @ (case slot of None \<Rightarrow> [] | Some t \<Rightarrow> [t])"
    and same: "mc_tracks ?c = mc_tracks ctx" "mc_overwrite_subs ?c = mc_overwrite_subs ctx"
    and l: "length (mc_out ?c) = i + 1"
    using 2(4) by (simp_all add: mirror_stream_def sl Let_def)
  have slot: "ow_in_stream t = int i \<and> ow_out_stream t = int i \<and> \<not> ow_used t \<and> mc_overwrite_subs ctx"
    if "slot = Some t" for t
    using sl that by (auto simp: overwrite_slot_def split: if_splits option.splits)
  have "targets_ok (i + 1) ?c"
    using 2(3) slot by (cases slot) (fastforce simp: targets_ok_def t same)+
  with 2(1) [OF n r _ l] same slot show ?case by (cases slot) (auto simp: t)
qed (simp add: targets_ok_def)

lemma find_target_nth: "find_target lang ts = Some j \<Longrightarrow> j < length ts \<and> \<not> ow_used (ts ! j)"
  by (induction lang ts arbitrary: j rule: find_target.induct) (auto split: if_splits)

lemma find_overwrite_target_nth:
  "find_overwrite_target b ts l = Some j \<Longrightarrow> b \<and> j < length ts \<and> \<not> ow_used (ts ! j)"
  by (auto simp: find_overwrite_target_def split: if_splits option.splits dest: find_target_nth)

text \<open>Placing a stream keeps the others where they are.\<close>

lemma place_stream_inv:
  assumes "place_stream env a lang f h ctx = Go (ctx', k)" and "ctx_inv nb ctx"
  shows "targets_ok nb ctx'" and "nb \<le> length (mc_out ctx')" and "mc_tracks ctx' = mc_tracks ctx"
    and "k < length (mc_out ctx')" and "k < nb \<longrightarrow> (\<exists>t\<in>set (mc_targets ctx'). ow_used t \<and> ow_out_stream t = int k)"
    and "\<forall>tr\<in>set (mc_tracks ctx). track_placed nb ctx' tr \<and> tr_stream tr \<noteq> Some (k, tb_90k)"
proof -
  note inv = assms(2) [unfolded ctx_inv_def]
  have "targets_ok nb ctx' \<and> nb \<le> length (mc_out ctx') \<and> mc_tracks ctx' = mc_tracks ctx \<and>
    k < length (mc_out ctx') \<and> (k < nb \<longrightarrow> (\<exists>t\<in>set (mc_targets ctx'). ow_used t \<and> ow_out_stream t = int k)) \<and>
    (\<forall>tr\<in>set (mc_tracks ctx). track_placed nb ctx' tr \<and> tr_stream tr \<noteq> Some (k, tb_90k))"
  proof (cases "find_overwrite_target (mc_overwrite_subs ctx) (mc_targets ctx) (Some lang)")
    case None
    then have c: "mc_targets ctx' = mc_targets ctx" "mc_tracks ctx' = mc_tracks ctx"
      "mc_overwrite_subs ctx' = mc_overwrite_subs ctx" "length (mc_out ctx') = length (mc_out ctx) + 1"
      "k = length (mc_out ctx)"
      using assms(1) by (auto simp: place_stream_def Let_def split: if_splits)
    with inv show ?thesis by (fastforce simp: targets_ok_def track_placed_def)
  next
    case (Some j)
    note j = find_overwrite_target_nth [OF Some]
    let ?t = "mc_targets ctx ! j"
    from assms(1) Some have c: "mc_targets ctx' = (mc_targets ctx)[j := ?t\<lparr>ow_used := True\<rparr>]"
      "mc_tracks ctx' = mc_tracks ctx" "mc_overwrite_subs ctx' = mc_overwrite_subs ctx"
      "length (mc_out ctx') = length (mc_out ctx)" "k = nat (ow_out_stream ?t)"
      by (auto simp: place_stream_def Let_def)
    have t: "?t \<in> set (mc_targets ctx)" using j by simp
    with inv have k: "int k = ow_out_stream ?t" "k < nb" by (auto simp: targets_ok_def c(5))
    have m: "map ow_out_stream (mc_targets ctx') = map ow_out_stream (mc_targets ctx)"
      "map ow_in_stream (mc_targets ctx') = map ow_in_stream (mc_targets ctx)"
      using j by (simp_all add: c(1) map_update list_update_same_conv)
    have "targets_ok nb ctx'"
      unfolding targets_ok_def
    proof (intro conjI ballI)
      show "distinct (map ow_out_stream (mc_targets ctx'))" using inv by (simp add: targets_ok_def m)
      fix u assume "u \<in> set (mc_targets ctx')"
      then have "u = ?t\<lparr>ow_used := True\<rparr> \<or> u \<in> set (mc_targets ctx)"
        using set_update_subset_insert by (fastforce simp: c(1))
      then show "mc_overwrite_subs ctx'" "ow_in_stream u = ow_out_stream u" "0 \<le> ow_out_stream u"
        "ow_out_stream u < int nb"
        using inv t by (auto simp: targets_ok_def c(3))
    qed
    moreover have "?t\<lparr>ow_used := True\<rparr> \<in> set (mc_targets ctx')" using j by (simp add: c(1) set_update_memI)
    then have "\<exists>u\<in>set (mc_targets ctx'). ow_used u \<and> ow_out_stream u = int k"
      by (rule bexI [rotated]) (simp add: k(1))
    moreover have "track_placed nb ctx' tr \<and> tr_stream tr \<noteq> Some (k, tb_90k)" if tr: "tr \<in> set (mc_tracks ctx)" for tr
    proof -
      from inv tr obtain k' where k': "tr_stream tr = Some (k', tb_90k)" "k' < length (mc_out ctx)"
        "k' < nb \<Longrightarrow> \<exists>u\<in>set (mc_targets ctx). ow_used u \<and> ow_out_stream u = int k'"
        by (auto simp: track_placed_def)
      have "\<exists>u\<in>set (mc_targets ctx'). ow_used u \<and> ow_out_stream u = int k'" and "k' \<noteq> k" if "k' < nb"
      proof -
        from k'(3) [OF that] obtain i where i: "i < length (mc_targets ctx)" "ow_used (mc_targets ctx ! i)"
          "ow_out_stream (mc_targets ctx ! i) = int k'" by (auto simp: in_set_conv_nth)
        with j have "i \<noteq> j" by auto
        with i have "mc_targets ctx' ! i = mc_targets ctx ! i" "i < length (mc_targets ctx')" by (simp_all add: c(1))
        with i show "\<exists>u\<in>set (mc_targets ctx'). ow_used u \<and> ow_out_stream u = int k'" by (metis nth_mem)
        have "map ow_out_stream (mc_targets ctx) ! i \<noteq> map ow_out_stream (mc_targets ctx) ! j"
          using inv i(1) j \<open>i \<noteq> j\<close> by (subst nth_eq_iff_index_eq) (auto simp: targets_ok_def)
        with i j k(1) show "k' \<noteq> k" by auto
      qed
      with k' k(2) show ?thesis by (auto simp: track_placed_def c(4))
    qed
    ultimately show ?thesis using inv c k by auto
  qed
  then show "targets_ok nb ctx'" "nb \<le> length (mc_out ctx')" "mc_tracks ctx' = mc_tracks ctx"
    "k < length (mc_out ctx')" "k < nb \<longrightarrow> (\<exists>t\<in>set (mc_targets ctx'). ow_used t \<and> ow_out_stream t = int k)"
    "\<forall>tr\<in>set (mc_tracks ctx). track_placed nb ctx' tr \<and> tr_stream tr \<noteq> Some (k, tb_90k)"
    by blast+
qed

lemma add_track_Go:
  assumes "add_track env a w h ff hf tok l (ctx, q) = Go (ctx'', q'')"
  obtains es evs ctx' k where
    "load_cues env a w h tok (length (mc_tracks ctx)) (track_delay a ctx (length (mc_tracks ctx))) q = Go (es, evs, q'')"
    and "place_stream env a (trim_string_inplace l) (flag_of ff (length (mc_tracks ctx)))
      (flag_of hf (length (mc_tracks ctx))) ctx = Go (ctx', k)"
    and "ctx'' = ctx'\<lparr>mc_tracks := mc_tracks ctx' @
      [\<lparr>tr_entries = es, tr_cur_sub = 0, tr_stream = Some (k, tb_90k), tr_codec = True, tr_last_pts = None,
        tr_delay = track_delay a ctx (length (mc_tracks ctx)), tr_tmpbuf = None, tr_tmpbuf_size = 0,
        tr_full_count = 0, tk_lang = trim_string_inplace l, tk_filename = tok,
        tk_forced = flag_of ff (length (mc_tracks ctx)), tk_hi = flag_of hf (length (mc_tracks ctx)),
        tk_ass = evs\<rparr>]\<rparr>"
    and "length (trim_string_inplace l) = 3"
  using assms by (auto simp: add_track_def Let_def rbind_eq_Go_iff split: prod.splits)

lemma place_stream_frame:
  "place_stream env a lang f h ctx = Go (ctx', k) \<Longrightarrow>
   mc_tracks ctx' = mc_tracks ctx \<and> mc_delay_vals ctx' = mc_delay_vals ctx \<and>
   mc_overwrite_subs ctx' = mc_overwrite_subs ctx \<and> mc_preserve_pids ctx' = mc_preserve_pids ctx"
  by (auto simp: place_stream_def Let_def split: option.splits if_splits)

lemma add_track_inv:
  assumes "add_track env a w h ff hf tok l (ctx, q) = Go (ctx'', q'')" and "ctx_inv nb ctx"
  shows "ctx_inv nb ctx''"
proof -
  obtain es evs ctx' k where p: "place_stream env a (trim_string_inplace l) (flag_of ff (length (mc_tracks ctx)))
      (flag_of hf (length (mc_tracks ctx))) ctx = Go (ctx', k)"
    and c: "ctx'' = ctx'\<lparr>mc_tracks := mc_tracks ctx' @
      [\<lparr>tr_entries = es, tr_cur_sub = 0, tr_stream = Some (k, tb_90k), tr_codec = True, tr_last_pts = None,
        tr_delay = track_delay a ctx (length (mc_tracks ctx)), tr_tmpbuf = None, tr_tmpbuf_size = 0,
        tr_full_count = 0, tk_lang = trim_string_inplace l, tk_filename = tok,
        tk_forced = flag_of ff (length (mc_tracks ctx)), tk_hi = flag_of hf (length (mc_tracks ctx)),
        tk_ass = evs\<rparr>]\<rparr>"
    by (rule add_track_Go [OF assms(1)])
  note P = place_stream_inv [OF p assms(2)]
  have d: "distinct (map tr_stream (mc_tracks ctx))" "\<forall>tr\<in>set (mc_tracks ctx). track_fresh tr"
    using assms(2) by (auto simp: ctx_inv_def)
  have tp: "track_placed nb ctx'' tr = track_placed nb ctx' tr" for tr by (simp add: track_placed_def c)
  have to: "targets_ok nb ctx'' = targets_ok nb ctx'" by (simp add: targets_ok_def c)
  have "Some (k, tb_90k) \<notin> tr_stream ` set (mc_tracks ctx)" using P(6) by auto
  then have "distinct (map tr_stream (mc_tracks ctx''))" using d(1) by (simp add: c P(3))
  moreover have "\<forall>tr\<in>set (mc_tracks ctx''). track_placed nb ctx'' tr \<and> track_fresh tr"
    using P(4-6) d(2) by (auto simp: tp) (auto simp: c P(3) track_placed_def track_fresh_def)
  ultimately show ?thesis using P(1,2) by (simp add: ctx_inv_def to) (simp add: c)
qed

text \<open>A track made of a file and a language: where it comes from.\<close>

definition track_from :: "track_env \<Rightarrow> cli_args \<Rightarrow> MainCtx \<Rightarrow> nat \<Rightarrow> cstr \<Rightarrow> cstr \<Rightarrow> track \<Rightarrow> bool" where
  "track_from env a ctx n tok l tr \<longleftrightarrow>
     tk_filename tr = tok \<and> tk_lang tr = trim_string_inplace l \<and> length (tk_lang tr) = 3 \<and>
     tr_delay tr = track_delay a ctx n \<and>
     ((\<exists>penv q q'. parse_srt_internal penv (te_file env tok) q = Inr (tr_entries tr, q')) \<or>
      tr_entries tr = [] \<and> tk_ass tr = Some [])"

lemma parse_srt_cfg_Some: "parse_srt_cfg penv f q = Inr (Some r) \<Longrightarrow> parse_srt_internal penv f q = Inr r"
  by (auto simp: parse_srt_cfg_def split: sum.splits parse_error.splits cfault.splits)

lemma of_cres_Go [simp]: "of_cres r = Go x \<longleftrightarrow> r = Inr x"
  by (auto simp: of_cres_def split: sum.splits)

lemma load_cues_Go:
  "load_cues env a w h tok n d q = Go (es, evs, q') \<Longrightarrow>
   (\<exists>penv q0 q1. parse_srt_internal penv (te_file env tok) q0 = Inr (es, q1)) \<or> es = [] \<and> evs = Some []"
  by (auto simp: load_cues_def rbind_eq_Go_iff split: if_splits option.splits) (blast dest: parse_srt_cfg_Some)+

lemma add_track_from:
  assumes "add_track env a w h ff hf tok l (ctx, q) = Go (ctx', q')"
  shows "\<exists>tr. mc_tracks ctx' = mc_tracks ctx @ [tr] \<and> track_from env a ctx (length (mc_tracks ctx)) tok l tr \<and>
    mc_delay_vals ctx' = mc_delay_vals ctx"
proof -
  obtain es evs c' k where
    L: "load_cues env a w h tok (length (mc_tracks ctx)) (track_delay a ctx (length (mc_tracks ctx))) q = Go (es, evs, q')"
    and P: "place_stream env a (trim_string_inplace l) (flag_of ff (length (mc_tracks ctx)))
      (flag_of hf (length (mc_tracks ctx))) ctx = Go (c', k)"
    and C: "ctx' = c'\<lparr>mc_tracks := mc_tracks c' @
      [\<lparr>tr_entries = es, tr_cur_sub = 0, tr_stream = Some (k, tb_90k), tr_codec = True, tr_last_pts = None,
        tr_delay = track_delay a ctx (length (mc_tracks ctx)), tr_tmpbuf = None, tr_tmpbuf_size = 0,
        tr_full_count = 0, tk_lang = trim_string_inplace l, tk_filename = tok,
        tk_forced = flag_of ff (length (mc_tracks ctx)), tk_hi = flag_of hf (length (mc_tracks ctx)),
        tk_ass = evs\<rparr>]\<rparr>"
    and "length (trim_string_inplace l) = 3"
    by (rule add_track_Go [OF assms])
  then show ?thesis
    using place_stream_frame [OF P] load_cues_Go [OF L] by (simp add: C track_from_def)
qed

lemma track_loop_inv:
  "track_loop env a w h ff hf toks ls (ctx, q) = Go (ctx', q') \<Longrightarrow> ctx_inv nb ctx \<Longrightarrow> ctx_inv nb ctx'"
proof (induction toks arbitrary: ls ctx q)
  case (Cons tok toks)
  show ?case
  proof (cases ls)
    case (Cons l ls')
    show ?thesis
    proof (cases "length (mc_tracks ctx) < 8")
      case True
      with Cons Cons.prems(1) obtain c1 q1 where
        "add_track env a w h ff hf tok l (ctx, q) = Go (c1, q1)"
        "track_loop env a w h ff hf toks ls' (c1, q1) = Go (ctx', q')"
        by (auto simp: rbind_eq_Go_iff)
      with Cons.IH Cons.prems(2) add_track_inv show ?thesis by blast
    qed (use Cons Cons.prems in auto)
  qed (use Cons.prems in auto)
qed auto

lemma track_from_cong: "mc_delay_vals c = mc_delay_vals d \<Longrightarrow> track_from env a c n = track_from env a d n"
  by (intro ext) (simp add: track_from_def track_delay_def)

lemma track_loop_from:
  assumes "track_loop env a w h ff hf toks ls (ctx, q) = Go (ctx', q')"
  shows "\<exists>new. mc_tracks ctx' = mc_tracks ctx @ new \<and>
    length new = min (8 - length (mc_tracks ctx)) (min (length toks) (length ls)) \<and>
    (\<forall>i<length new. track_from env a ctx (length (mc_tracks ctx) + i) (toks ! i) (ls ! i) (new ! i))"
  using assms
proof (induction toks arbitrary: ls ctx q)
  case (Cons tok toks)
  show ?case
  proof (cases ls)
    case Nil
    with Cons.prems show ?thesis by simp
  next
    case ls: (Cons l ls')
    show ?thesis
    proof (cases "length (mc_tracks ctx) < 8")
      case False
      with ls Cons.prems show ?thesis by simp
    next
      case True
      with ls Cons.prems obtain c1 q1 where A: "add_track env a w h ff hf tok l (ctx, q) = Go (c1, q1)"
        and R: "track_loop env a w h ff hf toks ls' (c1, q1) = Go (ctx', q')"
        by (auto simp: rbind_eq_Go_iff)
      obtain tr where tr: "mc_tracks c1 = mc_tracks ctx @ [tr]"
        "track_from env a ctx (length (mc_tracks ctx)) tok l tr" "mc_delay_vals c1 = mc_delay_vals ctx"
        using add_track_from [OF A] by blast
      obtain new where new: "mc_tracks ctx' = mc_tracks c1 @ new"
        "length new = min (8 - length (mc_tracks c1)) (min (length toks) (length ls'))"
        "\<And>i. i < length new \<Longrightarrow> track_from env a c1 (length (mc_tracks c1) + i) (toks ! i) (ls' ! i) (new ! i)"
        using Cons.IH [OF R] by blast
      have "track_from env a ctx (length (mc_tracks ctx) + i) ((tok # toks) ! i) (ls ! i) ((tr # new) ! i)"
        if "i < length (tr # new)" for i
        using that tr(2) new(3) [of "i - 1"] track_from_cong [OF tr(3), of env a]
        by (cases i) (simp_all add: ls tr(1))
      with True new(1,2) tr(1) show ?thesis by (intro exI [of _ "tr # new"]) (auto simp: ls)
    qed
  qed
qed auto

text \<open>What \<^verbatim>\<open>ctx_init\<close> hands over.\<close>

lemma ctx_init_Go:
  assumes "ctx_init env a = Go ir"
  obtains fi ctx1 where "te_open_input env (the (in_path a)) = Some fi" and "ir_input ir = fi"
    and "\<not> (overwrite_subs a \<and> length (fi_programs fi) > 1)"
    and "mirror_streams env 0 (fi_streams fi)
      \<lparr>mc_tracks = [], mc_out = [], mc_preserve_pids = preserve_pids a,
       mc_max_input_pid = (if preserve_pids a then 31 else 0),
       mc_overwrite_subs = overwrite_subs a, mc_overwrite_langs = overwrite_langs a, mc_targets = [],
       mc_delay_vals = None, mc_mux_rate = 0, mc_service_name = None, mc_service_provider = None\<rparr> = Go ctx1"
    and "init_delays env (subtitle_delay_list a) = Go (mc_delay_vals (ir_ctx ir))"
    and "ir_ctx ir = ctx1\<lparr>mc_delay_vals := mc_delay_vals (ir_ctx ir), mc_mux_rate := detect_mux_rate fi,
      mc_service_name := service_tag fi ''service_name'', mc_service_provider := service_tag fi ''service_provider''\<rparr>"
  using assms by (auto simp: ctx_init_def Let_def rbind_eq_Go_iff split: option.splits)

lemma ctx_init_inv:
  assumes "ctx_init env a = Go ir"
  shows "ctx_inv (length (fi_streams (ir_input ir))) (ir_ctx ir)" and "mc_tracks (ir_ctx ir) = []"
    and "length (mc_out (ir_ctx ir)) = length (fi_streams (ir_input ir))"
    and "mc_overwrite_subs (ir_ctx ir) = overwrite_subs a"
proof -
  obtain fi ctx1 where fi: "ir_input ir = fi" and m: "mirror_streams env 0 (fi_streams fi)
      \<lparr>mc_tracks = [], mc_out = [], mc_preserve_pids = preserve_pids a,
       mc_max_input_pid = (if preserve_pids a then 31 else 0),
       mc_overwrite_subs = overwrite_subs a, mc_overwrite_langs = overwrite_langs a, mc_targets = [],
       mc_delay_vals = None, mc_mux_rate = 0, mc_service_name = None, mc_service_provider = None\<rparr> = Go ctx1"
    and c: "ir_ctx ir = ctx1\<lparr>mc_delay_vals := mc_delay_vals (ir_ctx ir), mc_mux_rate := detect_mux_rate fi,
      mc_service_name := service_tag fi ''service_name'', mc_service_provider := service_tag fi ''service_provider''\<rparr>"
    by (rule ctx_init_Go [OF assms])
  from mirror_streams_inv [OF m] have M: "targets_ok (length (fi_streams fi)) ctx1"
    "length (mc_out ctx1) = length (fi_streams fi)" "mc_tracks ctx1 = []" "mc_overwrite_subs ctx1 = overwrite_subs a"
    by (auto simp: targets_ok_def)
  have f: "mc_out (ir_ctx ir) = mc_out ctx1" "mc_tracks (ir_ctx ir) = mc_tracks ctx1"
    "mc_targets (ir_ctx ir) = mc_targets ctx1" "mc_overwrite_subs (ir_ctx ir) = mc_overwrite_subs ctx1"
    by (subst c, simp)+
  show "ctx_inv (length (fi_streams (ir_input ir))) (ir_ctx ir)" "mc_tracks (ir_ctx ir) = []"
    "length (mc_out (ir_ctx ir)) = length (fi_streams (ir_input ir))"
    "mc_overwrite_subs (ir_ctx ir) = overwrite_subs a"
    using M by (simp_all add: ctx_inv_def targets_ok_def f fi)
qed

lemma ctx_parse_tracks_inv:
  "ctx_init env a = Go ir \<Longrightarrow> ctx_parse_tracks env a ir ff hf q = Go (ctx, q') \<Longrightarrow>
   ctx_inv (length (fi_streams (ir_input ir))) ctx"
  unfolding ctx_parse_tracks_def by (blast intro: track_loop_inv ctx_init_inv(1))

text \<open>C9. The tracks are those of the two lists, taken together one by one and eight at most: track \<open>i\<close> has the
  file of place \<open>i\<close> and the language of place \<open>i\<close> with its spaces trimmed, which is a code of three letters; its
  delay is the one of place \<open>i\<close> of the list of delays, or the common delay where there is none; and its cues are
  those of its file, except that a file for libass that cannot be parsed gives an empty track.\<close>

theorem tracks_from_lists:
  assumes "ctx_init env a = Go ir" and "ctx_parse_tracks env a ir ff hf q = Go (ctx, q')"
  shows "length (mc_tracks ctx) =
      min 8 (min (length (tokens (CHR '','') (the (srt_list a)))) (length (tokens (CHR '','') (the (lang_list a))))) \<and>
    (\<forall>i<length (mc_tracks ctx).
      tk_filename (mc_tracks ctx ! i) = tokens (CHR '','') (the (srt_list a)) ! i \<and>
      tk_lang (mc_tracks ctx ! i) = trim_string_inplace (tokens (CHR '','') (the (lang_list a)) ! i) \<and>
      length (tk_lang (mc_tracks ctx ! i)) = 3 \<and>
      tr_delay (mc_tracks ctx ! i) = (case mc_delay_vals (ir_ctx ir) of
          Some vs \<Rightarrow> if i < length vs then vs ! i else subtitle_delay_ms a
        | None \<Rightarrow> subtitle_delay_ms a) \<and>
      ((\<exists>penv q0 q1. parse_srt_internal penv (te_file env (tk_filename (mc_tracks ctx ! i))) q0 =
           Inr (tr_entries (mc_tracks ctx ! i), q1)) \<or>
       tr_entries (mc_tracks ctx ! i) = [] \<and> tk_ass (mc_tracks ctx ! i) = Some []))"
  using track_loop_from [OF assms(2) [unfolded ctx_parse_tracks_def]]
  by (auto simp: ctx_init_inv(2) [OF assms(1)] track_from_def track_delay_def)

subsection \<open>PIDs kept from the input\<close>

text \<open>All streams but those of the new tracks have identifiers up to \<open>m\<close>; those of the new tracks go up from there.\<close>

definition pid_inv :: "int \<Rightarrow> nat \<Rightarrow> MainCtx \<Rightarrow> bool" where
  "pid_inv m nb ctx \<longleftrightarrow>
     mc_preserve_pids ctx \<and> 31 \<le> m \<and> m \<le> mc_max_input_pid ctx \<and> nb \<le> length (mc_out ctx) \<and>
     (\<forall>t\<in>set (mc_targets ctx). ow_pid t \<le> m \<and> ow_out_stream t < int nb \<and> 0 \<le> ow_out_stream t) \<and>
     (\<forall>s\<in>set (take nb (mc_out ctx)). os_id s \<le> m) \<and>
     (\<forall>s\<in>set (drop nb (mc_out ctx)). m < os_id s \<and> os_id s \<le> mc_max_input_pid ctx \<and> os_id s \<le> 8186) \<and>
     sorted_wrt (<) (map os_id (drop nb (mc_out ctx)))"

lemma mirror_streams_pids:
  "mirror_streams env i sts ctx = Go ctx' \<Longrightarrow> mc_preserve_pids ctx \<Longrightarrow> 31 \<le> mc_max_input_pid ctx \<Longrightarrow>
   \<forall>t\<in>set (mc_targets ctx). ow_pid t \<le> mc_max_input_pid ctx \<Longrightarrow>
   \<forall>s\<in>set (mc_out ctx). os_id s \<le> mc_max_input_pid ctx \<Longrightarrow>
   mc_preserve_pids ctx' \<and> 31 \<le> mc_max_input_pid ctx' \<and> mc_max_input_pid ctx \<le> mc_max_input_pid ctx' \<and>
   (\<forall>t\<in>set (mc_targets ctx'). ow_pid t \<le> mc_max_input_pid ctx') \<and>
   (\<forall>s\<in>set (mc_out ctx'). os_id s \<le> mc_max_input_pid ctx')"
proof (induction env i sts ctx rule: mirror_streams.induct)
  case (2 env i s sts ctx)
  let ?c = "mirror_stream i s ctx"
  have r: "mirror_streams env (i + 1) sts ?c = Go ctx'" and n: "\<not> (\<not> te_new_stream env i \<or> \<not> te_copy_params env i)"
    using 2(2) by (auto split: if_splits)
  obtain slot skip where sl: "overwrite_slot ctx i s = (slot, skip)" by (rule prod.exhaust)
  have slot: "ow_pid t = st_id s \<and> \<not> skip" if "slot = Some t" for t
    using sl that by (auto simp: overwrite_slot_def split: if_splits option.splits)
  have "mc_preserve_pids ?c" "31 \<le> mc_max_input_pid ?c" and le: "mc_max_input_pid ctx \<le> mc_max_input_pid ?c"
    using 2(3,4) by (auto simp: mirror_stream_def sl Let_def)
  moreover have "\<forall>t\<in>set (mc_targets ?c). ow_pid t \<le> mc_max_input_pid ?c"
    using 2(3-5) slot by (cases slot) (fastforce simp: mirror_stream_def sl Let_def)+
  moreover have "\<forall>s\<in>set (mc_out ?c). os_id s \<le> mc_max_input_pid ?c"
    using 2(3,4,6) by (fastforce simp: mirror_stream_def sl Let_def)
  ultimately show ?case using 2(1) [OF n r] le by auto
qed auto

lemma ctx_init_pids:
  assumes "ctx_init env a = Go ir" and "preserve_pids a"
  shows "pid_inv (mc_max_input_pid (ir_ctx ir)) (length (fi_streams (ir_input ir))) (ir_ctx ir)"
proof -
  obtain fi ctx1 where m: "mirror_streams env 0 (fi_streams fi)
      \<lparr>mc_tracks = [], mc_out = [], mc_preserve_pids = preserve_pids a,
       mc_max_input_pid = (if preserve_pids a then 31 else 0),
       mc_overwrite_subs = overwrite_subs a, mc_overwrite_langs = overwrite_langs a, mc_targets = [],
       mc_delay_vals = None, mc_mux_rate = 0, mc_service_name = None, mc_service_provider = None\<rparr> = Go ctx1"
    and c: "ir_ctx ir = ctx1\<lparr>mc_delay_vals := mc_delay_vals (ir_ctx ir), mc_mux_rate := detect_mux_rate fi,
      mc_service_name := service_tag fi ''service_name'', mc_service_provider := service_tag fi ''service_provider''\<rparr>"
    by (rule ctx_init_Go [OF assms(1)])
  note inv = ctx_init_inv [OF assms(1)]
  have f: "mc_out (ir_ctx ir) = mc_out ctx1" "mc_preserve_pids (ir_ctx ir) = mc_preserve_pids ctx1"
    "mc_targets (ir_ctx ir) = mc_targets ctx1" "mc_max_input_pid (ir_ctx ir) = mc_max_input_pid ctx1"
    by (subst c, simp)+
  from mirror_streams_pids [OF m] assms(2) inv(1,3) show ?thesis
    by (auto simp: pid_inv_def f ctx_inv_def targets_ok_def)
qed

lemma place_stream_pids:
  assumes "place_stream env a lang fo hi ctx = Go (ctx', k)" and "pid_list a = None" and "pid_inv m nb ctx"
  shows "pid_inv m nb ctx'"
proof (cases "find_overwrite_target (mc_overwrite_subs ctx) (mc_targets ctx) (Some lang)")
  case None
  let ?s = "(as_subtitle lang fo hi \<lparr>os_id = 0, os_type = Other_media, os_metadata = Map.empty\<rparr>)\<lparr>os_id := preserved_pid ctx\<rparr>"
  from assms None have c: "ctx' = ctx\<lparr>mc_out := mc_out ctx @ [?s], mc_max_input_pid := preserved_pid ctx\<rparr>"
    and p: "preserved_pid ctx \<le> 8186"
    by (auto simp: place_stream_def Let_def pid_inv_def split: if_splits)
  have "preserved_pid ctx = mc_max_input_pid ctx + 1" using assms(3) by (auto simp: preserved_pid_def pid_inv_def)
  with assms(3) p show ?thesis by (auto simp: pid_inv_def c sorted_wrt_append)
next
  case (Some j)
  note j = find_overwrite_target_nth [OF Some]
  let ?t = "mc_targets ctx ! j"
  let ?s = "as_subtitle lang fo hi (mc_out ctx ! k)"
  from assms(1) Some have k: "k = nat (ow_out_stream ?t)"
    and c: "ctx' = ctx\<lparr>mc_targets := (mc_targets ctx)[j := ?t\<lparr>ow_used := True\<rparr>],
      mc_out := (mc_out ctx)[k := if ow_pid ?t > 0 then ?s\<lparr>os_id := ow_pid ?t\<rparr> else ?s]\<rparr>"
    by (auto simp: place_stream_def Let_def)
  have t: "?t \<in> set (mc_targets ctx)" using j by simp
  with assms(3) have kn: "k < nb" "k < length (mc_out ctx)" "ow_pid ?t \<le> m" by (auto simp: pid_inv_def k)
  then have "mc_out ctx ! k \<in> set (take nb (mc_out ctx))" by (auto simp: in_set_conv_nth intro!: exI [of _ k])
  with assms(3) have "os_id ?s \<le> m" by (auto simp: pid_inv_def as_subtitle_def Let_def)
  with assms(3) t kn have o: "\<forall>s\<in>set (take nb (mc_out ctx')). os_id s \<le> m"
    by (auto simp: c take_update_swap pid_inv_def dest!: set_update_subset_insert [THEN subsetD])
  have "\<forall>u\<in>set (mc_targets ctx'). ow_pid u \<le> m \<and> ow_out_stream u < int nb \<and> 0 \<le> ow_out_stream u"
    using assms(3) t by (auto simp: c pid_inv_def dest!: set_update_subset_insert [THEN subsetD])
  with o assms(3) kn(1) show ?thesis by (simp add: pid_inv_def c)
qed

lemma add_track_placed:
  "add_track env a w h ff hf tok l (ctx, q) = Go (ctx'', q'') \<Longrightarrow>
   \<exists>c' k trs. place_stream env a (trim_string_inplace l) (flag_of ff (length (mc_tracks ctx)))
     (flag_of hf (length (mc_tracks ctx))) ctx = Go (c', k) \<and> ctx'' = c'\<lparr>mc_tracks := trs\<rparr>"
  by (erule add_track_Go) blast

lemma pid_inv_tracks [simp]: "pid_inv m nb (c\<lparr>mc_tracks := trs\<rparr>) = pid_inv m nb c"
  by (simp add: pid_inv_def)

lemma track_loop_pids:
  "track_loop env a w h ff hf toks ls (ctx, q) = Go (ctx', q') \<Longrightarrow> pid_list a = None \<Longrightarrow> pid_inv m nb ctx \<Longrightarrow>
   pid_inv m nb ctx'"
proof (induction toks arbitrary: ls ctx q)
  case (Cons tok toks)
  show ?case
  proof (cases ls)
    case ls: (Cons l ls')
    show ?thesis
    proof (cases "length (mc_tracks ctx) < 8")
      case True
      with ls Cons.prems(1) obtain c1 q1 where A: "add_track env a w h ff hf tok l (ctx, q) = Go (c1, q1)"
        and R: "track_loop env a w h ff hf toks ls' (c1, q1) = Go (ctx', q')"
        by (auto simp: rbind_eq_Go_iff)
      have "pid_inv m nb c1"
        using add_track_placed [OF A] place_stream_pids [OF _ Cons.prems(2,3)] by (metis pid_inv_tracks)
      with Cons.IH [OF R Cons.prems(2)] show ?thesis .
    qed (use ls Cons.prems in auto)
  qed (use Cons.prems in auto)
qed auto

text \<open>C10. With \<^verbatim>\<open>--preserve-pids\<close> and no list of PIDs, the PIDs of the new streams go up, are all different from
  each other and above those that were taken over from the input, and stay in the range that the muxer
  accepts: where there is no room left the program ends instead.\<close>

theorem preserved_pids_apart:
  assumes "ctx_init env a = Go ir" and "ctx_parse_tracks env a ir ff hf q = Go (ctx, q')"
    and "preserve_pids a" and "pid_list a = None"
    and "length (fi_streams (ir_input ir)) \<le> j" and "j < length (mc_out ctx)" and "i < j"
  shows "os_id (mc_out ctx ! i) < os_id (mc_out ctx ! j) \<and> 32 \<le> os_id (mc_out ctx ! j) \<and> os_id (mc_out ctx ! j) \<le> 8186"
proof -
  let ?nb = "length (fi_streams (ir_input ir))" and ?m = "mc_max_input_pid (ir_ctx ir)"
  have P: "pid_inv ?m ?nb ctx"
    by (rule track_loop_pids [OF assms(2) [unfolded ctx_parse_tracks_def] assms(4)]) (rule ctx_init_pids [OF assms(1,3)])
  have "mc_out ctx ! j = drop ?nb (mc_out ctx) ! (j - ?nb)" using assms(5,6) by simp
  then have "mc_out ctx ! j \<in> set (drop ?nb (mc_out ctx))" using assms(5,6) by (metis diff_less_mono length_drop nth_mem)
  with P have b: "?m < os_id (mc_out ctx ! j)" "os_id (mc_out ctx ! j) \<le> 8186" "31 \<le> ?m" by (auto simp: pid_inv_def)
  moreover have "os_id (mc_out ctx ! i) < os_id (mc_out ctx ! j)"
  proof (cases "i < ?nb")
    case True
    then have "mc_out ctx ! i \<in> set (take ?nb (mc_out ctx))"
      using assms(6,7) by (auto simp: in_set_conv_nth intro!: exI [of _ i])
    with P b show ?thesis by (fastforce simp: pid_inv_def)
  next
    case False
    with P assms(6,7) sorted_wrt_nth_less [of "(<)" "map os_id (drop ?nb (mc_out ctx))" "i - ?nb" "j - ?nb"]
    show ?thesis by (simp add: pid_inv_def diff_less_mono)
  qed
  ultimately show ?thesis by simp
qed

subsection \<open>An example\<close>

definition sample_input :: av_input where
  "sample_input =
     \<lparr>fi_streams =
        [\<lparr>st_type = Video_media, st_id = 256, st_width = 1920, st_height = 1080, st_metadata = Map.empty,
          st_start = Some 0, st_time_base = tb_90k\<rparr>,
         \<lparr>st_type = Audio_media, st_id = 300, st_width = 0, st_height = 0,
          st_metadata = [''language'' \<mapsto> ''eng''], st_start = None, st_time_base = tb_90k\<rparr>],
      fi_programs = [Some [''service_name'' \<mapsto> ''One'']], fi_start_time = None, fi_bit_rate = 0,
      fi_metadata = [''muxrate'' \<mapsto> ''4000000'']\<rparr>"

definition sample_tenv :: track_env where
  "sample_tenv =
     \<lparr>te_alloc = \<lambda>_. True, te_open_input = \<lambda>p. if p = ''in.ts'' then Some sample_input else None,
      te_alloc_output = True, te_new_stream = \<lambda>_. True, te_copy_params = \<lambda>_. True, te_encoder = True,
      te_rescale = \<lambda>t _ _. t, te_file = \<lambda>_. Some sample_cue, te_codec = \<lambda>_. True, te_ass_ready = True,
      te_ass_track = \<lambda>_. True, te_nproc = 4\<rparr>"

definition sample_cargs :: cli_args where
  "sample_cargs =
     (cli_start default_opts)\<lparr>in_path := Some ''in.ts'', out_path := Some ''out.ts'', srt_list := Some ''a.srt,b.srt'',
       lang_list := Some ''eng, deu'', subtitle_delay_ms := 40\<rparr>"

definition sample_q :: qc_state where "sample_q = \<lparr>qc_lines = [], qc_error_count = 0\<rparr>"

fun ran :: "'a run \<Rightarrow> bool" where
  "ran (Go x) = True"
| "ran r = False"

lemma ran_Go: "ran r \<longleftrightarrow> (\<exists>x. r = Go x)"
  by (cases r) simp_all

definition sample_tracks :: "(MainCtx \<times> qc_state) run" where
  "sample_tracks =
     rbind (ctx_init sample_tenv sample_cargs) (\<lambda>ir. ctx_parse_tracks sample_tenv sample_cargs ir [] [] sample_q)"

lemma sample_tracks_ran: "ran (rbind sample_tracks (\<lambda>c. check (length (mc_out (fst c)) = 4) 0))"
  by code_simp

lemma sample_tracks_Go:
  obtains ir ctx q' where "ctx_init sample_tenv sample_cargs = Go ir"
    and "ctx_parse_tracks sample_tenv sample_cargs ir [] [] sample_q = Go (ctx, q')"
    and "sample_tracks = Go (ctx, q')" and "length (mc_out ctx) = 4"
  using sample_tracks_ran by (auto simp: ran_Go sample_tracks_def rbind_eq_Go_iff)

theorem tracks_from_lists_witness:
  "\<exists>ctx q'. sample_tracks = Go (ctx, q') \<and> length (mc_tracks ctx) = 2 \<and> tk_lang (mc_tracks ctx ! 1) = ''deu'' \<and>
     tr_delay (mc_tracks ctx ! 1) = 40"
proof -
  obtain ir ctx q' where r: "ctx_init sample_tenv sample_cargs = Go ir"
    "ctx_parse_tracks sample_tenv sample_cargs ir [] [] sample_q = Go (ctx, q')" "sample_tracks = Go (ctx, q')"
    and o: "length (mc_out ctx) = 4" by (rule sample_tracks_Go)
  have t: "tokens (CHR '','') (the (srt_list sample_cargs)) = [''a.srt'', ''b.srt'']"
    "tokens (CHR '','') (the (lang_list sample_cargs)) = [''eng'', '' deu'']" "trim_string_inplace '' deu'' = ''deu''"
    by code_simp+
  have d: "subtitle_delay_list sample_cargs = None" "subtitle_delay_ms sample_cargs = 40" by code_simp+
  from r(1) have delay: "mc_delay_vals (ir_ctx ir) = None" by (rule ctx_init_Go) (simp add: d init_delays_def)
  have l: "length (mc_tracks ctx) = 2" using tracks_from_lists [OF r(1,2)] by (simp add: t)
  then have "tk_lang (mc_tracks ctx ! 1) = ''deu'' \<and> tr_delay (mc_tracks ctx ! 1) = 40"
    using conjunct2 [OF tracks_from_lists [OF r(1,2)], THEN spec, of 1] t(2,3) by (simp add: delay d)
  with r(3) l show ?thesis by blast
qed

theorem preserved_pids_apart_witness:
  "\<exists>ctx q'. sample_tracks = Go (ctx, q') \<and> os_id (mc_out ctx ! 2) < os_id (mc_out ctx ! 3) \<and>
     os_id (mc_out ctx ! 3) \<le> 8186"
proof -
  obtain ir ctx q' where r: "ctx_init sample_tenv sample_cargs = Go ir"
    "ctx_parse_tracks sample_tenv sample_cargs ir [] [] sample_q = Go (ctx, q')" "sample_tracks = Go (ctx, q')"
    and o: "length (mc_out ctx) = 4" by (rule sample_tracks_Go)
  have p: "preserve_pids sample_cargs" "pid_list sample_cargs = None" by code_simp+
  from r(1) have "ir_input ir = sample_input"
    by (rule ctx_init_Go) (simp add: sample_tenv_def sample_cargs_def)
  then have n: "length (fi_streams (ir_input ir)) = 2" by (simp add: sample_input_def)
  from preserved_pids_apart [OF r(1,2) p, of 3 2] n o
  have "os_id (mc_out ctx ! 2) < os_id (mc_out ctx ! 3) \<and> os_id (mc_out ctx ! 3) \<le> 8186" by simp
  with r(3) show ?thesis by blast
qed

end
