(* ===== verification/Qc_run.thy ===== *)
theory Qc_run
  imports Srt_stats Tracks
begin

text \<open>
  The quick check without media output: \<^verbatim>\<open>ctx_run_qc_only\<close> of \<^verbatim>\<open>srt2dvbsub.c\<close> parses every file of the
  list, counts its cues and errors and writes a summary into the log, with the reports on statistics,
  gaps and times of \<^verbatim>\<open>srt_parser.c\<close> as values. The lemmas say that the errors of the summary are the
  error lines of the log and the files that cannot be read, and what the gap report measures.
\<close>

subsection \<open>Reports on the cues of a file\<close>

definition srt_report_stats :: "SRTParserStats \<Rightarrow> (cstr \<times> int) list" where
  "srt_report_stats st =
     (if total_cues st = 0 then []
      else
        [(''Total cues encountered'', total_cues st), (''Valid cues stored'', valid_cues st),
         (''Skipped/malformed cues'', skipped_cues st), (''Duplicate IDs fixed'', duplicate_ids_fixed st),
         (''Non-sequential sequences'', sequences_fixed st), (''Overlaps corrected'', overlaps_corrected st),
         (''Encoding errors fixed'', encoding_errors_fixed st), (''Encoding warnings'', encoding_warnings st),
         (''Timing warnings'', timing_warnings st), (''Validation warnings'', validation_warnings st)] @
        (if valid_cues st > 0 then
           [(''Min duration'', min_duration st), (''Max duration'', max_duration st),
            (''Avg duration'', avg_duration st), (''Min gap between cues'', SRTParserStats.min_gap st),
            (''Max gap between cues'', SRTParserStats.max_gap st)]
         else []))"

record gap_report =
  gr_large :: "(nat \<times> int) list"
  gr_large_gaps :: nat
  gr_small_gaps :: nat
  gr_total :: int
  gr_min :: int
  gr_max :: int
  gr_avg :: int

definition count_gap :: "nat \<Rightarrow> SRTEntry \<Rightarrow> SRTEntry \<Rightarrow> gap_report \<Rightarrow> gap_report" where
  "count_gap i p e r =
     (let gap = start_ms e - end_ms p;
          r1 = r\<lparr>gr_total := gr_total r + gap, gr_min := (if gap < gr_min r then gap else gr_min r),
                 gr_max := (if gap > gr_max r then gap else gr_max r)\<rparr>;
          r2 = (if gap > 5000 then r1\<lparr>gr_large_gaps := gr_large_gaps r1 + 1, gr_large := gr_large r1 @ [(i, gap)]\<rparr>
                else r1)
      in if gap > 0 \<and> gap < 100 then r2\<lparr>gr_small_gaps := gr_small_gaps r2 + 1\<rparr> else r2)"

fun gap_loop :: "nat \<Rightarrow> SRTEntry list \<Rightarrow> gap_report \<Rightarrow> gap_report" where
  "gap_loop i (p # e # es) r = gap_loop (i + 1) (e # es) (count_gap i p e r)"
| "gap_loop i _ r = r"

definition srt_analyze_gaps :: "SRTEntry list \<Rightarrow> gap_report option" where
  "srt_analyze_gaps es =
     (if length es < 2 then None
      else
        let r = gap_loop 1 es
                  \<lparr>gr_large = [], gr_large_gaps = 0, gr_small_gaps = 0, gr_total = 0, gr_min = INT64_MAX,
                   gr_max = 0, gr_avg = 0\<rparr>
        in Some (r\<lparr>gr_avg := to_int32 (cdiv (gr_total r) (int (length es) - 1))\<rparr>))"

text \<open>A row: the number of the cue, its times, its duration and the gap to the next cue.\<close>

definition timing_row :: "SRTEntry list \<Rightarrow> nat \<Rightarrow> nat \<times> int \<times> int \<times> int \<times> int" where
  "timing_row es i =
     (i + 1, start_ms (es ! i), end_ms (es ! i), end_ms (es ! i) - start_ms (es ! i),
      if i + 1 < length es then start_ms (es ! (i + 1)) - end_ms (es ! i) else 0)"

text \<open>The rows and the number of cues that are left out.\<close>

definition srt_print_timing_summary ::
    "SRTEntry list \<Rightarrow> int \<Rightarrow> (nat \<times> int \<times> int \<times> int \<times> int) list \<times> nat" where
  "srt_print_timing_summary es max_rows0 =
     (if es = [] then ([], 0)
      else
        let max_rows1 = (if max_rows0 \<le> 0 then 10 else max_rows0);
            max_rows = (if max_rows1 > int (length es) then int (length es) else max_rows1)
        in (map (timing_row es) [0..<nat max_rows], length es - nat max_rows))"

subsection \<open>The quick check\<close>

record qc_summary =
  qs_filename :: cstr
  qs_cues :: int
  qs_errors :: int

record qc_report =
  qr_summaries :: "qc_summary list"
  qr_total_cues :: int
  qr_total_errors :: int
  qr_diagnostics :: "((cstr \<times> int) list \<times> gap_report option \<times> ((nat \<times> int \<times> int \<times> int \<times> int) list \<times> nat)) list"

text \<open>The two arrays of names, which grow by one element at a time. A missing language is empty.\<close>

fun collect_files :: "(nat \<Rightarrow> bool) \<Rightarrow> nat \<Rightarrow> cstr list \<Rightarrow> cstr list \<Rightarrow> (cstr \<times> cstr) list option" where
  "collect_files alloc n [] qs = Some []"
| "collect_files alloc n (p # ps) qs =
     (let lang = (case qs of [] \<Rightarrow> [] | q # _ \<Rightarrow> q)
      in if alloc (8 * (n + 1)) \<and> alloc (length p + 1) \<and> alloc (length lang + 1)
         then map_option ((#) (p, lang)) (collect_files alloc (n + 1) ps (drop 1 qs))
         else None)"

definition qc_cfg :: SRTParserConfig where
  "qc_cfg =
     \<lparr>cfg_use_ass = False, cfg_video_w = 1920, cfg_video_h = 1080,
      cfg_validation_level = SRT_VALIDATE_AUTO_FIX, cfg_max_line_length = 200, cfg_max_line_count = 5,
      cfg_auto_fix_duplicates = True, cfg_auto_fix_encoding = True, cfg_warn_on_short_duration = True,
      cfg_warn_on_long_duration = True\<rparr>"

definition qc_penv :: "track_env \<Rightarrow> cli_args \<Rightarrow> cstr \<Rightarrow> parse_env" where
  "qc_penv env a fname =
     \<lparr>pe_alloc = te_alloc env, pe_filename = fname, pe_qc = True, pe_use_ass = use_ass a,
      pe_video_w = video_w a, pe_video_h = video_h a, pe_global_w = video_w a, pe_global_h = video_h a\<rparr>"

text \<open>One file. A file that cannot be opened has no cue and one error. A parse that runs out of memory on the
  way is not followed any further.\<close>

definition qc_file :: "track_env \<Rightarrow> cli_args \<Rightarrow> cstr \<Rightarrow> qc_report \<times> qc_state \<Rightarrow> (qc_report \<times> qc_state) cres" where
  "qc_file env a fname s =
     (case s of (rep, q0) \<Rightarrow>
        let q1 = qc_reset_counts q0
        in case parse_srt_with_stats (qc_penv env a fname) (Some qc_cfg) True (te_file env fname) q1 of
             Inl (Parse_fault e) \<Rightarrow> Inl e
           | Inl Cannot_open \<Rightarrow>
               Inr (rep\<lparr>qr_summaries := qr_summaries rep @
                          [\<lparr>qs_filename = fname, qs_cues = 0, qs_errors = qc_error_count q1 + 1\<rparr>],
                        qr_total_errors := qr_total_errors rep + (qc_error_count q1 + 1),
                        qr_diagnostics := qr_diagnostics rep @ [(srt_report_stats initial_stats, None, ([], 0))]\<rparr>, q1)
           | Inr (es, st, q2) \<Rightarrow>
               Inr (rep\<lparr>qr_summaries := qr_summaries rep @
                          [\<lparr>qs_filename = fname, qs_cues = int (length es), qs_errors = qc_error_count q2\<rparr>],
                        qr_total_cues := qr_total_cues rep + int (length es),
                        qr_total_errors := qr_total_errors rep + qc_error_count q2,
                        qr_diagnostics := qr_diagnostics rep @
                          [(srt_report_stats (the st),
                            if es = [] then None else srt_analyze_gaps es,
                            srt_print_timing_summary es 10)]\<rparr>, q2))"

fun qc_files :: "track_env \<Rightarrow> cli_args \<Rightarrow> cstr list \<Rightarrow> qc_report \<times> qc_state \<Rightarrow> (qc_report \<times> qc_state) cres" where
  "qc_files env a [] s = Inr s"
| "qc_files env a (f # fs) s = sbind (qc_file env a f s) (qc_files env a fs)"

definition SIZEOF_SUMMARY :: nat where "SIZEOF_SUMMARY = 16"

text \<open>\<open>have_log\<close> says whether \<^verbatim>\<open>qc_log.txt\<close> can be opened.\<close>

definition ctx_run_qc_only :: "track_env \<Rightarrow> cli_args \<Rightarrow> bool \<Rightarrow> cstr \<Rightarrow> cstr \<Rightarrow> qc_state \<Rightarrow>
    (qc_report \<times> qc_state) run" where
  "ctx_run_qc_only env a have_log srts langs q =
     rbind (check have_log 1) (\<lambda>_.
     rbind (check (te_alloc env (length srts + 1) \<and> te_alloc env (length langs + 1)) 1) (\<lambda>_.
     (case collect_files (te_alloc env) 0 (tokens (CHR '','') srts) (tokens (CHR '','') langs) of
        None \<Rightarrow> Exit 1
      | Some fs \<Rightarrow>
          rbind (check (te_alloc env (length fs * SIZEOF_SUMMARY)) 1) (\<lambda>_.
          of_cres (qc_files env a (map fst fs)
            (\<lparr>qr_summaries = [], qr_total_cues = 0, qr_total_errors = 0, qr_diagnostics = []\<rparr>, q))))))"

text \<open>The summary at the end of the log; the names are padded to the longest.\<close>

definition pad_right :: "nat \<Rightarrow> cstr \<Rightarrow> cstr" where
  "pad_right w s = s @ replicate (w - length s) SP"

definition summary_line :: "nat \<Rightarrow> nat \<Rightarrow> qc_summary \<Rightarrow> cstr" where
  "summary_line w i s =
     ''Track '' @ dec i @ '': '' @ pad_right w (qs_filename s) @ '' cues='' @ show_int (qs_cues s) @
     '' errors='' @ show_int (qs_errors s) @ [LF]"

definition qc_log_summary :: "qc_report \<Rightarrow> cstr" where
  "qc_log_summary rep =
     (let w = foldl max 0 (map (\<lambda>s. length (qs_filename s)) (qr_summaries rep))
      in ''SRT Quick-Check Summary:'' @ [LF] @
         concat (map2 (summary_line w) [0..<length (qr_summaries rep)] (qr_summaries rep)) @
         ''TOTAL: cues='' @ show_int (qr_total_cues rep) @ '' errors='' @ show_int (qr_total_errors rep) @ [LF])"

subsection \<open>Gaps\<close>

fun gaps :: "SRTEntry list \<Rightarrow> int list" where
  "gaps (p # e # es) = (start_ms e - end_ms p) # gaps (e # es)"
| "gaps _ = []"

lemma length_gaps [simp]: "length (gaps es) = length es - 1"
  by (induction es rule: gaps.induct) simp_all

lemma count_gap_fields [simp]:
  "gr_total (count_gap i p e r) = gr_total r + (start_ms e - end_ms p)"
  "gr_min (count_gap i p e r) = min (gr_min r) (start_ms e - end_ms p)"
  "gr_max (count_gap i p e r) = max (gr_max r) (start_ms e - end_ms p)"
  "gr_large_gaps (count_gap i p e r) = gr_large_gaps r + (if start_ms e - end_ms p > 5000 then 1 else 0)"
  "gr_large (count_gap i p e r) =
     gr_large r @ (if start_ms e - end_ms p > 5000 then [(i, start_ms e - end_ms p)] else [])"
  by (simp_all add: count_gap_def Let_def)

lemma gap_loop_fields:
  "gr_total (gap_loop i es r) = gr_total r + sum_list (gaps es) \<and>
   gr_min (gap_loop i es r) = foldl min (gr_min r) (gaps es) \<and>
   gr_max (gap_loop i es r) = foldl max (gr_max r) (gaps es) \<and>
   gr_large_gaps (gap_loop i es r) = gr_large_gaps r + length (filter (\<lambda>g. g > 5000) (gaps es)) \<and>
   gr_large (gap_loop i es r) = gr_large r @ filter (\<lambda>(_, g). g > 5000) (zip [i..<i + length (gaps es)] (gaps es))"
proof (induction i es r rule: gap_loop.induct)
  case (1 i p e es r)
  have "[i..<i + length (gaps (p # e # es))] = i # [i + 1..<i + 1 + length (gaps (e # es))]"
    by (simp add: upt_conv_Cons del: upt_Suc)
  with 1 show ?case by simp
qed simp_all

lemma foldl_min_bounds:
  fixes xs :: "int list"
  shows "foldl min m xs \<le> m \<and> (\<forall>x\<in>set xs. foldl min m xs \<le> x) \<and> (foldl min m xs = m \<or> foldl min m xs \<in> set xs)"
proof (induction xs arbitrary: m)
  case (Cons x xs)
  from Cons [of "min m x"] show ?case by (auto simp: min_def split: if_splits)
qed simp

lemma foldl_max_bounds:
  fixes xs :: "int list"
  shows "m \<le> foldl max m xs \<and> (\<forall>x\<in>set xs. x \<le> foldl max m xs) \<and> (foldl max m xs = m \<or> foldl max m xs \<in> set xs)"
proof (induction xs arbitrary: m)
  case (Cons x xs)
  from Cons [of "max m x"] show ?case by (auto simp: max_def split: if_splits)
qed simp

lemma gaps_telescope:
  "es \<noteq> [] \<Longrightarrow>
   sum_list (gaps es) + sum_list (map (\<lambda>e. end_ms e - start_ms e) es) = end_ms (last es) - start_ms (hd es)"
  by (induction es rule: gaps.induct) simp_all

lemma gaps_nonneg: "cue_chain es \<Longrightarrow> \<forall>g\<in>set (gaps es). 0 \<le> g"
  by (induction es rule: cue_chain.induct) auto

lemma analyze_gaps_fields:
  assumes "2 \<le> length es"
  obtains r where "srt_analyze_gaps es = Some r" "gr_total r = sum_list (gaps es)"
    "gr_min r = foldl min INT64_MAX (gaps es)" "gr_max r = foldl max 0 (gaps es)"
    "gr_avg r = to_int32 (cdiv (sum_list (gaps es)) (int (length es) - 1))"
    "gr_large r = filter (\<lambda>(_, g). g > 5000) (zip [1..<length es] (gaps es))"
proof -
  let ?r0 = "\<lparr>gr_large = [], gr_large_gaps = 0, gr_small_gaps = 0, gr_total = 0, gr_min = INT64_MAX,
    gr_max = 0, gr_avg = 0\<rparr>"
  have "1 + length (gaps es) = length es" using assms by simp
  note G = gap_loop_fields [of 1 es ?r0, unfolded this]
  from assms G show thesis
    by (intro that [of "(gap_loop 1 es ?r0)\<lparr>gr_avg := to_int32 (cdiv (gr_total (gap_loop 1 es ?r0)) (int (length es) - 1))\<rparr>"])
      (simp_all add: srt_analyze_gaps_def)
qed

lemma gap_report_values:
  assumes "cue_chain es" and "2 \<le> length es" and "0 \<le> start_ms (hd es)" and "end_ms (last es) \<le> 2147483647"
  shows "\<exists>r. srt_analyze_gaps es = Some r \<and>
    gr_total r + sum_list (map (\<lambda>e. end_ms e - start_ms e) es) = end_ms (last es) - start_ms (hd es) \<and>
    gr_min r \<in> set (gaps es) \<and> gr_max r \<in> set (gaps es) \<and> (\<forall>g\<in>set (gaps es). gr_min r \<le> g \<and> g \<le> gr_max r) \<and>
    gr_min r \<le> gr_avg r \<and> gr_avg r \<le> gr_max r \<and>
    gr_large r = filter (\<lambda>(_, g). g > 5000) (zip [1..<length es] (gaps es))"
proof -
  from analyze_gaps_fields [OF assms(2)] obtain r where r: "srt_analyze_gaps es = Some r"
    "gr_total r = sum_list (gaps es)" "gr_min r = foldl min INT64_MAX (gaps es)" "gr_max r = foldl max 0 (gaps es)"
    "gr_avg r = to_int32 (cdiv (sum_list (gaps es)) (int (length es) - 1))"
    "gr_large r = filter (\<lambda>(_, g). g > 5000) (zip [1..<length es] (gaps es))" by metis
  have ne: "es \<noteq> []" "gaps es \<noteq> []" using assms(2) by (auto simp flip: length_greater_0_conv)
  then obtain g0 where g0: "g0 \<in> set (gaps es)" by (cases "gaps es") auto
  note pos = gaps_nonneg [OF assms(1)]
  have dur: "0 \<le> sum_list (map (\<lambda>e. end_ms e - start_ms e) es)"
    using cue_chain_ordered [OF assms(1)] by (intro sum_list_nonneg) auto
  note tel = gaps_telescope [OF ne(1)]
  have tot: "sum_list (gaps es) \<le> 2147483647" using tel dur assms(3,4) by linarith
  have small: "g \<le> 2147483647" if "g \<in> set (gaps es)" for g
    using member_le_sum_list [of g "gaps es"] pos that tot by auto
  have mx: "\<forall>g\<in>set (gaps es). g \<le> gr_max r" "gr_max r = 0 \<or> gr_max r \<in> set (gaps es)"
    using foldl_max_bounds [of 0 "gaps es"] unfolding r(4) by simp_all
  have "g0 = 0" if "gr_max r = 0" using mx(1) pos g0 that by (intro antisym) auto
  with mx(2) g0 have mx2: "gr_max r \<in> set (gaps es)" by auto
  have mn: "gr_min r \<in> set (gaps es)" "\<forall>g\<in>set (gaps es). gr_min r \<le> g"
    using foldl_min_bounds [of INT64_MAX "gaps es"] small [OF g0] g0 unfolding r(3)
    by (auto simp: INT64_MAX_def)
  let ?n = "int (length es) - 1"
  have n: "0 < ?n" "int (length (gaps es)) = ?n" using assms(2) by auto
  have "?n * gr_min r \<le> sum_list (gaps es) \<and> sum_list (gaps es) \<le> ?n * gr_max r"
    using sum_between [of "gaps es" "gr_min r" "gr_max r"] mn(2) mx(1) by (simp only: n(2)) blast
  moreover have "0 \<le> sum_list (gaps es)" using pos by (intro sum_list_nonneg) auto
  ultimately have avg: "gr_min r \<le> cdiv (sum_list (gaps es)) ?n \<and> cdiv (sum_list (gaps es)) ?n \<le> gr_max r"
    using cdiv_between [OF n(1)] by blast
  moreover have "0 \<le> gr_min r" "gr_max r \<le> 2147483647" using pos small mn mx2 by auto
  ultimately have "gr_avg r = cdiv (sum_list (gaps es)) ?n" unfolding r(5)
    by (intro to_int32_id) (auto simp: INT_MIN_def INT_MAX_def)
  with avg have "gr_min r \<le> gr_avg r \<and> gr_avg r \<le> gr_max r" by simp
  with r mn mx(1) mx2 tel show ?thesis by (intro exI [of _ r]) simp
qed

text \<open>A file with a single cue has no gap, and the statistics still print one: the initial value.\<close>

lemma single_cue_gap_printed:
  assumes "valid_cues st = 1" and "total_cues st = 1" and "SRTParserStats.min_gap st = INT64_MAX"
  shows "(''Min gap between cues'', 9223372036854775807) \<in> set (srt_report_stats st)"
  using assms by (simp add: srt_report_stats_def INT64_MAX_def)

subsection \<open>The log\<close>

text \<open>A state of the log after another one: lines about \<open>fname\<close> have been added, and the error lines among
  them counted.\<close>

definition error_lines :: "qc_line list \<Rightarrow> int" where
  "error_lines ls = int (length (filter (\<lambda>l. ql_level l = QC_ERROR) ls))"

definition logged :: "cstr \<Rightarrow> qc_state \<Rightarrow> qc_state \<Rightarrow> bool" where
  "logged fname q q' \<longleftrightarrow>
     (\<exists>ls. qc_lines q' = qc_lines q @ ls \<and> qc_error_count q' = qc_error_count q + error_lines ls \<and>
        (\<forall>l\<in>set ls. ql_to_file l \<and> ql_filename l = fname))"

lemma error_lines_simps [simp]:
  "error_lines [] = 0" "error_lines (ls @ ls') = error_lines ls + error_lines ls'"
  by (simp_all add: error_lines_def)

lemma logged_refl [simp, intro]: "logged fname q q"
  by (auto simp: logged_def)

lemma logged_trans [trans]: "logged fname a b \<Longrightarrow> logged fname b c \<Longrightarrow> logged fname a c"
  unfolding logged_def by (elim exE conjE, rule_tac x = "ls @ lsa" in exI) auto

lemma log_if_logged [intro]: "logged fname q q' \<Longrightarrow> logged fname q (log_if b True level fname i msg q')"
proof (rule logged_trans)
  let ?l = "\<lparr>ql_to_file = True, ql_filename = fname, ql_cue = i, ql_level = level, ql_msg = msg\<rparr>"
  show "logged fname q' (log_if b True level fname i msg q')"
    unfolding logged_def log_if_def log_qc_def
    by (intro exI [of _ "if b then [?l] else []"]) (simp add: error_lines_def)
qed

lemma qc_check_entry_logged:
  assumes "qc_check_entry vw vh True fname i cur prev q = Inr q'"
  shows "logged fname q q'"
  using assms unfolding qc_check_entry_def Let_def
  by (auto simp: sbind_eq_Inr_iff intro!: log_if_logged)

lemma store_cue_stats_logged:
  assumes "store_cue_stats env cfg tb a b ss = Inr ss'" and "pe_qc env"
  shows "logged (pe_filename env) (ps_qc (ss_parse ss)) (ps_qc (ss_parse ss'))"
proof -
  from assms(1) obtain ps where g: "grow_entries (pe_alloc env) (ss_parse ss) = Inr ps"
    by (auto simp: store_cue_stats_def sbind_eq_Inr_iff)
  have q: "ps_qc ps = ps_qc (ss_parse ss)"
    using g by (auto simp: grow_entries_def Let_def split: if_splits)
  have "ps_qc (ss_parse ss') = ps_qc ps \<or>
    (\<exists>n e p. qc_check_entry (pe_global_w env) (pe_global_h env) True (pe_filename env) n e p (ps_qc ps) =
       Inr (ps_qc (ss_parse ss')))"
    using assms unfolding store_cue_stats_def g sbind_Inr Let_def
    by (auto simp: sbind_eq_Inr_iff split: prod.splits sum.splits cfault.splits option.splits if_splits)
  then show ?thesis unfolding q by (auto dest: qc_check_entry_logged)
qed

lemma cue_body_logged:
  assumes "cue_body env cfg tline f2 ss = Inr (f3, ss')" and "pe_qc env"
  shows "logged (pe_filename env) (ps_qc (ss_parse ss)) (ps_qc (ss_parse ss'))"
  using assms(1) unfolding cue_body_def Let_def
  by (auto simp: sbind_eq_Inr_iff split: prod.splits option.splits if_splits
      dest!: store_cue_stats_logged [OF _ assms(2)])

lemma stats_loop_logged:
  "stats_loop env cfg f ss = Inr ss' \<Longrightarrow> pe_qc env \<Longrightarrow>
   logged (pe_filename env) (ps_qc (ss_parse ss)) (ps_qc (ss_parse ss'))"
proof (induction f arbitrary: ss rule: measure_induct_rule [where f = length])
  case (less f)
  show ?case
  proof (cases "get_line f")
    case None
    with less.prems show ?thesis by (simp add: stats_loop.simps [of env cfg f])
  next
    case (Some p)
    then obtain line f1 where l: "get_line f = Some (line, f1)" by (cases p) auto
    note l1 = get_line_shorter [OF l]
    let ?ss1 = "index_line cfg (strip_bom line) ss"
    have q1: "ss_parse ?ss1 = ss_parse ss" by (simp add: index_line_keeps)
    show ?thesis
    proof (cases "line = [] \<or> time_line (strip_bom line) f1 = None")
      case True
      with l less.prems less.IH [OF l1] q1 show ?thesis
        by (auto simp: stats_loop.simps [of env cfg f] Let_def split: if_splits)
    next
      case False
      then obtain tl f2 where t: "line \<noteq> []" "time_line (strip_bom line) f1 = Some (tl, f2)" by auto
      with l less.prems(1) obtain f3 ss2 where b: "cue_body env cfg tl f2 ?ss1 = Inr (f3, ss2)"
        and r: "stats_loop env cfg f3 ss2 = Inr ss'"
        by (auto simp: stats_loop.simps [of env cfg f] Let_def sbind_eq_Inr_iff)
      have "length f3 < length f"
        using cue_body_rest [OF b] time_line_shorter [OF t(2)] l1 by simp
      from logged_trans [OF cue_body_logged [OF b less.prems(2)] less.IH [OF this r less.prems(2)]] q1
      show ?thesis by simp
    qed
  qed
qed

lemma parse_with_stats_logged:
  assumes "parse_srt_with_stats env cfg ws file q = Inr (es, st, q')" and "pe_qc env"
  shows "logged (pe_filename env) q q'"
proof -
  obtain f where f: "file = Some f" using assms(1) by (cases "file") (simp_all add: parse_srt_with_stats_def)
  let ?c = "case cfg of None \<Rightarrow> default_cfg env | Some c \<Rightarrow> c"
  let ?ss0 = "\<lparr>ss_parse = \<lparr>ps_entries = [], ps_cap = INITIAL_CAP, ps_qc = q\<rparr>,
    ss_last_id = 0, ss_stats = if ws then Some initial_stats else None\<rparr>"
  from assms(1) obtain ss where loop: "stats_loop env ?c f ?ss0 = Inr ss" and q: "q' = ps_qc (ss_parse ss)"
    by (auto simp: parse_srt_with_stats_def Let_def f split: if_splits sum.splits)
  from stats_loop_logged [OF loop assms(2)] q show ?thesis by simp
qed

subsection \<open>The summary\<close>

text \<open>What is known of the entry of a file.\<close>

definition summary_of :: "track_env \<Rightarrow> cli_args \<Rightarrow> qc_summary \<Rightarrow> bool" where
  "summary_of env a s \<longleftrightarrow>
     (case te_file env (qs_filename s) of
        None \<Rightarrow> qs_cues s = 0 \<and> qs_errors s = 1
      | Some f \<Rightarrow>
          \<exists>es st q q'. parse_srt_with_stats (qc_penv env a (qs_filename s)) (Some qc_cfg) True (Some f) q = Inr (es, st, q') \<and>
            qc_error_count q = 0 \<and> qs_cues s = int (length es) \<and> qs_errors s = qc_error_count q')"

definition missing :: "track_env \<Rightarrow> cstr list \<Rightarrow> int" where
  "missing env fs = int (length (filter (\<lambda>f. te_file env f = None) fs))"

lemma qc_penv_fields [simp]: "pe_qc (qc_penv env a f)" "pe_filename (qc_penv env a f) = f"
  by (simp_all add: qc_penv_def)

lemma parse_cannot_open: "parse_srt_with_stats env cfg ws f q = Inl Cannot_open \<longleftrightarrow> f = None"
  by (auto simp: parse_srt_with_stats_def Let_def split: option.splits sum.splits)

lemma qc_file_Inr:
  assumes "qc_file env a f (rep, q) = Inr (rep', q')"
  shows "\<exists>s ls. qr_summaries rep' = qr_summaries rep @ [s] \<and> qs_filename s = f \<and> summary_of env a s \<and>
    qr_total_cues rep' = qr_total_cues rep + qs_cues s \<and> qr_total_errors rep' = qr_total_errors rep + qs_errors s \<and>
    qc_lines q' = qc_lines q @ ls \<and> qs_errors s = error_lines ls + missing env [f]"
proof (cases "parse_srt_with_stats (qc_penv env a f) (Some qc_cfg) True (te_file env f) (qc_reset_counts q)")
  case (Inl e)
  with assms have "e = Cannot_open" by (cases e) (simp_all add: qc_file_def Let_def)
  with Inl have "te_file env f = None" by (simp add: parse_cannot_open)
  with Inl assms \<open>e = Cannot_open\<close> show ?thesis
    by (intro exI [of _ "\<lparr>qs_filename = f, qs_cues = 0, qs_errors = 1\<rparr>"] exI [of _ "[]"])
      (auto simp: qc_file_def Let_def summary_of_def missing_def qc_reset_counts_def)
next
  case (Inr r)
  obtain es st q2 where r: "r = (es, st, q2)" by (rule prod_cases3)
  let ?s = "\<lparr>qs_filename = f, qs_cues = int (length es), qs_errors = qc_error_count q2\<rparr>"
  from parse_with_stats_logged [OF Inr [unfolded r]] obtain ls where
    ls: "qc_lines q2 = qc_lines q @ ls" "qc_error_count q2 = error_lines ls"
    by (auto simp: logged_def qc_reset_counts_def)
  obtain b where b: "te_file env f = Some b"
    using Inr by (cases "te_file env f") (simp_all add: parse_srt_with_stats_def)
  have "summary_of env a ?s"
    using Inr unfolding b r
    by (simp add: summary_of_def b)
      (intro exI [of _ es] exI [of _ st] exI [of _ "qc_reset_counts q"] exI [of _ q2], simp add: qc_reset_counts_def)
  with Inr assms ls b show ?thesis
    by (intro exI [of _ ?s] exI [of _ ls]) (auto simp: qc_file_def Let_def r missing_def)
qed

lemma qc_files_Inr:
  "qc_files env a fs (rep, q) = Inr (rep', q') \<Longrightarrow>
   \<exists>new ls. qr_summaries rep' = qr_summaries rep @ new \<and> map qs_filename new = fs \<and> list_all (summary_of env a) new \<and>
     qr_total_cues rep' = qr_total_cues rep + sum_list (map qs_cues new) \<and>
     qr_total_errors rep' = qr_total_errors rep + sum_list (map qs_errors new) \<and>
     qc_lines q' = qc_lines q @ ls \<and> sum_list (map qs_errors new) = error_lines ls + missing env fs"
proof (induction fs arbitrary: rep q)
  case Nil
  then show ?case by (intro exI [of _ "[]"]) (simp add: missing_def)
next
  case (Cons f fs)
  from Cons.prems obtain rep1 q1 where c: "qc_file env a f (rep, q) = Inr (rep1, q1)"
    and r: "qc_files env a fs (rep1, q1) = Inr (rep', q')" by (auto simp: sbind_eq_Inr_iff)
  from qc_file_Inr [OF c] obtain s ls where s: "qr_summaries rep1 = qr_summaries rep @ [s]" "qs_filename s = f"
    "summary_of env a s" "qr_total_cues rep1 = qr_total_cues rep + qs_cues s"
    "qr_total_errors rep1 = qr_total_errors rep + qs_errors s"
    "qc_lines q1 = qc_lines q @ ls" "qs_errors s = error_lines ls + missing env [f]" by blast
  from Cons.IH [OF r] obtain new ls' where n: "qr_summaries rep' = qr_summaries rep1 @ new" "map qs_filename new = fs"
    "list_all (summary_of env a) new" "qr_total_cues rep' = qr_total_cues rep1 + sum_list (map qs_cues new)"
    "qr_total_errors rep' = qr_total_errors rep1 + sum_list (map qs_errors new)"
    "qc_lines q' = qc_lines q1 @ ls'" "sum_list (map qs_errors new) = error_lines ls' + missing env fs" by blast
  have "missing env (f # fs) = missing env [f] + missing env fs" by (simp add: missing_def)
  with s n show ?case by (intro exI [of _ "s # new"] exI [of _ "ls @ ls'"]) simp
qed

lemma collect_files_names: "collect_files alloc n ps qs = Some fs \<Longrightarrow> map fst fs = ps"
  by (induction ps arbitrary: n qs fs) (auto simp: Let_def split: if_splits)

text \<open>C20. The quick check reports on exactly the files of the list, in their order: the cues of a file are
  those the parser stored, the totals are the sums, and the errors of the summary are the error lines of
  the log and the files that could not be opened.\<close>

theorem qc_only_reports:
  assumes "ctx_run_qc_only env a have_log srts langs q = Go (rep, q')"
  shows "map qs_filename (qr_summaries rep) = tokens (CHR '','') srts \<and> list_all (summary_of env a) (qr_summaries rep) \<and>
    qr_total_cues rep = sum_list (map qs_cues (qr_summaries rep)) \<and>
    qr_total_errors rep = sum_list (map qs_errors (qr_summaries rep)) \<and>
    (\<exists>ls. qc_lines q' = qc_lines q @ ls \<and>
       qr_total_errors rep = error_lines ls + missing env (tokens (CHR '','') srts))"
proof -
  let ?rep = "\<lparr>qr_summaries = [], qr_total_cues = 0, qr_total_errors = 0, qr_diagnostics = []\<rparr>"
  from assms obtain fs where
    fs: "collect_files (te_alloc env) 0 (tokens (CHR '','') srts) (tokens (CHR '','') langs) = Some fs"
    and r: "qc_files env a (map fst fs) (?rep, q) = Inr (rep, q')"
    by (auto simp: ctx_run_qc_only_def rbind_eq_Go_iff of_cres_def split: option.splits sum.splits)
  note n = collect_files_names [OF fs]
  from qc_files_Inr [OF r] show ?thesis unfolding n by auto
qed

definition sample_qc_env :: track_env where
  "sample_qc_env = sample_tenv\<lparr>te_file := (\<lambda>f. if f = ''a.srt'' then Some sample_cue else None)\<rparr>"

lemma sample_qc_ran:
  "ran (rbind (ctx_run_qc_only sample_qc_env sample_cargs True ''a.srt,b.srt'' ''eng,deu'' sample_q)
     (\<lambda>r. check (qr_total_cues (fst r) = 1) 0))"
  by code_simp

theorem qc_only_reports_witness:
  "\<exists>rep q'. ctx_run_qc_only sample_qc_env sample_cargs True ''a.srt,b.srt'' ''eng,deu'' sample_q = Go (rep, q') \<and>
     map qs_filename (qr_summaries rep) = [''a.srt'', ''b.srt''] \<and> 0 < qr_total_errors rep"
proof -
  from sample_qc_ran obtain rep q' where
    r: "ctx_run_qc_only sample_qc_env sample_cargs True ''a.srt,b.srt'' ''eng,deu'' sample_q = Go (rep, q')"
    by (auto simp: ran_Go rbind_eq_Go_iff)
  have t: "tokens (CHR '','') ''a.srt,b.srt'' = [''a.srt'', ''b.srt'']" by code_simp
  have "missing sample_qc_env [''a.srt'', ''b.srt''] = 1" by code_simp
  with qc_only_reports [OF r] r show ?thesis unfolding t by (auto simp: error_lines_def)
qed

end
