(* ===== verification/Render_pool.thy ===== *)
theory Render_pool
  imports Pids Dvb_sub
begin

text \<open>
  \<^verbatim>\<open>render_pool.c\<close>: worker threads take render jobs from a queue; clients submit jobs, wait for one, or
  ask whether one is done. Each critical section under \<^verbatim>\<open>job_mtx\<close> or a job's \<^verbatim>\<open>done_mtx\<close> is one
  operation on the state of the pool, and \<open>pool_step\<close> interleaves them. A condition variable is the set
  of the threads asleep on it: a signal wakes one of them, and a thread may wake for no reason.
  Rendering itself is a parameter. The lemmas give the invariant of all interleavings, that a queued
  job gets done whatever the schedule, and the one interleaving that goes wrong.
\<close>

subsection \<open>Jobs\<close>

record render_args =
  ra_markup :: "cstr option"
  ra_disp_w :: int
  ra_disp_h :: int
  ra_fontsize :: int
  ra_fontfam :: "cstr option"
  ra_fontstyle :: "cstr option"
  ra_fgcolor :: "cstr option"
  ra_outlinecolor :: "cstr option"
  ra_shadowcolor :: "cstr option"
  ra_bgcolor :: "cstr option"
  ra_palette_mode :: "cstr option"
  ra_pos :: "SubtitlePositionConfig option"

text \<open>\<open>j_mtx\<close> says that a worker is between the lock and the unlock of \<^verbatim>\<open>done_mtx\<close>.\<close>

record RenderJob =
  j_args :: render_args
  j_result :: Bitmap
  j_done :: bool
  j_mtx :: bool
  j_waiters :: nat
  j_freed :: bool
  j_track :: int
  j_cue :: int

record rp_env =
  re_alloc :: "nat \<Rightarrow> bool"
  re_job_size :: nat
  re_cond_ok :: bool
  re_mtx_ok :: bool
  re_render :: "render_args \<Rightarrow> Bitmap"

definition empty_bitmap :: Bitmap where
  "empty_bitmap =
     \<lparr>bm_idxbuf = None, bm_palette = None, bm_w = 0, bm_h = 0, bm_x = 0, bm_y = 0, bm_nb_colors = 0,
      bm_idxbuf_len = 0, bm_palette_bytes = 0\<rparr>"

definition dup_ok :: "(nat \<Rightarrow> bool) \<Rightarrow> cstr option \<Rightarrow> bool" where
  "dup_ok alloc s = (case s of None \<Rightarrow> True | Some t \<Rightarrow> alloc (length t + 1))"

definition init_job_strings :: "(nat \<Rightarrow> bool) \<Rightarrow> render_args \<Rightarrow> render_args option" where
  "init_job_strings alloc a =
     (let markup = (case ra_markup a of None \<Rightarrow> [] | Some m \<Rightarrow> m)
      in if alloc (length markup + 1) \<and> dup_ok alloc (ra_fontfam a) \<and> dup_ok alloc (ra_fontstyle a) \<and>
            dup_ok alloc (ra_fgcolor a) \<and> dup_ok alloc (ra_outlinecolor a) \<and>
            dup_ok alloc (ra_shadowcolor a) \<and> dup_ok alloc (ra_bgcolor a) \<and>
            dup_ok alloc (ra_palette_mode a)
         then Some (a\<lparr>ra_markup := Some markup\<rparr>)
         else None)"

definition default_pos :: SubtitlePositionConfig where
  "default_pos =
     \<lparr>position = SUB_POS_BOT_CENTER, margin_top = Num (7 / 2), margin_left = Num (7 / 2), margin_bottom = Num (7 / 2),
      margin_right = Num (7 / 2)\<rparr>"

text \<open>The job as the two submitting functions build it, \<open>None\<close> where they clean up and give up.\<close>

definition new_job :: "rp_env \<Rightarrow> render_args \<Rightarrow> RenderJob option" where
  "new_job env a =
     (if \<not> re_alloc env (re_job_size env) then None
      else
        (case init_job_strings (re_alloc env) a of
           None \<Rightarrow> None
         | Some a1 \<Rightarrow>
             if \<not> re_cond_ok env then None
             else if \<not> re_mtx_ok env then None
             else
               Some \<lparr>j_args = a1\<lparr>ra_pos := Some (case ra_pos a1 of None \<Rightarrow> default_pos | Some p \<Rightarrow> p)\<rparr>,
                     j_result = empty_bitmap, j_done = False, j_mtx = False, j_waiters = 0,
                     j_freed = False, j_track = 0, j_cue = 0\<rparr>))"

subsection \<open>The pool\<close>

type_synonym jid = nat

datatype worker = Idle | Asleep | Rendering jid | Storing jid | Exited

record rpool =
  rp_heap :: "jid \<Rightarrow> RenderJob option"
  rp_queue :: "jid list"
  rp_all :: "jid list"
  rp_running :: bool
  rp_active :: bool
  rp_workers :: "worker list"

definition MAX_POOL_THREADS :: nat where "MAX_POOL_THREADS = 256"
definition MAX_QUEUE_DEPTH :: nat where "MAX_QUEUE_DEPTH = 1024"

definition set_worker :: "nat \<Rightarrow> worker \<Rightarrow> rpool \<Rightarrow> rpool" where
  "set_worker i w s = s\<lparr>rp_workers := (rp_workers s)[i := w]\<rparr>"

text \<open>\<^verbatim>\<open>pthread_cond_signal\<close> wakes the worker \<open>i\<close>, one of those asleep; without any it does nothing.\<close>

definition job_signal :: "nat \<Rightarrow> rpool \<Rightarrow> rpool" where
  "job_signal i s = (if Asleep \<in> set (rp_workers s) then set_worker i Idle s else s)"

definition may_wake :: "nat \<Rightarrow> rpool \<Rightarrow> bool" where
  "may_wake i s \<longleftrightarrow>
     (Asleep \<in> set (rp_workers s) \<longrightarrow> i < length (rp_workers s) \<and> rp_workers s ! i = Asleep)"

text \<open>One critical section of a worker; \<open>None\<close> where it cannot move.\<close>

definition worker_step :: "rp_env \<Rightarrow> nat \<Rightarrow> rpool \<Rightarrow> rpool cres option" where
  "worker_step env i s =
     (if i \<ge> length (rp_workers s) then None
      else
        (case rp_workers s ! i of
           Asleep \<Rightarrow> None
         | Exited \<Rightarrow> None
         | Idle \<Rightarrow>
             (case rp_queue s of
                [] \<Rightarrow> Some (Inr (set_worker i (if rp_running s then Asleep else Exited) s))
              | j # js \<Rightarrow> Some (Inr (set_worker i (Rendering j) (s\<lparr>rp_queue := js\<rparr>))))
         | Rendering j \<Rightarrow>
             (case rp_heap s j of
                None \<Rightarrow> Some (Inl Out_of_bounds)
              | Some job \<Rightarrow>
                  Some (Inr (set_worker i (Storing j)
                    (s\<lparr>rp_heap := (rp_heap s)(j \<mapsto>
                       job\<lparr>j_result := re_render env (j_args job), j_done := True, j_mtx := True\<rparr>)\<rparr>))))
         | Storing j \<Rightarrow>
             (case rp_heap s j of
                None \<Rightarrow> Some (Inl Out_of_bounds)
              | Some job \<Rightarrow>
                  Some (Inr (set_worker i Idle (s\<lparr>rp_heap := (rp_heap s)(j \<mapsto> job\<lparr>j_mtx := False\<rparr>)\<rparr>))))))"

text \<open>\<open>created\<close> is the number of threads \<^verbatim>\<open>pthread_create\<close> is willing to start.\<close>

definition render_pool_init :: "(nat \<Rightarrow> bool) \<Rightarrow> nat \<Rightarrow> int \<Rightarrow> rpool \<Rightarrow> int \<times> rpool" where
  "render_pool_init alloc created nthreads s =
     (if nthreads \<le> 0 then (0, s)
      else
        let n = min (nat nthreads) MAX_POOL_THREADS
        in if \<not> alloc (n * 8) then (-1, s)
           else if created < n then (-1, s\<lparr>rp_running := False\<rparr>)
           else (0, s\<lparr>rp_running := True, rp_workers := replicate n Idle, rp_active := True\<rparr>))"

definition render_pool_submit_async ::
    "rp_env \<Rightarrow> nat \<Rightarrow> jid \<Rightarrow> int \<Rightarrow> int \<Rightarrow> render_args \<Rightarrow> rpool \<Rightarrow> int \<times> rpool" where
  "render_pool_submit_async env i j track_id cue_index a s =
     (if \<not> rp_active s then (-1, s)
      else if length (rp_queue s) \<ge> MAX_QUEUE_DEPTH then (-1, s)
      else
        (case new_job env a of
           None \<Rightarrow> (-1, s)
         | Some job \<Rightarrow>
             (0, job_signal i
                   (s\<lparr>rp_heap := (rp_heap s)(j \<mapsto> job\<lparr>j_track := track_id, j_cue := cue_index\<rparr>),
                      rp_queue := rp_queue s @ [j], rp_all := j # rp_all s\<rparr>))))"

text \<open>\<^verbatim>\<open>render_pool_render_sync\<close> up to the wait, and from there: the caller has a bitmap at once, or the
  job it waits for.\<close>

definition sync_enqueue :: "rp_env \<Rightarrow> nat \<Rightarrow> jid \<Rightarrow> render_args \<Rightarrow> rpool \<Rightarrow> (Bitmap + jid) \<times> rpool" where
  "sync_enqueue env i j a s =
     (if \<not> rp_active s then (Inl (re_render env a), s)
      else
        (case new_job env a of
           None \<Rightarrow> (Inl empty_bitmap, s)
         | Some job \<Rightarrow>
             (Inr j, job_signal i
                (s\<lparr>rp_heap := (rp_heap s)(j \<mapsto> job\<lparr>j_waiters := j_waiters job + 1\<rparr>),
                   rp_queue := rp_queue s @ [j]\<rparr>))))"

definition sync_return :: "jid \<Rightarrow> rpool \<Rightarrow> (Bitmap \<times> rpool) cres option" where
  "sync_return j s =
     (case rp_heap s j of
        None \<Rightarrow> Some (Inl Out_of_bounds)
      | Some job \<Rightarrow>
          if j_mtx job \<or> \<not> j_done job then None
          else Some (Inr (j_result job, s\<lparr>rp_heap := (rp_heap s)(j := None)\<rparr>)))"

fun find_job :: "(jid \<Rightarrow> RenderJob option) \<Rightarrow> int \<Rightarrow> int \<Rightarrow> jid list \<Rightarrow> jid option cres" where
  "find_job h t c [] = Inr None"
| "find_job h t c (j # js) =
     (case h j of
        None \<Rightarrow> Inl Out_of_bounds
      | Some job \<Rightarrow> if j_track job = t \<and> j_cue job = c then Inr (Some j) else find_job h t c js)"

definition remove_from_all_jobs_locked :: "jid \<Rightarrow> rpool \<Rightarrow> rpool" where
  "remove_from_all_jobs_locked j s = s\<lparr>rp_all := remove1 j (rp_all s)\<rparr>"

definition render_pool_try_get :: "int \<Rightarrow> int \<Rightarrow> rpool \<Rightarrow> (int \<times> Bitmap option \<times> rpool) cres" where
  "render_pool_try_get t c s =
     sbind (find_job (rp_heap s) t c (rp_all s)) (\<lambda>r.
       case r of
         None \<Rightarrow> Inr (-1, None, s)
       | Some j \<Rightarrow>
           (case rp_heap s j of
              None \<Rightarrow> Inl Out_of_bounds
            | Some job \<Rightarrow>
                if \<not> j_done job then Inr (0, None, s)
                else
                  Inr (1, Some (j_result job),
                       (remove_from_all_jobs_locked j s)\<lparr>rp_heap := (rp_heap s)(j := None)\<rparr>)))"

text \<open>\<^verbatim>\<open>render_pool_shutdown\<close>: the announcement, and what follows once all workers are joined.\<close>

definition shutdown_begin :: "rpool \<Rightarrow> rpool" where
  "shutdown_begin s =
     (if \<not> rp_active s then s
      else s\<lparr>rp_active := False, rp_running := False,
             rp_workers := map (\<lambda>w. if w = Asleep then Idle else w) (rp_workers s)\<rparr>)"

fun free_queue :: "jid list \<Rightarrow> rpool \<Rightarrow> rpool cres" where
  "free_queue [] s = Inr s"
| "free_queue (j # js) s =
     (case rp_heap s j of
        None \<Rightarrow> Inl Out_of_bounds
      | Some job \<Rightarrow>
          free_queue js
            ((remove_from_all_jobs_locked j s)\<lparr>rp_heap := (rp_heap s)(j :=
                (if j_waiters job > 0 then Some (job\<lparr>j_freed := True\<rparr>) else None))\<rparr>))"

fun free_all :: "jid list \<Rightarrow> rpool \<Rightarrow> rpool cres" where
  "free_all [] s = Inr s"
| "free_all (j # js) s =
     (case rp_heap s j of
        None \<Rightarrow> Inl Out_of_bounds
      | Some job \<Rightarrow>
          free_all js (if j_freed job then s else s\<lparr>rp_heap := (rp_heap s)(j := None)\<rparr>))"

definition shutdown_end :: "rpool \<Rightarrow> rpool cres" where
  "shutdown_end s =
     sbind (free_queue (rp_queue s) (s\<lparr>rp_workers := []\<rparr>)) (\<lambda>s1.
     sbind (free_all (rp_all s1) (s1\<lparr>rp_queue := []\<rparr>)) (\<lambda>s2.
     Inr (s2\<lparr>rp_all := []\<rparr>)))"

subsection \<open>Interleavings\<close>

text \<open>The functions of the clients are one step each, up to where they wait: the program calls them from
  its main thread only. Clients of \<^verbatim>\<open>render_pool_try_get\<close> are assumed here to come when the worker has left the job; what
  happens otherwise is the last property of this theory.\<close>

inductive pool_step :: "rp_env \<Rightarrow> rpool \<Rightarrow> rpool \<Rightarrow> bool" for env where
  submit: "rp_heap s j = None \<Longrightarrow> may_wake i s \<Longrightarrow>
    render_pool_submit_async env i j t c a s = (r, s') \<Longrightarrow> pool_step env s s'"
| sync_start: "rp_heap s j = None \<Longrightarrow> may_wake i s \<Longrightarrow>
    sync_enqueue env i j a s = (r, s') \<Longrightarrow> pool_step env s s'"
| sync_end: "rp_heap s j = Some job \<Longrightarrow> j_waiters job > 0 \<Longrightarrow>
    sync_return j s = Some (Inr (bm, s')) \<Longrightarrow> pool_step env s s'"
| try_get: "find_job (rp_heap s) t c (rp_all s) = Inr (Some j) \<Longrightarrow> rp_heap s j = Some job \<Longrightarrow>
    \<not> j_mtx job \<Longrightarrow> render_pool_try_get t c s = Inr (r, b, s') \<Longrightarrow> pool_step env s s'"
| work: "worker_step env i s = Some (Inr s') \<Longrightarrow> pool_step env s s'"
| spurious: "i < length (rp_workers s) \<Longrightarrow> rp_workers s ! i = Asleep \<Longrightarrow>
    pool_step env s (set_worker i Idle s)"
| stop: "pool_step env s (shutdown_begin s)"
| join: "\<not> rp_running s \<Longrightarrow> set (rp_workers s) = {Exited} \<Longrightarrow> shutdown_end s = Inr s' \<Longrightarrow>
    pool_step env s s'"

definition pool_off :: rpool where
  "pool_off =
     \<lparr>rp_heap = Map.empty, rp_queue = [], rp_all = [], rp_running = False, rp_active = False, rp_workers = []\<rparr>"

inductive pool_reached :: "rp_env \<Rightarrow> rpool \<Rightarrow> bool" for env where
  init: "0 < n \<Longrightarrow> render_pool_init alloc created n pool_off = (0, s) \<Longrightarrow> pool_reached env s"
| step: "pool_reached env s \<Longrightarrow> pool_step env s s' \<Longrightarrow> pool_reached env s'"

inductive_cases pool_step_cases: "pool_step env s s'"

subsection \<open>The invariant\<close>

lemma count_list_update:
  "i < length xs \<Longrightarrow>
   count_list (xs[i := y]) x + (if xs ! i = x then 1 else 0) = count_list xs x + (if y = x then 1 else 0)"
proof (induction xs arbitrary: i)
  case (Cons z zs)
  show ?case
  proof (cases i)
    case (Suc k)
    with Cons.IH [of k] Cons.prems show ?thesis by (auto split: if_splits)
  qed simp
qed simp

lemma count_list_nth: "i < length xs \<Longrightarrow> 0 < count_list xs (xs ! i)"
  by (metis count_list_0_iff gr0I nth_mem)

text \<open>A job that is not done is queued or being rendered, exactly once; its mutex is held by one worker;
  its result is the rendering of its arguments; it is listed unless a client waits for it.\<close>

fun entry_ok :: "rp_env \<Rightarrow> nat \<Rightarrow> nat \<Rightarrow> bool \<Rightarrow> RenderJob option \<Rightarrow> bool" where
  "entry_ok env open_at held listed None \<longleftrightarrow> open_at = 0 \<and> held = 0 \<and> \<not> listed"
| "entry_ok env open_at held listed (Some job) \<longleftrightarrow>
     open_at = (if j_done job then 0 else 1) \<and> held = (if j_mtx job then 1 else 0) \<and>
     (j_mtx job \<longrightarrow> j_done job) \<and> (j_done job \<longrightarrow> j_result job = re_render env (j_args job)) \<and>
     \<not> j_freed job \<and> (j_waiters job = 0 \<longleftrightarrow> listed)"

definition job_ok :: "rp_env \<Rightarrow> rpool \<Rightarrow> jid \<Rightarrow> bool" where
  "job_ok env s j =
     entry_ok env (count_list (rp_queue s) j + count_list (rp_workers s) (Rendering j))
       (count_list (rp_workers s) (Storing j)) (j \<in> set (rp_all s)) (rp_heap s j)"

text \<open>No lost wake-up: with work in the queue some worker is awake, and workers stay until it is done.\<close>

definition sched_ok :: "rpool \<Rightarrow> bool" where
  "sched_ok s \<longleftrightarrow>
     rp_active s = rp_running s \<and>
     (rp_running s \<longrightarrow> rp_workers s \<noteq> [] \<and> Exited \<notin> set (rp_workers s) \<and>
        (rp_queue s = [] \<or> (\<exists>w\<in>set (rp_workers s). w \<noteq> Asleep))) \<and>
     (\<not> rp_running s \<longrightarrow> Asleep \<notin> set (rp_workers s) \<and>
        (Exited \<in> set (rp_workers s) \<or> rp_workers s = [] \<longrightarrow> rp_queue s = []))"

definition pool_wf :: "rp_env \<Rightarrow> rpool \<Rightarrow> bool" where
  "pool_wf env s \<longleftrightarrow> (\<forall>j. job_ok env s j) \<and> distinct (rp_all s) \<and> sched_ok s"

lemma pool_wf_init:
  assumes "render_pool_init alloc created n pool_off = (0, s)" and "0 < n"
  shows "pool_wf env s"
  using assms
  by (auto simp: render_pool_init_def pool_off_def pool_wf_def job_ok_def sched_ok_def Let_def
    MAX_POOL_THREADS_def count_list_0_iff split: if_splits)

lemma new_job_fields:
  assumes "new_job env a = Some job"
  shows "\<not> j_done job \<and> \<not> j_mtx job \<and> \<not> j_freed job \<and> j_waiters job = 0"
  using assms by (auto simp: new_job_def split: if_splits option.splits)

text \<open>A wake-up does not change the work of any worker.\<close>

lemma wake_job_ok:
  assumes "i < length (rp_workers s)" and "rp_workers s ! i = Asleep"
  shows "job_ok env (set_worker i Idle s) j = job_ok env s j"
  using count_list_update [OF assms(1), of Idle "Rendering j"] count_list_update [OF assms(1), of Idle "Storing j"]
  by (simp add: job_ok_def set_worker_def assms(2))

lemma signal_job_ok: "may_wake i s \<Longrightarrow> job_ok env (job_signal i s) j = job_ok env s j"
  by (simp add: job_signal_def may_wake_def wake_job_ok)

lemma signal_all [simp]: "rp_all (job_signal i s) = rp_all s"
  by (simp add: job_signal_def set_worker_def)

lemma signal_sched:
  assumes "may_wake i s" and "sched_ok (s\<lparr>rp_queue := []\<rparr>)" and "rp_running s"
  shows "sched_ok (job_signal i s)"
proof (cases "Asleep \<in> set (rp_workers s)")
  case True
  with assms have i: "i < length (rp_workers s)" by (simp add: may_wake_def)
  then have "Idle \<in> set ((rp_workers s)[i := Idle])" by (simp add: set_update_memI)
  moreover have "Exited \<notin> set ((rp_workers s)[i := Idle])"
    using assms(2,3) set_update_subset_insert [of "rp_workers s" i Idle] by (auto simp: sched_ok_def)
  ultimately show ?thesis using assms True
    by (auto simp: sched_ok_def job_signal_def set_worker_def)
next
  case False
  with assms show ?thesis by (auto simp: sched_ok_def job_signal_def) (metis last_in_set)
qed

lemma enqueue_wf:
  assumes wf: "pool_wf env s" and j: "rp_heap s j = None" and "may_wake i s" and act: "rp_active s"
    and job: "\<not> j_done job" "\<not> j_mtx job" "\<not> j_freed job"
    and all: "(j_waiters job = 0 \<and> all = j # rp_all s) \<or> (j_waiters job > 0 \<and> all = rp_all s)"
  shows "pool_wf env (job_signal i (s\<lparr>rp_heap := (rp_heap s)(j \<mapsto> job), rp_queue := rp_queue s @ [j], rp_all := all\<rparr>))"
proof -
  let ?s = "s\<lparr>rp_heap := (rp_heap s)(j \<mapsto> job), rp_queue := rp_queue s @ [j], rp_all := all\<rparr>"
  have w: "may_wake i ?s" using assms(3) by (simp add: may_wake_def)
  have "job_ok env ?s k" for k
  proof (cases "k = j")
    case True
    from wf have "job_ok env s j" by (simp add: pool_wf_def)
    then have "count_list (rp_queue s) j = 0" "count_list (rp_workers s) (Rendering j) = 0"
      "count_list (rp_workers s) (Storing j) = 0" "j \<notin> set (rp_all s)" using j by (simp_all add: job_ok_def)
    with True job all show ?thesis by (auto simp: job_ok_def)
  next
    case False
    from wf have "job_ok env s k" by (simp add: pool_wf_def)
    with False all show ?thesis by (auto simp: job_ok_def)
  qed
  moreover have "distinct all"
    using wf j all by (auto simp: pool_wf_def job_ok_def dest: spec [of _ j])
  moreover have "sched_ok (job_signal i ?s)"
    using wf act w by (intro signal_sched) (auto simp: pool_wf_def sched_ok_def)
  ultimately show ?thesis by (simp add: pool_wf_def signal_job_ok [OF w])
qed

lemma submit_wf:
  assumes "pool_wf env s" and "rp_heap s j = None" and "may_wake i s"
    and "render_pool_submit_async env i j t c a s = (r, s')"
  shows "pool_wf env s'"
proof (cases "new_job env a")
  case (Some job)
  have "pool_wf env (job_signal i (s\<lparr>rp_heap := (rp_heap s)(j \<mapsto> job\<lparr>j_track := t, j_cue := c\<rparr>),
      rp_queue := rp_queue s @ [j], rp_all := j # rp_all s\<rparr>))" if "rp_active s"
    using new_job_fields [OF Some] that by (intro enqueue_wf [OF assms(1-3)]) simp_all
  with assms(1,4) Some show ?thesis by (auto simp: render_pool_submit_async_def split: if_splits)
qed (use assms in \<open>auto simp: render_pool_submit_async_def split: if_splits\<close>)

lemma sync_enqueue_wf:
  assumes "pool_wf env s" and "rp_heap s j = None" and "may_wake i s" and "sync_enqueue env i j a s = (r, s')"
  shows "pool_wf env s'"
proof (cases "new_job env a")
  case (Some job)
  have "pool_wf env (job_signal i (s\<lparr>rp_heap := (rp_heap s)(j \<mapsto> job\<lparr>j_waiters := j_waiters job + 1\<rparr>),
      rp_queue := rp_queue s @ [j], rp_all := rp_all s\<rparr>))" if "rp_active s"
    using new_job_fields [OF Some] that by (intro enqueue_wf [OF assms(1-3)]) simp_all
  with assms(1,4) Some show ?thesis by (auto simp: sync_enqueue_def split: if_splits)
qed (use assms in \<open>auto simp: sync_enqueue_def split: if_splits\<close>)

text \<open>Freeing a job that is done and that no worker holds.\<close>

lemma free_job_wf:
  assumes wf: "pool_wf env s" and j: "rp_heap s j = Some job" and job: "j_done job" "\<not> j_mtx job"
  shows "pool_wf env (s\<lparr>rp_all := remove1 j (rp_all s), rp_heap := (rp_heap s)(j := None)\<rparr>)"
proof -
  let ?s = "s\<lparr>rp_all := remove1 j (rp_all s), rp_heap := (rp_heap s)(j := None)\<rparr>"
  from wf have d: "distinct (rp_all s)" by (simp add: pool_wf_def)
  have "job_ok env ?s k" for k
  proof (cases "k = j")
    case True
    from wf have "job_ok env s j" by (simp add: pool_wf_def)
    with True job d j show ?thesis by (simp add: job_ok_def)
  next
    case False
    from wf have "job_ok env s k" by (simp add: pool_wf_def)
    with False d show ?thesis by (simp add: job_ok_def)
  qed
  with wf show ?thesis by (simp add: pool_wf_def sched_ok_def)
qed

lemma sched_busy:
  assumes "sched_ok s" and "i < length (rp_workers s)" and "w \<noteq> Asleep" and "w \<noteq> Exited"
    and "rp_queue s = [] \<Longrightarrow> q = []"
  shows "sched_ok (set_worker i w (s\<lparr>rp_heap := h, rp_queue := q\<rparr>))"
proof -
  have w: "w \<in> set ((rp_workers s)[i := w])" using assms(2) by (rule set_update_memI)
  have e: "Exited \<in> set (rp_workers s)" if "Exited \<in> set ((rp_workers s)[i := w])"
    using that assms(4) set_update_subset_insert [of "rp_workers s" i w] by auto
  have a: "Asleep \<in> set (rp_workers s)" if "Asleep \<in> set ((rp_workers s)[i := w])"
    using that assms(3) set_update_subset_insert [of "rp_workers s" i w] by auto
  show ?thesis using assms w e a by (auto simp: sched_ok_def set_worker_def)
qed

text \<open>A worker never meets a job that is gone, and keeps the invariant.\<close>

lemma worker_wf:
  assumes wf: "pool_wf env s" and st: "worker_step env i s = Some r"
  shows "\<exists>s'. r = Inr s' \<and> pool_wf env s'"
proof -
  from st have i: "i < length (rp_workers s)" by (auto simp: worker_step_def split: if_splits)
  note C = count_list_update [OF i]
  have ok: "job_ok env s k" for k using wf by (simp add: pool_wf_def)
  have sc: "sched_ok s" and d: "distinct (rp_all s)" using wf by (simp_all add: pool_wf_def)
  show ?thesis
  proof (cases "rp_workers s ! i")
    case Idle
    show ?thesis
    proof (cases "rp_queue s")
      case Nil
      let ?w = "if rp_running s then Asleep else Exited"
      have "job_ok env (set_worker i ?w s) k" for k
        using ok [of k] C [of ?w "Rendering k"] C [of ?w "Storing k"] Idle
        by (simp add: job_ok_def set_worker_def split: if_splits)
      moreover have "sched_ok (set_worker i ?w s)"
        using sc Nil i set_update_subset_insert [of "rp_workers s" i ?w] by (auto simp: sched_ok_def set_worker_def)
      ultimately have "pool_wf env (set_worker i ?w s)" using d by (simp add: pool_wf_def set_worker_def)
      with st i Idle Nil show ?thesis by (auto simp: worker_step_def)
    next
      case (Cons j js)
      let ?s = "set_worker i (Rendering j) (s\<lparr>rp_heap := rp_heap s, rp_queue := js\<rparr>)"
      have "job_ok env ?s k" for k
        using ok [of k] C [of "Rendering j" "Rendering k"] C [of "Rendering j" "Storing k"] Idle Cons
        by (auto simp: job_ok_def set_worker_def split: if_splits)
      moreover have "sched_ok ?s" by (rule sched_busy [OF sc i]) (simp_all add: Cons)
      ultimately have "pool_wf env ?s" using d by (simp add: pool_wf_def set_worker_def)
      with st i Idle Cons show ?thesis by (auto simp: worker_step_def)
    qed
  next
    case (Rendering j)
    have "0 < count_list (rp_workers s) (Rendering j)" using count_list_nth [OF i] Rendering by simp
    with ok [of j] obtain job where j: "rp_heap s j = Some job" "\<not> j_done job" "\<not> j_mtx job"
      by (cases "rp_heap s j") (auto simp: job_ok_def split: if_splits)
    let ?job = "job\<lparr>j_result := re_render env (j_args job), j_done := True, j_mtx := True\<rparr>"
    let ?s = "set_worker i (Storing j) (s\<lparr>rp_heap := (rp_heap s)(j \<mapsto> ?job), rp_queue := rp_queue s\<rparr>)"
    have "job_ok env ?s k" for k
      using ok [of k] j C [of "Storing j" "Rendering k"] C [of "Storing j" "Storing k"] Rendering
      by (cases "k = j") (auto simp: job_ok_def set_worker_def split: if_splits)
    moreover have "sched_ok ?s" by (rule sched_busy [OF sc i]) simp_all
    ultimately have "pool_wf env ?s" using d by (simp add: pool_wf_def set_worker_def)
    with st i Rendering j show ?thesis by (auto simp: worker_step_def)
  next
    case (Storing j)
    have "0 < count_list (rp_workers s) (Storing j)" using count_list_nth [OF i] Storing by simp
    with ok [of j] obtain job where j: "rp_heap s j = Some job" "j_done job" "j_mtx job"
      by (cases "rp_heap s j") (auto simp: job_ok_def split: if_splits)
    let ?s = "set_worker i Idle (s\<lparr>rp_heap := (rp_heap s)(j \<mapsto> job\<lparr>j_mtx := False\<rparr>), rp_queue := rp_queue s\<rparr>)"
    have "job_ok env ?s k" for k
      using ok [of k] j C [of Idle "Rendering k"] C [of Idle "Storing k"] Storing
      by (cases "k = j") (auto simp: job_ok_def set_worker_def split: if_splits)
    moreover have "sched_ok ?s" by (rule sched_busy [OF sc i]) simp_all
    ultimately have "pool_wf env ?s" using d by (simp add: pool_wf_def set_worker_def)
    with st i Storing j show ?thesis by (auto simp: worker_step_def)
  qed (use st in \<open>simp_all add: worker_step_def split: if_splits\<close>)
qed

lemma sync_return_wf:
  assumes "pool_wf env s" and "rp_heap s j = Some job" and "j_waiters job > 0"
    and "sync_return j s = Some (Inr (bm, s'))"
  shows "pool_wf env s' \<and> bm = re_render env (j_args job)"
proof -
  from assms(1) have ok: "job_ok env s j" by (simp add: pool_wf_def)
  with assms(2,3) have "remove1 j (rp_all s) = rp_all s"
    by (intro remove1_idem) (simp add: job_ok_def)
  with free_job_wf [OF assms(1,2)] ok assms(2,4) show ?thesis
    by (auto simp: sync_return_def job_ok_def split: if_splits)
qed

lemma find_job_Inr:
  "find_job h t c js = Inr (Some j) \<Longrightarrow> j \<in> set js \<and> (\<exists>job. h j = Some job \<and> j_track job = t \<and> j_cue job = c)"
  by (induction js) (auto split: option.splits if_splits)

lemma find_job_live:
  "\<forall>j\<in>set js. h j \<noteq> None \<Longrightarrow> \<exists>r. find_job h t c js = Inr r"
  by (induction js) auto

lemma try_get_wf:
  assumes "pool_wf env s" and "find_job (rp_heap s) t c (rp_all s) = Inr (Some j)"
    and "rp_heap s j = Some job" and "\<not> j_mtx job" and "render_pool_try_get t c s = Inr (r, b, s')"
  shows "pool_wf env s'"
  using free_job_wf [OF assms(1,3)] assms
  by (auto simp: render_pool_try_get_def remove_from_all_jobs_locked_def split: if_splits)

lemma spurious_wf:
  assumes "pool_wf env s" and "i < length (rp_workers s)" and "rp_workers s ! i = Asleep"
  shows "pool_wf env (set_worker i Idle s)"
proof -
  from assms(1) have "sched_ok (set_worker i Idle (s\<lparr>rp_heap := rp_heap s, rp_queue := rp_queue s\<rparr>))"
    by (intro sched_busy [OF _ assms(2)]) (simp_all add: pool_wf_def)
  with assms show ?thesis by (simp add: pool_wf_def wake_job_ok) (simp add: set_worker_def)
qed

lemma stop_wf:
  assumes "pool_wf env s"
  shows "pool_wf env (shutdown_begin s)"
proof (cases "rp_active s")
  case True
  let ?f = "\<lambda>w. if w = Asleep then Idle else w"
  have "count_list (map ?f ws) (Rendering j) = count_list ws (Rendering j)"
    "count_list (map ?f ws) (Storing j) = count_list ws (Storing j)" for ws j
    by (induction ws) auto
  with assms True show ?thesis
    by (auto simp: pool_wf_def shutdown_begin_def job_ok_def sched_ok_def)
qed (use assms in \<open>simp add: shutdown_begin_def\<close>)

text \<open>Once the workers are gone nothing is queued, and all that is listed can be freed.\<close>

lemma free_all_ok:
  "distinct js \<Longrightarrow> \<forall>j\<in>set js. \<exists>job. rp_heap s j = Some job \<and> \<not> j_freed job \<Longrightarrow>
   free_all js s = Inr (s\<lparr>rp_heap := (\<lambda>j. if j \<in> set js then None else rp_heap s j)\<rparr>)"
proof (induction js arbitrary: s)
  case (Cons j js)
  then obtain job where j: "rp_heap s j = Some job" "\<not> j_freed job" by auto
  let ?s = "s\<lparr>rp_heap := (rp_heap s)(j := None)\<rparr>"
  have "free_all js ?s = Inr (?s\<lparr>rp_heap := (\<lambda>k. if k \<in> set js then None else rp_heap ?s k)\<rparr>)"
    using Cons.prems by (intro Cons.IH) auto
  moreover have "(\<lambda>k. if k \<in> set js then None else rp_heap ?s k) =
      (\<lambda>k. if k \<in> set (j # js) then None else rp_heap s k)" by auto
  ultimately show ?case using j by simp
qed simp

lemma join_ok:
  assumes wf: "pool_wf env s" and "\<not> rp_running s" and ex: "set (rp_workers s) = {Exited}"
  shows "\<exists>s'. shutdown_end s = Inr s' \<and> pool_wf env s'"
proof -
  have q: "rp_queue s = []" using wf assms(2) ex by (auto simp: pool_wf_def sched_ok_def)
  have ok: "job_ok env s j" for j using wf by (simp add: pool_wf_def)
  have none: "count_list (rp_workers s) (Rendering j) = 0" "count_list (rp_workers s) (Storing j) = 0" for j
    using ex by (simp_all add: count_list_0_iff)
  let ?h = "\<lambda>j. if j \<in> set (rp_all s) then None else rp_heap s j"
  have l: "\<forall>j\<in>set (rp_all s). \<exists>job. rp_heap s j = Some job \<and> \<not> j_freed job"
  proof
    fix j
    assume "j \<in> set (rp_all s)"
    with ok [of j] show "\<exists>job. rp_heap s j = Some job \<and> \<not> j_freed job"
      by (cases "rp_heap s j") (auto simp: job_ok_def)
  qed
  have "free_all (rp_all s) (s\<lparr>rp_workers := [], rp_queue := []\<rparr>) =
      Inr (s\<lparr>rp_workers := [], rp_queue := [], rp_heap := ?h\<rparr>)"
    using free_all_ok [of "rp_all s" "s\<lparr>rp_workers := [], rp_queue := []\<rparr>"] l wf
    by (simp add: pool_wf_def cong: if_cong)
  then have e: "shutdown_end s = Inr (s\<lparr>rp_workers := [], rp_queue := [], rp_heap := ?h, rp_all := []\<rparr>)"
    by (simp add: shutdown_end_def q)
  have "job_ok env (s\<lparr>rp_workers := [], rp_queue := [], rp_heap := ?h, rp_all := []\<rparr>) j" for j
    using ok [of j] none [of j] q by (cases "rp_heap s j") (auto simp: job_ok_def split: if_splits)
  moreover have "sched_ok (s\<lparr>rp_workers := [], rp_queue := [], rp_heap := ?h, rp_all := []\<rparr>)"
    using wf assms(2) by (auto simp: pool_wf_def sched_ok_def)
  ultimately show ?thesis using e by (auto simp: pool_wf_def)
qed

lemma step_wf:
  assumes "pool_step env s s'" and "pool_wf env s"
  shows "pool_wf env s'"
  using assms(1)
proof cases
  case submit
  show ?thesis by (rule submit_wf [OF assms(2) submit])
next
  case sync_start
  show ?thesis by (rule sync_enqueue_wf [OF assms(2) sync_start])
next
  case sync_end
  from sync_return_wf [OF assms(2) sync_end] show ?thesis by (rule conjunct1)
next
  case try_get
  show ?thesis by (rule try_get_wf [OF assms(2) try_get])
next
  case work
  from worker_wf [OF assms(2) this] show ?thesis by simp
next
  case spurious
  with spurious_wf [OF assms(2)] show ?thesis by simp
next
  case stop
  with stop_wf [OF assms(2)] show ?thesis by simp
next
  case join
  with join_ok [OF assms(2)] show ?thesis by auto
qed

lemma reached_wf: "pool_reached env s \<Longrightarrow> pool_wf env s"
  by (induction rule: pool_reached.induct) (auto intro: pool_wf_init step_wf)

subsection \<open>Progress\<close>

definition works :: "rp_env \<Rightarrow> rpool \<Rightarrow> rpool \<Rightarrow> bool" where
  "works env s s' \<longleftrightarrow> (\<exists>i. worker_step env i s = Some (Inr s'))"

lemma worksI: "worker_step env i s = Some (Inr s') \<Longrightarrow> works env s s'"
  by (auto simp: works_def)

text \<open>What is left to do; each critical section of a worker takes some of it away.\<close>

fun weight :: "worker \<Rightarrow> nat" where
  "weight (Rendering j) = 3"
| "weight (Storing j) = 2"
| "weight Idle = 1"
| "weight Asleep = 0"
| "weight Exited = 0"

definition load :: "rpool \<Rightarrow> nat" where
  "load s = 3 * length (rp_queue s) + sum_list (map weight (rp_workers s))"

lemma sum_list_weight_update:
  "i < length ws \<Longrightarrow>
   sum_list (map weight (ws[i := w])) + weight (ws ! i) = sum_list (map weight ws) + weight w"
proof (induction ws arbitrary: i)
  case (Cons v vs)
  show ?case
  proof (cases i)
    case (Suc k)
    with Cons.IH [of k] Cons.prems show ?thesis by simp
  qed simp
qed simp

lemma works_load:
  assumes "works env s s'"
  shows "load s' < load s"
proof -
  from assms obtain i where st: "worker_step env i s = Some (Inr s')" by (auto simp: works_def)
  then have i: "i < length (rp_workers s)" by (auto simp: worker_step_def split: if_splits)
  note W = sum_list_weight_update [OF i]
  show ?thesis
  proof (cases "rp_workers s ! i")
    case Idle
    with st i W [of Asleep] W [of Exited] W [of "Rendering (hd (rp_queue s))"] show ?thesis
      by (cases "rp_queue s"; cases "rp_running s") (auto simp: worker_step_def load_def set_worker_def)
  next
    case (Rendering j)
    with st i W [of "Storing j"] show ?thesis
      by (cases "rp_heap s j") (auto simp: worker_step_def load_def set_worker_def)
  next
    case (Storing j)
    with st i W [of Idle] show ?thesis
      by (cases "rp_heap s j") (auto simp: worker_step_def load_def set_worker_def)
  qed (use st i in \<open>simp_all add: worker_step_def\<close>)
qed

lemma works_wf: "wfp (\<lambda>s' s. works env s s')"
  by (rule wfp_if_convertible_to_nat [of _ load]) (rule works_load)

text \<open>A worker does not free jobs, and what is done stays done.\<close>

definition job_done :: "rp_env \<Rightarrow> rpool \<Rightarrow> jid \<Rightarrow> bool" where
  "job_done env s j \<longleftrightarrow>
     (\<exists>job. rp_heap s j = Some job \<and> j_done job \<and> j_result job = re_render env (j_args job))"

definition same_jobs :: "rpool \<Rightarrow> rpool \<Rightarrow> bool" where
  "same_jobs s s' \<longleftrightarrow>
     (\<forall>j job. rp_heap s j = Some job \<longrightarrow>
        (\<exists>job'. rp_heap s' j = Some job' \<and> j_args job' = j_args job \<and> j_track job' = j_track job \<and>
           j_cue job' = j_cue job))"

lemma same_jobs_trans:
  assumes "same_jobs a b" and "same_jobs b c"
  shows "same_jobs a c"
  unfolding same_jobs_def
proof (intro allI impI)
  fix j job
  assume "rp_heap a j = Some job"
  with assms(1) obtain job1 where j1: "rp_heap b j = Some job1" "j_args job1 = j_args job"
    "j_track job1 = j_track job" "j_cue job1 = j_cue job" by (auto simp: same_jobs_def)
  from assms(2) [unfolded same_jobs_def, rule_format, OF j1(1)] obtain job2 where
    "rp_heap c j = Some job2" "j_args job2 = j_args job1" "j_track job2 = j_track job1" "j_cue job2 = j_cue job1"
    by blast
  with j1 show "\<exists>job'. rp_heap c j = Some job' \<and> j_args job' = j_args job \<and> j_track job' = j_track job \<and>
    j_cue job' = j_cue job" by simp
qed

lemma works_frame:
  assumes "works env s s'"
  shows "same_jobs s s' \<and> (rp_workers s' = [] \<longleftrightarrow> rp_workers s = [])"
proof -
  from assms obtain i where st: "worker_step env i s = Some (Inr s')" by (auto simp: works_def)
  then show ?thesis
    by (auto simp: worker_step_def same_jobs_def set_worker_def
      split: if_splits worker.splits list.splits option.splits)
qed

lemma works_star:
  "(works env)\<^sup>*\<^sup>* s s' \<Longrightarrow> pool_wf env s \<Longrightarrow>
   pool_wf env s' \<and> same_jobs s s' \<and> (rp_workers s' = [] \<longleftrightarrow> rp_workers s = [])"
proof (induction rule: rtranclp_induct)
  case base
  then show ?case by (simp add: same_jobs_def)
next
  case (step s1 s2)
  from step.hyps(2) obtain i where "worker_step env i s1 = Some (Inr s2)" by (auto simp: works_def)
  with worker_wf [of env s1 i] step have "pool_wf env s2" by auto
  moreover have "same_jobs s s2"
    using step works_frame [OF step.hyps(2)] by (blast intro: same_jobs_trans)
  ultimately show ?case using step works_frame [OF step.hyps(2)] by blast
qed

text \<open>Where no worker can move, nothing is left to do.\<close>

lemma stuck_idle:
  assumes wf: "pool_wf env s" and ne: "rp_workers s \<noteq> []" and st: "\<nexists>s'. works env s s'"
  shows "rp_queue s = [] \<and> (\<forall>j job. rp_heap s j = Some job \<longrightarrow> job_done env s j)"
proof -
  have w: "w = Asleep \<or> w = Exited" if "w \<in> set (rp_workers s)" for w
  proof (rule ccontr)
    assume a: "\<not> (w = Asleep \<or> w = Exited)"
    from that obtain i where i: "i < length (rp_workers s)" "rp_workers s ! i = w" by (auto simp: in_set_conv_nth)
    have "worker_step env i s \<noteq> None"
      using a i by (cases w) (auto simp: worker_step_def split: list.splits option.splits)
    then obtain r where "worker_step env i s = Some r" by blast
    with worker_wf [OF wf this] st show False by (auto simp: works_def)
  qed
  have q: "rp_queue s = []"
  proof (cases "rp_running s")
    case True
    with wf w show ?thesis by (auto simp: pool_wf_def sched_ok_def)
  next
    case False
    have "Exited \<in> set (rp_workers s)"
      using w [OF hd_in_set [OF ne]] hd_in_set [OF ne] wf False by (auto simp: pool_wf_def sched_ok_def)
    with wf False show ?thesis by (auto simp: pool_wf_def sched_ok_def)
  qed
  have "job_done env s j" if "rp_heap s j = Some job" for j job
  proof -
    have "count_list (rp_workers s) (Rendering j) = 0" using w by (auto simp: count_list_0_iff)
    moreover have "job_ok env s j" using wf by (simp add: pool_wf_def)
    ultimately show ?thesis using that q by (auto simp: job_ok_def job_done_def split: if_splits)
  qed
  with q show ?thesis by blast
qed

subsection \<open>What the pool promises\<close>


text \<open>C15. Every submitted job gets done: the workers alone cannot run forever, and in whatever order they
  move, when none of them can move any more the queue is empty and each job that was there holds
  the rendering of its arguments. No wake-up is lost, and a shutdown does not leave jobs behind.\<close>

theorem render_pool_finishes:
  assumes "pool_reached env s" and "rp_workers s \<noteq> []"
  shows "wfp (\<lambda>s' s. works env s s') \<and>
    (\<forall>s'. (works env)\<^sup>*\<^sup>* s s' \<and> (\<nexists>s''. works env s' s'') \<longrightarrow>
       rp_queue s' = [] \<and>
       (\<forall>j job. rp_heap s j = Some job \<longrightarrow>
          (\<exists>job'. rp_heap s' j = Some job' \<and> j_done job' \<and> j_result job' = re_render env (j_args job))))"
proof (intro conjI allI impI)
  show "wfp (\<lambda>s' s. works env s s')" by (rule works_wf)
  fix s'
  assume a: "(works env)\<^sup>*\<^sup>* s s' \<and> (\<nexists>s''. works env s' s'')"
  note S = works_star [OF conjunct1 [OF a] reached_wf [OF assms(1)]]
  from S assms(2) have "rp_workers s' \<noteq> []" by blast
  note I = stuck_idle [OF conjunct1 [OF S] this conjunct2 [OF a]]
  show "rp_queue s' = []" using I by blast
  fix j job
  assume "rp_heap s j = Some job"
  with S obtain job' where j': "rp_heap s' j = Some job'" "j_args job' = j_args job"
    unfolding same_jobs_def by blast
  with I have "job_done env s' j" by blast
  with j' show "\<exists>job'. rp_heap s' j = Some job' \<and> j_done job' \<and> j_result job' = re_render env (j_args job)"
    by (simp add: job_done_def)
qed

text \<open>C40. \<^verbatim>\<open>render_pool_try_get\<close> does not take the mutex of the job: a client that asks between the moment
  when the worker marks the job as done and the moment when it signals and unlocks frees the job under the
  worker, which then uses freed memory.\<close>

theorem try_get_races_with_worker:
  assumes "pool_reached env s" and "i < length (rp_workers s)" and "rp_workers s ! i = Storing j"
    and "find_job (rp_heap s) t c (rp_all s) = Inr (Some j)"
  shows "\<exists>b s'. render_pool_try_get t c s = Inr (1, b, s') \<and> worker_step env i s' = Some (Inl Out_of_bounds)"
proof -
  from reached_wf [OF assms(1)] have "job_ok env s j" by (simp add: pool_wf_def)
  moreover have "0 < count_list (rp_workers s) (Storing j)" using count_list_nth [OF assms(2)] assms(3) by simp
  ultimately obtain job where "rp_heap s j = Some job" "j_done job"
    by (cases "rp_heap s j") (auto simp: job_ok_def split: if_splits)
  with assms(2-4) show ?thesis
    by (simp add: render_pool_try_get_def remove_from_all_jobs_locked_def worker_step_def)
qed

subsection \<open>A run\<close>

definition sample_rpe :: rp_env where
  "sample_rpe =
     \<lparr>re_alloc = (\<lambda>_. True), re_job_size = 400, re_cond_ok = True, re_mtx_ok = True,
      re_render = (\<lambda>a. sample_bitmap\<lparr>bm_x := ra_disp_w a\<rparr>)\<rparr>"

definition sample_args :: render_args where
  "sample_args =
     \<lparr>ra_markup = Some ''A'', ra_disp_w = 720, ra_disp_h = 576, ra_fontsize = 20, ra_fontfam = None,
      ra_fontstyle = None, ra_fgcolor = None, ra_outlinecolor = None, ra_shadowcolor = None,
      ra_bgcolor = None, ra_palette_mode = None, ra_pos = None\<rparr>"

definition sample_job :: RenderJob where
  "sample_job =
     \<lparr>j_args = sample_args\<lparr>ra_pos := Some default_pos\<rparr>, j_result = empty_bitmap, j_done = False, j_mtx = False,
      j_waiters = 0, j_freed = False, j_track = 0, j_cue = 5\<rparr>"

definition sample_done :: RenderJob where
  "sample_done = sample_job\<lparr>j_result := sample_bitmap\<lparr>bm_x := 720\<rparr>, j_done := True\<rparr>"

text \<open>One worker and one job: submitted, taken, stored and left.\<close>

definition sample_pool :: "RenderJob option \<Rightarrow> jid list \<Rightarrow> jid list \<Rightarrow> worker \<Rightarrow> rpool" where
  "sample_pool job q all w =
     \<lparr>rp_heap = Map.empty(0 := job), rp_queue = q, rp_all = all, rp_running = True,
      rp_active = True, rp_workers = [w]\<rparr>"

lemma sample_init: "pool_reached sample_rpe (sample_pool None [] [] Idle)"
  by (rule pool_reached.init [of 1 "\<lambda>_. True" 1])
    (simp_all add: render_pool_init_def pool_off_def sample_pool_def MAX_POOL_THREADS_def)

lemma sample_submit: "pool_reached sample_rpe (sample_pool (Some sample_job) [0] [0] Idle)"
proof (rule pool_reached.step [OF sample_init pool_step.submit])
  show "rp_heap (sample_pool None [] [] Idle) 0 = None" "may_wake 0 (sample_pool None [] [] Idle)"
    by (simp_all add: sample_pool_def may_wake_def)
  show "render_pool_submit_async sample_rpe 0 0 0 5 sample_args (sample_pool None [] [] Idle) =
      (0, sample_pool (Some sample_job) [0] [0] Idle)"
    by (simp add: render_pool_submit_async_def sample_pool_def sample_rpe_def new_job_def init_job_strings_def
      dup_ok_def sample_args_def sample_job_def MAX_QUEUE_DEPTH_def job_signal_def)
qed

lemma sample_steps:
  "worker_step sample_rpe 0 (sample_pool (Some sample_job) [0] [0] Idle) =
     Some (Inr (sample_pool (Some sample_job) [] [0] (Rendering 0)))"
  "worker_step sample_rpe 0 (sample_pool (Some sample_job) [] [0] (Rendering 0)) =
     Some (Inr (sample_pool (Some (sample_done\<lparr>j_mtx := True\<rparr>)) [] [0] (Storing 0)))"
  "worker_step sample_rpe 0 (sample_pool (Some (sample_done\<lparr>j_mtx := True\<rparr>)) [] [0] (Storing 0)) =
     Some (Inr (sample_pool (Some sample_done) [] [0] Idle))"
  "worker_step sample_rpe 0 (sample_pool (Some sample_done) [] [0] Idle) =
     Some (Inr (sample_pool (Some sample_done) [] [0] Asleep))"
  by (simp_all add: worker_step_def sample_pool_def set_worker_def sample_rpe_def sample_done_def
    sample_job_def sample_args_def)

lemma sample_reached:
  "pool_reached sample_rpe (sample_pool (Some (sample_done\<lparr>j_mtx := True\<rparr>)) [] [0] (Storing 0))"
  "pool_reached sample_rpe (sample_pool (Some sample_done) [] [0] Idle)"
  using sample_submit sample_steps by (blast intro: pool_reached.step pool_step.work)+


theorem render_pool_finishes_witness:
  "\<exists>s'. (works sample_rpe)\<^sup>*\<^sup>* (sample_pool (Some sample_job) [0] [0] Idle) s' \<and>
     (\<exists>job. rp_heap s' 0 = Some job \<and> j_done job \<and> bm_x (j_result job) = 720)"
proof -
  let ?s = "sample_pool (Some sample_job) [0] [0] Idle" and ?s' = "sample_pool (Some sample_done) [] [0] Asleep"
  have run: "(works sample_rpe)\<^sup>*\<^sup>* ?s ?s'"
    by (rule converse_rtranclp_into_rtranclp worksI sample_steps rtranclp.rtrancl_refl)+
  have "worker_step sample_rpe i ?s' = None" for i
    by (cases i) (simp_all add: worker_step_def sample_pool_def)
  then have stuck: "\<nexists>s''. works sample_rpe ?s' s''" by (simp add: works_def)
  have "rp_workers ?s \<noteq> []" "rp_heap ?s 0 = Some sample_job" by (simp_all add: sample_pool_def)
  with render_pool_finishes [OF sample_submit] run stuck obtain job' where
    "rp_heap ?s' 0 = Some job'" "j_done job'" "j_result job' = re_render sample_rpe (j_args sample_job)" by blast
  with run show ?thesis by (auto simp: sample_rpe_def sample_job_def sample_args_def)
qed

theorem try_get_races_with_worker_witness:
  "\<exists>b s'. render_pool_try_get 0 5 (sample_pool (Some (sample_done\<lparr>j_mtx := True\<rparr>)) [] [0] (Storing 0)) = Inr (1, b, s') \<and>
     worker_step sample_rpe 0 s' = Some (Inl Out_of_bounds)"
  by (rule try_get_races_with_worker [OF sample_reached(1), where j = 0])
    (simp_all add: sample_pool_def sample_done_def sample_job_def)

end
