(* ===== verification/Palette.thy ===== *)
theory Palette
  imports Clib "HOL-Library.Word"
begin

unbundle bit_operations_syntax

text \<open>
  The palettes of \<^verbatim>\<open>render_pango.c\<close>, of which every bitmap has one, and the search for the entry that is
  nearest to a colour. Colours are 32-bit words, alpha in the highest byte.
\<close>

subsection \<open>Colours\<close>

definition alpha_of :: "32 word \<Rightarrow> int" where "alpha_of p = uint (drop_bit 24 p AND 255)"
definition red_of :: "32 word \<Rightarrow> int" where "red_of p = uint (drop_bit 16 p AND 255)"
definition green_of :: "32 word \<Rightarrow> int" where "green_of p = uint (drop_bit 8 p AND 255)"
definition blue_of :: "32 word \<Rightarrow> int" where "blue_of p = uint (p AND 255)"

lemma and_255_bounds: "0 \<le> uint (w AND 255) \<and> uint (w AND 255) \<le> 255" for w :: "32 word"
proof -
  have "w AND 255 \<le> 255" by (rule word_and_le1)
  then have "uint (w AND 255) \<le> uint (255 :: 32 word)" by (simp add: word_le_def)
  then show ?thesis by simp
qed

lemma channel_bounds:
  "0 \<le> red_of p \<and> red_of p \<le> 255" "0 \<le> green_of p \<and> green_of p \<le> 255" "0 \<le> blue_of p \<and> blue_of p \<le> 255"
  by (simp_all add: red_of_def green_of_def blue_of_def and_255_bounds)

subsection \<open>Palettes\<close>

definition broadcast_palette :: "32 word list" where
  "broadcast_palette =
     [0x00000000, 0xFFFFFFFF, 0xFFFFFF00, 0xFF00FFFF, 0xFF00FF00, 0xFFFF00FF, 0xFFFF0000, 0xFF0000FF,
      0xFF000000, 0xFF7F7F7F, 0xFF7F7F00, 0xFF007F7F, 0xFF007F00, 0xFF7F007F, 0xFF7F0000, 0xFF00007F]"

definition init_palette :: "cstr option \<Rightarrow> 32 word list" where
  "init_palette mode =
     (case mode of
        Some m \<Rightarrow>
          if strcasecmp_eq m ''greyscale'' then
            0 # map (\<lambda>i. let v = (of_nat ((i - 1) * 17) :: 32 word)
                         in push_bit 24 255 OR push_bit 16 v OR push_bit 8 v OR v) [1..<16]
          else if strcasecmp_eq m ''broadcast'' then broadcast_palette
          else if strcasecmp_eq m ''ebu-broadcast'' then broadcast_palette
          else
            [0x00000000, 0xFFFFFFFF, 0xFFFFFF00, 0xFF00FFFF, 0xFF00FF00, 0xFFFF00FF, 0xFFFF0000, 0xFF000000] @
            replicate 8 0
      | None \<Rightarrow>
          [0x00000000, 0xFFFFFFFF, 0xFFFFFF00, 0xFF00FFFF, 0xFF00FF00, 0xFFFF00FF, 0xFFFF0000, 0xFF000000] @
          replicate 8 0)"

lemma init_palette_facts [simp]:
  "length (init_palette mode) = 16" "init_palette mode \<noteq> []" "init_palette mode ! 0 = 0"
  by (simp_all add: init_palette_def broadcast_palette_def split: option.split)

definition color_distance :: "32 word \<Rightarrow> 32 word \<Rightarrow> int" where
  "color_distance c p =
     (let dr = red_of c - red_of p; dg = green_of c - green_of p; db = blue_of c - blue_of p
      in dr * dr + dg * dg + db * db)"

fun nearest_loop :: "32 word \<Rightarrow> nat \<Rightarrow> 32 word list \<Rightarrow> nat \<Rightarrow> int \<Rightarrow> nat" where
  "nearest_loop argb i [] best bestdiff = best"
| "nearest_loop argb i (p # ps) best bestdiff =
     (let diff = color_distance argb p
      in if diff < bestdiff then nearest_loop argb (i + 1) ps i diff
         else nearest_loop argb (i + 1) ps best bestdiff)"

definition nearest_palette_index :: "32 word list \<Rightarrow> 32 word \<Rightarrow> nat" where
  "nearest_palette_index palette argb = nearest_loop argb 0 palette 1 INT_MAX"

subsection \<open>The nearest entry\<close>

lemma color_distance_bounds: "0 \<le> color_distance c p \<and> color_distance c p < INT_MAX"
proof -
  have sq: "(a - b) * (a - b) \<le> 65025" if "0 \<le> a \<and> a \<le> 255" "0 \<le> b \<and> b \<le> 255" for a b :: int
  proof -
    have "\<bar>a - b\<bar> * \<bar>a - b\<bar> \<le> 255 * 255" using that by (intro mult_mono) auto
    then show ?thesis by simp
  qed
  show ?thesis
    using sq [OF channel_bounds(1) channel_bounds(1), of c p] sq [OF channel_bounds(2) channel_bounds(2), of c p]
      sq [OF channel_bounds(3) channel_bounds(3), of c p]
    by (simp add: color_distance_def Let_def INT_MAX_def)
qed

text \<open>\<open>best\<close> is the answer for the entries \<open>qs\<close> that were seen.\<close>

definition nearest_in :: "32 word \<Rightarrow> 32 word list \<Rightarrow> nat \<Rightarrow> bool" where
  "nearest_in c ps k \<longleftrightarrow>
     k < length ps \<and> (\<forall>j<length ps. color_distance c (ps ! k) \<le> color_distance c (ps ! j)) \<and>
     (\<forall>j<k. color_distance c (ps ! k) < color_distance c (ps ! j))"

lemma nearest_in_snoc:
  assumes "nearest_in c qs k"
  shows "nearest_in c (qs @ [p]) (if color_distance c p < color_distance c (qs ! k) then length qs else k)"
  using assms by (auto simp: nearest_in_def nth_append less_Suc_eq)

lemma nearest_loop_in:
  "nearest_in c qs k \<Longrightarrow> d = color_distance c (qs ! k) \<Longrightarrow>
   nearest_in c (qs @ ps) (nearest_loop c (length qs) ps k d)"
proof (induction ps arbitrary: qs k d)
  case (Cons p ps)
  let ?k = "if color_distance c p < color_distance c (qs ! k) then length qs else k"
  have n: "nearest_in c (qs @ [p]) ?k" using Cons.prems(1) by (rule nearest_in_snoc)
  have k: "k < length qs" using Cons.prems(1) by (simp add: nearest_in_def)
  from Cons.IH [OF n refl] k show ?case by (auto simp: Cons.prems(2) Let_def nth_append split: if_splits)
qed simp

lemma nearest_palette_index_in:
  assumes "palette \<noteq> []"
  shows "nearest_in argb palette (nearest_palette_index palette argb)"
proof -
  obtain p ps where p: "palette = p # ps" using assms by (cases palette) auto
  have "nearest_in argb [p] 0" by (simp add: nearest_in_def)
  from nearest_loop_in [OF this refl, of ps] color_distance_bounds [of argb p]
  show ?thesis by (simp add: p nearest_palette_index_def)
qed

lemma nearest_palette_index_bound: "nearest_palette_index (init_palette mode) c < 16"
  using nearest_palette_index_in [of "init_palette mode" c] by (simp add: nearest_in_def)

text \<open>C33. \<^verbatim>\<open>nearest_palette_index\<close> returns the first of the entries that are nearest to the colour. Alpha does not
  count, and entry 0, which is transparent, has the channels of black: in every palette a pixel that is
  opaque black, the default for outlines, is mapped to the transparent entry.\<close>

theorem nearest_palette_index_nearest:
  "(palette \<noteq> [] \<longrightarrow>
      nearest_palette_index palette argb < length palette \<and>
      (\<forall>j<length palette. color_distance argb (palette ! nearest_palette_index palette argb)
         \<le> color_distance argb (palette ! j)) \<and>
      (\<forall>j<nearest_palette_index palette argb.
         color_distance argb (palette ! nearest_palette_index palette argb) < color_distance argb (palette ! j))) \<and>
   nearest_palette_index (init_palette mode) 0xFF000000 = 0 \<and> alpha_of (init_palette mode ! 0) = 0"
proof (intro conjI impI)
  assume "palette \<noteq> []"
  from nearest_palette_index_in [OF this] show
    "nearest_palette_index palette argb < length palette"
    "\<forall>j<length palette. color_distance argb (palette ! nearest_palette_index palette argb)
       \<le> color_distance argb (palette ! j)"
    "\<forall>j<nearest_palette_index palette argb.
       color_distance argb (palette ! nearest_palette_index palette argb) < color_distance argb (palette ! j)"
    by (simp_all add: nearest_in_def)
next
  let ?p = "init_palette mode" and ?c = "0xFF000000 :: 32 word"
  have p: "?p \<noteq> []" "?p ! 0 = 0" by simp_all
  have "color_distance ?c 0 = 0" by (simp add: color_distance_def red_of_def green_of_def blue_of_def)
  with nearest_palette_index_in [OF p(1), of ?c] p(2) color_distance_bounds
  show "nearest_palette_index ?p ?c = 0" unfolding nearest_in_def by (metis neq0_conv not_le)
  show "alpha_of (?p ! 0) = 0" by (simp add: p(2) alpha_of_def)
qed

theorem nearest_palette_index_nearest_witness:
  "nearest_palette_index (init_palette (Some ''broadcast'')) 0xFFFE0102 < 16 \<and>
   nearest_palette_index (init_palette (Some ''broadcast'')) 0xFF000000 = 0"
  using nearest_palette_index_nearest [of "init_palette (Some ''broadcast'')" "0xFFFE0102" "Some ''broadcast''"]
  by simp

end
