(* ===== verification/Render_ass.thy ===== *)
theory Render_ass
  imports Palette Dvb_sub Srt_markup
begin

unbundle bit_operations_syntax

text \<open>
  What \<^verbatim>\<open>render_ass.c\<close> does around libass: colours and events on the way in, and on the way out the image
  tiles of a frame, which \<^verbatim>\<open>render_ass_frame\<close> draws into one indexed bitmap. The tiles are what
  \<^verbatim>\<open>ass_render_frame\<close> returns and so a parameter; their coordinates are taken as integers without
  overflow, as for tiles inside a video frame. The lemmas say what every pixel of the bitmap is.
\<close>

subsection \<open>Colours\<close>

definition hex_val_ass :: "char \<Rightarrow> int" where
  "hex_val_ass c =
     (if code (CHR ''0'') \<le> code c \<and> code c \<le> code (CHR ''9'') then int (code c) - int (code (CHR ''0''))
      else if code (CHR ''a'') \<le> code c \<and> code c \<le> code (CHR ''f'') then 10 + (int (code c) - int (code (CHR ''a'')))
      else if code (CHR ''A'') \<le> code c \<and> code c \<le> code (CHR ''F'') then 10 + (int (code c) - int (code (CHR ''A'')))
      else - 1)"

definition parse_hex_byte :: "cstr \<Rightarrow> nat option" where
  "parse_hex_byte s =
     (let hi = hex_val_ass (s ! 0); lo = hex_val_ass (s ! 1)
      in if hi < 0 \<or> lo < 0 then None else Some (nat (push_bit 4 hi OR lo)))"

text \<open>The bytes at the odd offsets of a string that starts with \<^verbatim>\<open>#\<close>; \<open>None\<close> where one is not hexadecimal.\<close>

fun hex_bytes :: "nat \<Rightarrow> cstr \<Rightarrow> nat list option" where
  "hex_bytes 0 s = Some []"
| "hex_bytes (Suc n) s =
     Option.bind (parse_hex_byte s) (\<lambda>v. Option.bind (hex_bytes n (drop 2 s)) (\<lambda>vs. Some (v # vs)))"

definition ass_white :: cstr where "ass_white = ''&H00FFFFFF''"

definition ass_color :: "nat \<Rightarrow> nat \<Rightarrow> nat \<Rightarrow> nat \<Rightarrow> cstr" where
  "ass_color a r g b = ''&H'' @ hex2 (255 - a mod 256) @ hex2 (b mod 256) @ hex2 (g mod 256) @ hex2 (r mod 256)"

definition render_ass_hex_to_ass_color :: "cstr option \<Rightarrow> cstr" where
  "render_ass_hex_to_ass_color hexstr =
     (case hexstr of
        None \<Rightarrow> ass_white
      | Some h \<Rightarrow>
          if h = [] \<or> hd h \<noteq> CHR ''#'' then ass_white
          else if length h = 7 then
            (case hex_bytes 3 (tl h) of Some [r, g, b] \<Rightarrow> ass_color 0 r g b | _ \<Rightarrow> ass_white)
          else if length h = 9 then
            (case hex_bytes 4 (tl h) of Some [a, r, g, b] \<Rightarrow> ass_color a r g b | _ \<Rightarrow> ass_white)
          else ass_white)"

subsection \<open>Styles and events\<close>

text \<open>The header that is handed to \<^verbatim>\<open>ass_process_data\<close>, or \<open>None\<close> where there is no memory for a long one.\<close>

definition style_header :: "cstr \<Rightarrow> int \<Rightarrow> cstr \<Rightarrow> cstr \<Rightarrow> cstr \<Rightarrow> cstr" where
  "style_header font fsize fg_ass outline_ass shadow_ass =
     ''[Script Info]'' @ LF # ''ScriptType: v4.00+'' @ LF # ''PlayResX: 720'' @ LF # ''PlayResY: 576'' @ LF # LF #
     ''[V4+ Styles]'' @ LF #
     ''Format: Name, Fontname, Fontsize, PrimaryColour, SecondaryColour, OutlineColour, BackColour, Bold, Italic, '' @
     ''Underline, StrikeOut, ScaleX, ScaleY, Spacing, Angle, BorderStyle, Outline, Shadow, Alignment, MarginL, '' @
     ''MarginR, MarginV, Encoding'' @ LF #
     ''Style: Default,'' @ font @ '','' @ show_int fsize @ '','' @ fg_ass @ '','' @ fg_ass @ '','' @
     outline_ass @ '','' @ shadow_ass @ '',0,0,0,0,100,100,0,0,1,0,0,2,10,10,10,1'' @ LF # LF #
     ''[Events]'' @ LF #
     ''Format: Layer, Start, End, Style, Name, MarginL, MarginR, MarginV, Effect, Text'' @ [LF]"

definition render_ass_set_style :: "(nat \<Rightarrow> bool) \<Rightarrow> cstr \<Rightarrow> int \<Rightarrow> cstr \<Rightarrow> cstr \<Rightarrow> cstr \<Rightarrow> cstr option" where
  "render_ass_set_style alloc font fsize fg outline shadow =
     (let header = style_header font fsize (render_ass_hex_to_ass_color (Some fg))
                     (render_ass_hex_to_ass_color (Some outline)) (render_ass_hex_to_ass_color (Some shadow))
      in if length header \<ge> 2048 then (if alloc (length header + 1) then Some header else None)
         else Some header)"

text \<open>Line breaks, written into a buffer of \<open>cap\<close> bytes.\<close>

definition emit_to :: "nat \<Rightarrow> cstr \<Rightarrow> cstr \<Rightarrow> cstr cres" where
  "emit_to cap s out = (if length out + length s \<le> cap then Inr (out @ s) else Inl Out_of_bounds)"

function linebreak_loop :: "nat \<Rightarrow> cstr \<Rightarrow> cstr \<Rightarrow> cstr cres" where
  "linebreak_loop cap [] out = Inr out"
| "linebreak_loop cap (c # cs) out =
     (if c = CR then
        sbind (emit_to cap [BSL, CHR ''N''] out) (linebreak_loop cap (if cs \<noteq> [] \<and> hd cs = LF then tl cs else cs))
      else if c = LF then sbind (emit_to cap [BSL, CHR ''N''] out) (linebreak_loop cap cs)
      else sbind (emit_to cap [c] out) (linebreak_loop cap cs))"
  by pat_completeness auto
termination by (relation "measure (\<lambda>(_, s, _). length s)") auto

definition ass_normalize_linebreaks :: "(nat \<Rightarrow> bool) \<Rightarrow> cstr option \<Rightarrow> cstr option cres" where
  "ass_normalize_linebreaks alloc text =
     (case text of
        None \<Rightarrow> Inr (if alloc 1 then Some [] else None)
      | Some t \<Rightarrow>
          if t = [] then Inr (if alloc 1 then Some [] else None)
          else
            let extra = length (filter (\<lambda>c. c = CR \<or> c = LF) t); out_len = length t + extra + 1
            in if \<not> alloc out_len then Inr None
               else sbind (linebreak_loop out_len t []) (\<lambda>out.
                    if length out < out_len then Inr (Some out) else Inl Out_of_bounds))"

record ASS_Event =
  ev_Start :: int
  ev_Duration :: int
  ev_Style :: int
  ev_Text :: "cstr option"

definition clamp_int :: "int \<Rightarrow> int" where
  "clamp_int v = (if v < INT_MIN then INT_MIN else if v > INT_MAX then INT_MAX else v)"

text \<open>\<open>slot\<close> tells whether libass has room for the event; \<^verbatim>\<open>end_ms - start_ms\<close> is a 64-bit subtraction.\<close>

definition render_ass_add_event :: "(nat \<Rightarrow> bool) \<Rightarrow> bool \<Rightarrow> cstr option \<Rightarrow> int \<Rightarrow> int \<Rightarrow> ASS_Event list \<Rightarrow>
    ASS_Event list cres" where
  "render_ass_add_event alloc slot text start_ms end_ms evs =
     (if \<not> slot then Inr evs
      else sbind (ass_normalize_linebreaks alloc text) (\<lambda>dup_text.
        Inr (evs @ [\<lparr>ev_Start = clamp_int start_ms, ev_Duration = clamp_int (end_ms - start_ms), ev_Style = 0,
                     ev_Text = dup_text\<rparr>])))"

subsection \<open>The tiles of a frame\<close>

record ASS_Image =
  im_w :: int
  im_h :: int
  im_stride :: int
  im_bitmap :: "8 word list option"
  im_color :: "32 word"
  im_dst_x :: int
  im_dst_y :: int

definition render_ass_validate_image_tile :: "int \<Rightarrow> int \<Rightarrow> int \<Rightarrow> 8 word list option \<Rightarrow> bool" where
  "render_ass_validate_image_tile w h stride bitmap =
     (if bitmap = None then False
      else if w \<le> 0 \<or> h \<le> 0 then False
      else if stride \<le> 0 then False
      else if stride < w then False
      else
        let pixels = nat stride * nat h mod (SIZE_MAX + 1)
        in if pixels = 0 \<or> pixels > 10000000 then False else True)"

type_synonym box = "int \<times> int \<times> int \<times> int"

fun union_box :: "ASS_Image list \<Rightarrow> box \<Rightarrow> box" where
  "union_box [] b = b"
| "union_box (t # ts) (minx, miny, maxx, maxy) =
     (if im_w t \<le> 0 \<or> im_h t \<le> 0 then union_box ts (minx, miny, maxx, maxy)
      else union_box ts
        (if im_dst_x t < minx then im_dst_x t else minx, if im_dst_y t < miny then im_dst_y t else miny,
         if im_dst_x t + im_w t > maxx then im_dst_x t + im_w t else maxx,
         if im_dst_y t + im_h t > maxy then im_dst_y t + im_h t else maxy))"

definition MAX_COLOR_CACHE :: nat where "MAX_COLOR_CACHE = 128"

text \<open>The cache of colours: its entries, and the place that is overwritten next once it is full.\<close>

type_synonym color_cache = "(32 word \<times> nat) list \<times> nat"

definition cached_index :: "32 word list \<Rightarrow> 32 word \<Rightarrow> color_cache \<Rightarrow> nat \<times> color_cache" where
  "cached_index palette rgba cc =
     (case cc of (cache, evict) \<Rightarrow>
        (case map_of cache rgba of
           Some palidx \<Rightarrow> (palidx, cc)
         | None \<Rightarrow>
             let palidx = nearest_palette_index palette rgba
             in (palidx,
                 if length cache < MAX_COLOR_CACHE then (cache @ [(rgba, palidx)], evict)
                 else (cache[evict := (rgba, palidx)], (evict + 1) mod MAX_COLOR_CACHE))))"

definition tile_rgba :: "32 word \<Rightarrow> 32 word" where
  "tile_rgba argb =
     (let a = drop_bit 24 argb AND 255; r = drop_bit 16 argb AND 255; g = drop_bit 8 argb AND 255; b = argb AND 255
      in push_bit 24 a OR push_bit 16 r OR push_bit 8 g OR b)"

text \<open>One pixel of a tile at row \<open>yy\<close> and column \<open>xx\<close>; the state is the coverage buffer and the index buffer.\<close>

type_synonym planes = "8 word list \<times> 8 word list"

definition plot :: "box \<Rightarrow> ASS_Image \<Rightarrow> nat \<Rightarrow> int \<times> int \<Rightarrow> planes \<Rightarrow> planes cres" where
  "plot b t palidx yx st =
     (case (b, yx, st) of ((minx, miny, w, h), (yy, xx), (covbuf, idxbuf)) \<Rightarrow>
        let k = nat (yy * im_stride t + xx)
        in if length (the (im_bitmap t)) \<le> k then Inl Out_of_bounds
           else
             let cov = the (im_bitmap t) ! k; dx = im_dst_x t + xx - minx; dy = im_dst_y t + yy - miny;
                 idx = nat dy * nat w + nat dx
             in if cov > 0 \<and> dx \<ge> 0 \<and> dx < w \<and> dy \<ge> 0 \<and> dy < h \<and> idx < length idxbuf \<and> cov > covbuf ! idx
                then Inr (covbuf[idx := cov], idxbuf[idx := of_nat palidx])
                else Inr st)"

fun plot_all :: "box \<Rightarrow> ASS_Image \<Rightarrow> nat \<Rightarrow> (int \<times> int) list \<Rightarrow> planes \<Rightarrow> planes cres" where
  "plot_all b t palidx [] st = Inr st"
| "plot_all b t palidx (yx # yxs) st = sbind (plot b t palidx yx st) (plot_all b t palidx yxs)"

fun draw_tiles :: "32 word list \<Rightarrow> box \<Rightarrow> ASS_Image list \<Rightarrow> color_cache \<Rightarrow> planes \<Rightarrow> planes cres" where
  "draw_tiles palette b [] cc st = Inr st"
| "draw_tiles palette b (t # ts) cc st =
     (case cached_index palette (tile_rgba (im_color t)) cc of (palidx, cc') \<Rightarrow>
        if \<not> render_ass_validate_image_tile (im_w t) (im_h t) (im_stride t) (im_bitmap t)
        then draw_tiles palette b ts cc' st
        else sbind (plot_all b t palidx (List.product [0..im_h t - 1] [0..im_w t - 1]) st)
               (draw_tiles palette b ts cc'))"

subsection \<open>A frame\<close>

text \<open>The cache of palettes, the entry used last in front; an entry that is not in use is \<open>None\<close>.\<close>

type_synonym palette_cache = "(cstr option \<times> 32 word list) option list"

definition PALETTE_CACHE_SIZE :: nat where "PALETTE_CACHE_SIZE = 4"

fun find_mode :: "cstr option \<Rightarrow> palette_cache \<Rightarrow> nat \<Rightarrow> nat option" where
  "find_mode mode [] ci = None"
| "find_mode mode (e # es) ci =
     (case e of
        None \<Rightarrow> find_mode mode es (ci + 1)
      | Some (m, _) \<Rightarrow> if m = mode then Some ci else find_mode mode es (ci + 1))"

definition cached_palette :: "(nat \<Rightarrow> bool) \<Rightarrow> cstr option \<Rightarrow> palette_cache \<Rightarrow> 32 word list \<times> palette_cache" where
  "cached_palette alloc palette_mode cache =
     (case find_mode palette_mode cache 0 of
        Some ci \<Rightarrow> (snd (the (cache ! ci)), cache ! ci # take ci cache @ drop (ci + 1) cache)
      | None \<Rightarrow>
          let palbuf = init_palette palette_mode;
              insert_cache = (case palette_mode of None \<Rightarrow> True | Some m \<Rightarrow> alloc (length m + 1))
          in (palbuf, if insert_cache then Some (palette_mode, palbuf) # butlast cache else cache))"

text \<open>Whether the four allocations succeed.\<close>

record frame_env =
  fe_strdup :: "nat \<Rightarrow> bool"
  fe_idxbuf :: bool
  fe_covbuf :: bool
  fe_palette :: bool

definition no_bitmap :: Bitmap where
  "no_bitmap =
     \<lparr>bm_idxbuf = None, bm_palette = None, bm_w = 0, bm_h = 0, bm_x = 0, bm_y = 0, bm_nb_colors = 0,
      bm_idxbuf_len = 0, bm_palette_bytes = 0\<rparr>"

text \<open>The palette as it lies in memory, the lowest byte of an entry first.\<close>

definition palette_bytes :: "32 word list \<Rightarrow> 8 word list" where
  "palette_bytes pal = concat (map (\<lambda>p. [ucast p, ucast (drop_bit 8 p), ucast (drop_bit 16 p), ucast (drop_bit 24 p)]) pal)"

definition render_ass_frame :: "frame_env \<Rightarrow> ASS_Image list \<Rightarrow> cstr option \<Rightarrow> palette_cache \<Rightarrow>
    (Bitmap \<times> palette_cache) cres" where
  "render_ass_frame env imgs palette_mode cache =
     (if imgs = [] then Inr (no_bitmap, cache)
      else
        (case union_box imgs (INT_MAX, INT_MAX, INT_MIN, INT_MIN) of (minx, miny, maxx, maxy) \<Rightarrow>
           if minx > maxx \<or> miny > maxy then Inr (no_bitmap, cache)
           else
             let w = maxx - minx; h = maxy - miny
             in if w \<le> 0 \<or> h \<le> 0 then Inr (no_bitmap, cache)
                else
                  let pixels = nat w * nat h mod (SIZE_MAX + 1)
                  in if pixels div nat w \<noteq> nat h then Inr (no_bitmap, cache)
                     else
                       let bm = no_bitmap\<lparr>bm_w := w, bm_h := h, bm_x := minx, bm_y := miny\<rparr>
                       in if \<not> fe_idxbuf env \<or> \<not> fe_covbuf env then Inr (bm, cache)
                          else
                            (case cached_palette (fe_strdup env) palette_mode cache of (palbuf, cache') \<Rightarrow>
                               if \<not> fe_palette env then Inr (bm, cache')
                               else
                                 sbind (draw_tiles palbuf (minx, miny, w, h) imgs ([], 0)
                                          (replicate pixels 0, replicate pixels 0))
                                   (\<lambda>(_, idxbuf).
                                      Inr (bm\<lparr>bm_idxbuf := Some idxbuf, bm_idxbuf_len := pixels,
                                              bm_palette := Some (palette_bytes palbuf), bm_palette_bytes := 64\<rparr>,
                                           cache')))))"

subsection \<open>What a pixel is\<close>

text \<open>The coverage of the pixel at \<open>(x, y)\<close> of the frame by a tile.\<close>

definition tile_valid :: "ASS_Image \<Rightarrow> bool" where
  "tile_valid t \<longleftrightarrow> render_ass_validate_image_tile (im_w t) (im_h t) (im_stride t) (im_bitmap t)"

definition cover :: "ASS_Image \<Rightarrow> int \<Rightarrow> int \<Rightarrow> 8 word" where
  "cover t x y =
     (if tile_valid t \<and> im_dst_x t \<le> x \<and> x < im_dst_x t + im_w t \<and> im_dst_y t \<le> y \<and> y < im_dst_y t + im_h t
      then the (im_bitmap t) ! nat ((y - im_dst_y t) * im_stride t + (x - im_dst_x t)) else 0)"

definition stronger :: "8 word \<times> 8 word \<Rightarrow> 8 word \<times> 8 word \<Rightarrow> 8 word \<times> 8 word" where
  "stronger old new = (if fst new > fst old then new else old)"

text \<open>The coverage and the palette index of a pixel after the tiles, the first of the strongest winning.\<close>

definition pixel_after :: "32 word list \<Rightarrow> ASS_Image list \<Rightarrow> int \<Rightarrow> int \<Rightarrow> 8 word \<times> 8 word" where
  "pixel_after palette ts x y =
     foldl (\<lambda>s t. stronger s (cover t x y, of_nat (nearest_palette_index palette (tile_rgba (im_color t))))) (0, 0) ts"

text \<open>The buffer behind a tile is as large as libass documents it: the last row may end with the tile.\<close>

definition tile_ok :: "ASS_Image \<Rightarrow> bool" where
  "tile_ok t \<longleftrightarrow> (tile_valid t \<longrightarrow> (im_h t - 1) * im_stride t + im_w t \<le> int (length (the (im_bitmap t))))"

lemma tile_validD: "tile_valid t \<Longrightarrow> 0 < im_w t \<and> 0 < im_h t \<and> im_w t \<le> im_stride t"
  by (simp add: tile_valid_def render_ass_validate_image_tile_def split: if_splits)

lemma stronger_zero [simp]: "stronger s (0, p) = s"
  by (simp add: stronger_def)

lemma stronger_idem [simp]: "stronger (stronger s n) n = stronger s n"
  by (simp add: stronger_def)

definition planes_ok :: "box \<Rightarrow> planes \<Rightarrow> bool" where
  "planes_ok b st \<longleftrightarrow>
     (case b of (minx, miny, w, h) \<Rightarrow>
        0 < w \<and> 0 < h \<and> length (fst st) = nat w * nat h \<and> length (snd st) = nat w * nat h)"

text \<open>The state of the pixel in column \<open>dx\<close> and row \<open>dy\<close> of the box.\<close>

definition pixel_at :: "box \<Rightarrow> planes \<Rightarrow> int \<Rightarrow> int \<Rightarrow> 8 word \<times> 8 word" where
  "pixel_at b st dx dy =
     (case b of (minx, miny, w, h) \<Rightarrow> (fst st ! (nat dy * nat w + nat dx), snd st ! (nat dy * nat w + nat dx)))"

lemma pixel_index_inj:
  assumes "a * w + b = c * w + d" and "b < w" and "d < (w :: nat)"
  shows "a = c \<and> b = d"
proof -
  have "(a * w + b) div w = a" "(c * w + d) div w = c" using assms(2,3) by simp_all
  with assms(1) have "a = c" by simp
  with assms(1) show ?thesis by simp
qed

lemma pixel_index_bound: "a < h \<Longrightarrow> b < w \<Longrightarrow> a * w + b < w * (h :: nat)"
proof -
  assume "a < h" "b < w"
  then have "a * w + b < Suc a * w" by simp
  also have "\<dots> \<le> h * w" using \<open>a < h\<close> by (intro mult_le_mono1) simp
  finally show ?thesis by (simp add: mult.commute)
qed

lemma plot_ok:
  assumes "planes_ok (minx, miny, w, h) st" and "tile_ok t" and "tile_valid t"
    and "0 \<le> yy" "yy < im_h t" "0 \<le> xx" "xx < im_w t"
  shows "\<exists>st'. plot (minx, miny, w, h) t palidx (yy, xx) st = Inr st' \<and> planes_ok (minx, miny, w, h) st' \<and>
    (\<forall>dx dy. 0 \<le> dx \<longrightarrow> dx < w \<longrightarrow> 0 \<le> dy \<longrightarrow> dy < h \<longrightarrow>
       pixel_at (minx, miny, w, h) st' dx dy =
         (if xx = dx + minx - im_dst_x t \<and> yy = dy + miny - im_dst_y t
          then stronger (pixel_at (minx, miny, w, h) st dx dy) (cover t (dx + minx) (dy + miny), of_nat palidx)
          else pixel_at (minx, miny, w, h) st dx dy))"
proof -
  obtain covbuf idxbuf where st: "st = (covbuf, idxbuf)" by (rule prod.exhaust)
  note v = tile_validD [OF assms(3)]
  let ?k = "nat (yy * im_stride t + xx)" and ?bm = "the (im_bitmap t)"
  let ?dx = "im_dst_x t + xx - minx" and ?dy = "im_dst_y t + yy - miny"
  let ?i = "nat ?dy * nat w + nat ?dx"
  have "yy * im_stride t \<le> (im_h t - 1) * im_stride t" using assms(5) v by (intro mult_right_mono) auto
  moreover have "(im_h t - 1) * im_stride t + im_w t \<le> int (length ?bm)" using assms(2,3) by (simp add: tile_ok_def)
  ultimately have "yy * im_stride t + xx < int (length ?bm)" using assms(7) by linarith
  moreover have "0 \<le> yy * im_stride t + xx" using assms(4,6) v by simp
  ultimately have k: "?k < length ?bm" by linarith
  have len: "length covbuf = nat w * nat h" "length idxbuf = nat w * nat h" "0 < w" "0 < h"
    using assms(1) by (simp_all add: planes_ok_def st)
  let ?hit = "?bm ! ?k > 0 \<and> ?dx \<ge> 0 \<and> ?dx < w \<and> ?dy \<ge> 0 \<and> ?dy < h \<and> ?i < length idxbuf \<and> ?bm ! ?k > covbuf ! ?i"
  let ?st = "if ?hit then (covbuf[?i := ?bm ! ?k], idxbuf[?i := of_nat palidx]) else st"
  have "plot (minx, miny, w, h) t palidx (yy, xx) st = Inr ?st"
    using k by (simp add: plot_def st Let_def)
  moreover have "planes_ok (minx, miny, w, h) ?st" using assms(1) by (simp add: planes_ok_def st)
  moreover have "pixel_at (minx, miny, w, h) ?st dx dy =
         (if xx = dx + minx - im_dst_x t \<and> yy = dy + miny - im_dst_y t
          then stronger (pixel_at (minx, miny, w, h) st dx dy) (cover t (dx + minx) (dy + miny), of_nat palidx)
          else pixel_at (minx, miny, w, h) st dx dy)"
    if d: "0 \<le> dx" "dx < w" "0 \<le> dy" "dy < h" for dx dy
  proof (cases "xx = dx + minx - im_dst_x t \<and> yy = dy + miny - im_dst_y t")
    case True
    then have e: "?dx = dx" "?dy = dy" by simp_all
    have c: "cover t (dx + minx) (dy + miny) = ?bm ! ?k"
      using assms(3-7) True by (simp add: cover_def)
    have i: "nat dy * nat w + nat dx < nat w * nat h" using d by (intro pixel_index_bound) auto
    then have "?hit \<longleftrightarrow> ?bm ! ?k > covbuf ! ?i"
      using d by (simp add: e len) (metis le_less_trans word_zero_le)
    with True i c d show ?thesis by (auto simp: pixel_at_def stronger_def st e len)
  next
    case False
    have "nat dy * nat w + nat dx \<noteq> ?i" if "?dx \<ge> 0" "?dx < w" "?dy \<ge> 0" "?dy < h"
    proof
      assume "nat dy * nat w + nat dx = ?i"
      from pixel_index_inj [OF this] d that have "nat dy = nat ?dy" "nat dx = nat ?dx" by auto
      with d that False show False by auto
    qed
    then have "?hit \<longrightarrow> ?i \<noteq> nat dy * nat w + nat dx" by metis
    then have "pixel_at (minx, miny, w, h) ?st dx dy = pixel_at (minx, miny, w, h) st dx dy"
      by (cases ?hit) (simp_all only: simp_thms if_True if_False pixel_at_def st prod.case fst_conv snd_conv nth_list_update_neq)
    with False show ?thesis by (simp only: if_False)
  qed
  ultimately show ?thesis by blast
qed

lemma plot_all_ok:
  assumes "planes_ok (minx, miny, w, h) st" and "tile_ok t" and "tile_valid t"
    and "set yxs \<subseteq> {0..im_h t - 1} \<times> {0..im_w t - 1}"
  shows "\<exists>st'. plot_all (minx, miny, w, h) t palidx yxs st = Inr st' \<and> planes_ok (minx, miny, w, h) st' \<and>
    (\<forall>dx dy. 0 \<le> dx \<longrightarrow> dx < w \<longrightarrow> 0 \<le> dy \<longrightarrow> dy < h \<longrightarrow>
       pixel_at (minx, miny, w, h) st' dx dy =
         (if (dy + miny - im_dst_y t, dx + minx - im_dst_x t) \<in> set yxs
          then stronger (pixel_at (minx, miny, w, h) st dx dy) (cover t (dx + minx) (dy + miny), of_nat palidx)
          else pixel_at (minx, miny, w, h) st dx dy))"
  using assms(1,4)
proof (induction yxs arbitrary: st)
  case (Cons yx yxs)
  obtain yy xx where yx: "yx = (yy, xx)" by (rule prod.exhaust)
  have r: "0 \<le> yy" "yy < im_h t" "0 \<le> xx" "xx < im_w t" using Cons.prems(2) by (auto simp: yx)
  obtain st1 where p: "plot (minx, miny, w, h) t palidx (yy, xx) st = Inr st1" "planes_ok (minx, miny, w, h) st1"
    and h: "\<And>dx dy. 0 \<le> dx \<Longrightarrow> dx < w \<Longrightarrow> 0 \<le> dy \<Longrightarrow> dy < h \<Longrightarrow> pixel_at (minx, miny, w, h) st1 dx dy =
         (if xx = dx + minx - im_dst_x t \<and> yy = dy + miny - im_dst_y t
          then stronger (pixel_at (minx, miny, w, h) st dx dy) (cover t (dx + minx) (dy + miny), of_nat palidx)
          else pixel_at (minx, miny, w, h) st dx dy)"
    using plot_ok [OF Cons.prems(1) assms(2,3) r, of palidx] by blast
  have sub: "set yxs \<subseteq> {0..im_h t - 1} \<times> {0..im_w t - 1}" using Cons.prems(2) by simp
  obtain st2 where q: "plot_all (minx, miny, w, h) t palidx yxs st1 = Inr st2" "planes_ok (minx, miny, w, h) st2"
    and i: "\<And>dx dy. 0 \<le> dx \<Longrightarrow> dx < w \<Longrightarrow> 0 \<le> dy \<Longrightarrow> dy < h \<Longrightarrow> pixel_at (minx, miny, w, h) st2 dx dy =
         (if (dy + miny - im_dst_y t, dx + minx - im_dst_x t) \<in> set yxs
          then stronger (pixel_at (minx, miny, w, h) st1 dx dy) (cover t (dx + minx) (dy + miny), of_nat palidx)
          else pixel_at (minx, miny, w, h) st1 dx dy)"
    using Cons.IH [OF p(2) sub] by blast
  have "plot_all (minx, miny, w, h) t palidx (yx # yxs) st = Inr st2" using p q by (simp add: yx)
  moreover have "pixel_at (minx, miny, w, h) st2 dx dy =
         (if (dy + miny - im_dst_y t, dx + minx - im_dst_x t) \<in> set (yx # yxs)
          then stronger (pixel_at (minx, miny, w, h) st dx dy) (cover t (dx + minx) (dy + miny), of_nat palidx)
          else pixel_at (minx, miny, w, h) st dx dy)"
    if "0 \<le> dx" "dx < w" "0 \<le> dy" "dy < h" for dx dy
    using h [OF that] i [OF that] by (auto simp: yx)
  ultimately show ?case using q(2) by blast
qed simp

text \<open>The caches deliver what they stand for.\<close>

definition color_cache_ok :: "32 word list \<Rightarrow> color_cache \<Rightarrow> bool" where
  "color_cache_ok palette cc \<longleftrightarrow> (\<forall>(c, p)\<in>set (fst cc). p = nearest_palette_index palette c)"

lemma cached_index_ok:
  assumes "color_cache_ok palette cc" and "cached_index palette c cc = (p, cc')"
  shows "p = nearest_palette_index palette c \<and> color_cache_ok palette cc'"
proof -
  obtain cache evict where cc: "cc = (cache, evict)" by (rule prod.exhaust)
  show ?thesis
  proof (cases "map_of cache c")
    case None
    with assms cc show ?thesis
      by (auto simp: cached_index_def color_cache_ok_def Let_def split: if_splits
          dest!: set_update_subset_insert [THEN subsetD])
  next
    case (Some q)
    with assms cc show ?thesis by (auto simp: cached_index_def color_cache_ok_def dest: map_of_SomeD)
  qed
qed

lemma draw_tiles_ok:
  assumes "planes_ok (minx, miny, w, h) st" and "list_all tile_ok ts" and "color_cache_ok palette cc"
  shows "\<exists>st'. draw_tiles palette (minx, miny, w, h) ts cc st = Inr st' \<and> planes_ok (minx, miny, w, h) st' \<and>
    (\<forall>dx dy. 0 \<le> dx \<longrightarrow> dx < w \<longrightarrow> 0 \<le> dy \<longrightarrow> dy < h \<longrightarrow>
       pixel_at (minx, miny, w, h) st' dx dy =
         foldl (\<lambda>s t. stronger s (cover t (dx + minx) (dy + miny),
             of_nat (nearest_palette_index palette (tile_rgba (im_color t)))))
           (pixel_at (minx, miny, w, h) st dx dy) ts)"
  using assms
proof (induction ts arbitrary: st cc)
  case (Cons t ts)
  obtain p cc' where ci: "cached_index palette (tile_rgba (im_color t)) cc = (p, cc')" by (rule prod.exhaust)
  note P = cached_index_ok [OF Cons.prems(3) ci]
  show ?case
  proof (cases "tile_valid t")
    case False
    then have "cover t x y = 0" for x y by (simp add: cover_def)
    with Cons.IH [OF Cons.prems(1) _ conjunct2 [OF P]] Cons.prems(2) False ci show ?thesis
      by (simp add: tile_valid_def)
  next
    case True
    let ?yxs = "List.product [0..im_h t - 1] [0..im_w t - 1]"
    obtain st1 where p: "plot_all (minx, miny, w, h) t p ?yxs st = Inr st1" "planes_ok (minx, miny, w, h) st1"
      and h: "\<And>dx dy. 0 \<le> dx \<Longrightarrow> dx < w \<Longrightarrow> 0 \<le> dy \<Longrightarrow> dy < h \<Longrightarrow> pixel_at (minx, miny, w, h) st1 dx dy =
         (if (dy + miny - im_dst_y t, dx + minx - im_dst_x t) \<in> set ?yxs
          then stronger (pixel_at (minx, miny, w, h) st dx dy) (cover t (dx + minx) (dy + miny), of_nat p)
          else pixel_at (minx, miny, w, h) st dx dy)"
      using plot_all_ok [OF Cons.prems(1) _ True, of ?yxs p] Cons.prems(2) by auto
    have one: "pixel_at (minx, miny, w, h) st1 dx dy =
        stronger (pixel_at (minx, miny, w, h) st dx dy) (cover t (dx + minx) (dy + miny), of_nat p)"
      if "0 \<le> dx" "dx < w" "0 \<le> dy" "dy < h" for dx dy
    proof (cases "(dy + miny - im_dst_y t, dx + minx - im_dst_x t) \<in> set ?yxs")
      case False
      then have "cover t (dx + minx) (dy + miny) = 0" by (auto simp: cover_def)
      with h [OF that] False show ?thesis by simp
    qed (use h [OF that] in simp)
    obtain st2 where "draw_tiles palette (minx, miny, w, h) ts cc' st1 = Inr st2" "planes_ok (minx, miny, w, h) st2"
      and i: "\<And>dx dy. 0 \<le> dx \<Longrightarrow> dx < w \<Longrightarrow> 0 \<le> dy \<Longrightarrow> dy < h \<Longrightarrow> pixel_at (minx, miny, w, h) st2 dx dy =
         foldl (\<lambda>s t. stronger s (cover t (dx + minx) (dy + miny),
             of_nat (nearest_palette_index palette (tile_rgba (im_color t)))))
           (pixel_at (minx, miny, w, h) st1 dx dy) ts"
      using Cons.IH [OF p(2) _ conjunct2 [OF P]] Cons.prems(2) by auto
    moreover have "draw_tiles palette (minx, miny, w, h) (t # ts) cc st = draw_tiles palette (minx, miny, w, h) ts cc' st1"
      using True p(1) by (simp add: ci tile_valid_def)
    ultimately show ?thesis using one P by (intro exI [of _ st2]) simp
  qed
qed simp

definition palette_cache_ok :: "palette_cache \<Rightarrow> bool" where
  "palette_cache_ok cache \<longleftrightarrow>
     length cache = PALETTE_CACHE_SIZE \<and> (\<forall>m pal. Some (m, pal) \<in> set cache \<longrightarrow> pal = init_palette m)"

lemma find_mode_Some:
  "find_mode mode cache ci = Some k \<Longrightarrow>
   ci \<le> k \<and> k - ci < length cache \<and> (\<exists>pal. cache ! (k - ci) = Some (mode, pal))"
proof (induction cache arbitrary: ci)
  case (Cons e es)
  show ?case
  proof (cases "\<exists>pal. e = Some (mode, pal)")
    case True
    with Cons.prems show ?thesis by auto
  next
    case False
    with Cons.prems have "find_mode mode es (Suc ci) = Some k" by (auto split: option.splits if_splits)
    from Cons.IH [OF this] show ?thesis by (auto simp: nth_Cons' Suc_diff_le dest: Suc_le_lessD)
  qed
qed simp

lemma cached_palette_ok:
  assumes "palette_cache_ok cache" and "cached_palette alloc mode cache = (pal, cache')"
  shows "pal = init_palette mode \<and> palette_cache_ok cache'"
proof (cases "find_mode mode cache 0")
  case None
  have "Some e \<in> set (butlast cache) \<Longrightarrow> Some e \<in> set cache" for e by (rule in_set_butlastD)
  with None assms show ?thesis
    by (auto simp: cached_palette_def palette_cache_ok_def PALETTE_CACHE_SIZE_def Let_def split: if_splits)
next
  case (Some k)
  from find_mode_Some [OF Some] obtain q where k: "k < length cache" "cache ! k = Some (mode, q)" by auto
  have "cache' = Some (mode, q) # take k cache @ drop (k + 1) cache" "pal = q"
    using Some assms(2) k(2) by (auto simp: cached_palette_def)
  moreover have "Some (mode, q) \<in> set cache" using k nth_mem by metis
  moreover have "set (take k cache) \<subseteq> set cache" "set (drop (k + 1) cache) \<subseteq> set cache"
    by (rule set_take_subset set_drop_subset)+
  ultimately show ?thesis using assms(1) k(1) by (auto simp: palette_cache_ok_def)
qed

text \<open>The box around the tiles that are not empty.\<close>

definition drawn :: "ASS_Image list \<Rightarrow> ASS_Image set" where
  "drawn ts = {t \<in> set ts. 0 < im_w t \<and> 0 < im_h t}"

lemma drawn_simps [simp]:
  "drawn [] = {}" "drawn (t # ts) = (if im_w t \<le> 0 \<or> im_h t \<le> 0 then drawn ts else insert t (drawn ts))"
  "finite (drawn ts)"
  by (auto simp: drawn_def)

lemma Min_insert2: "finite S \<Longrightarrow> Min (insert a (insert x S)) = Min (insert (if x < a then x else a) S)" for a :: int
  by (cases "S = {}") (auto simp: min_def)

lemma Max_insert2: "finite S \<Longrightarrow> Max (insert a (insert x S)) = Max (insert (if x > a then x else a) S)" for a :: int
  by (cases "S = {}") (auto simp: max_def)

lemma union_box_eq:
  "union_box ts (a, b, c, d) =
     (Min (insert a (im_dst_x ` drawn ts)), Min (insert b (im_dst_y ` drawn ts)),
      Max (insert c ((\<lambda>t. im_dst_x t + im_w t) ` drawn ts)), Max (insert d ((\<lambda>t. im_dst_y t + im_h t) ` drawn ts)))"
  by (induction ts arbitrary: a b c d) (simp_all only: union_box.simps drawn_simps image_insert if_True if_False
      image_empty Min_singleton Max_singleton Min_insert2 Max_insert2 finite_imageI split: if_split, simp_all)

text \<open>Tiles within a frame: no coordinate overflows.\<close>

definition in_frame :: "ASS_Image \<Rightarrow> bool" where
  "in_frame t \<longleftrightarrow>
     - 1073741824 < im_dst_x t \<and> im_dst_x t + im_w t \<le> 1073741823 \<and>
     - 1073741824 < im_dst_y t \<and> im_dst_y t + im_h t \<le> 1073741823"

lemma union_box_drawn:
  assumes "drawn ts \<noteq> {}" and "\<forall>t\<in>drawn ts. in_frame t"
  shows "union_box ts (INT_MAX, INT_MAX, INT_MIN, INT_MIN) =
     (Min (im_dst_x ` drawn ts), Min (im_dst_y ` drawn ts),
      Max ((\<lambda>t. im_dst_x t + im_w t) ` drawn ts), Max ((\<lambda>t. im_dst_y t + im_h t) ` drawn ts))"
    and "0 < Max ((\<lambda>t. im_dst_x t + im_w t) ` drawn ts) - Min (im_dst_x ` drawn ts)"
    and "0 < Max ((\<lambda>t. im_dst_y t + im_h t) ` drawn ts) - Min (im_dst_y ` drawn ts)"
    and "Max ((\<lambda>t. im_dst_x t + im_w t) ` drawn ts) - Min (im_dst_x ` drawn ts) \<le> 2147483647"
    and "Max ((\<lambda>t. im_dst_y t + im_h t) ` drawn ts) - Min (im_dst_y ` drawn ts) \<le> 2147483647"
proof -
  let ?X = "im_dst_x ` drawn ts" and ?Y = "im_dst_y ` drawn ts"
  let ?R = "(\<lambda>t. im_dst_x t + im_w t) ` drawn ts" and ?B = "(\<lambda>t. im_dst_y t + im_h t) ` drawn ts"
  have ne: "?X \<noteq> {}" "?Y \<noteq> {}" "?R \<noteq> {}" "?B \<noteq> {}" using assms(1) by simp_all
  have fin: "finite ?X" "finite ?Y" "finite ?R" "finite ?B" by simp_all
  have in1: "Min ?X \<in> ?X" "Min ?Y \<in> ?Y" "Max ?R \<in> ?R" "Max ?B \<in> ?B" 
    using Min_in [OF fin(1) ne(1)] Min_in [OF fin(2) ne(2)] Max_in [OF fin(3) ne(3)] Max_in [OF fin(4) ne(4)] .
  have w: "0 < im_w t" "0 < im_h t" if "t \<in> drawn ts" for t using that by (simp_all add: drawn_def)
  have lo: "- 1073741824 < Min ?X" "- 1073741824 < Min ?Y" using in1(1,2) assms(2) by (auto simp: in_frame_def)
  have hi: "Max ?R \<le> 1073741823" "Max ?B \<le> 1073741823" using in1(3,4) assms(2) by (auto simp: in_frame_def)
  obtain t where t: "t \<in> drawn ts" using assms(1) by blast
  have "Min ?X \<le> im_dst_x t" "Min ?Y \<le> im_dst_y t" "im_dst_x t + im_w t \<le> Max ?R" "im_dst_y t + im_h t \<le> Max ?B"
    using t fin by simp_all
  with w [OF t] have "Min ?X < Max ?R" "Min ?Y < Max ?B" by linarith+
  with lo hi show "0 < Max ?R - Min ?X" "0 < Max ?B - Min ?Y" "Max ?R - Min ?X \<le> 2147483647"
    "Max ?B - Min ?Y \<le> 2147483647" by simp_all
  have "Min (insert INT_MAX ?X) = Min ?X" "Min (insert INT_MAX ?Y) = Min ?Y" "Max (insert INT_MIN ?R) = Max ?R"
    "Max (insert INT_MIN ?B) = Max ?B"
    unfolding Min_insert [OF fin(1) ne(1)] Min_insert [OF fin(2) ne(2)] Max_insert [OF fin(3) ne(3)]
      Max_insert [OF fin(4) ne(4)] INT_MAX_def INT_MIN_def
    using lo hi \<open>Min ?X < Max ?R\<close> \<open>Min ?Y < Max ?B\<close> by linarith+
  then show "union_box ts (INT_MAX, INT_MAX, INT_MIN, INT_MIN) = (Min ?X, Min ?Y, Max ?R, Max ?B)"
    by (simp only: union_box_eq)
qed

text \<open>The index of a pixel: that of the first tile which covers it most, or that of transparency.\<close>

definition shown :: "32 word list \<Rightarrow> ASS_Image list \<Rightarrow> int \<Rightarrow> int \<Rightarrow> 8 word \<Rightarrow> bool" where
  "shown palette ts x y v \<longleftrightarrow>
     (if \<forall>t\<in>set ts. cover t x y = 0 then v = 0
      else \<exists>k<length ts. 0 < cover (ts ! k) x y \<and> (\<forall>t\<in>set ts. cover t x y \<le> cover (ts ! k) x y) \<and>
        (\<forall>j<k. cover (ts ! j) x y < cover (ts ! k) x y) \<and>
        v = of_nat (nearest_palette_index palette (tile_rgba (im_color (ts ! k)))))"

lemma pixel_after_best:
  "\<exists>c v. pixel_after palette ts x y = (c, v) \<and> (\<forall>t\<in>set ts. cover t x y \<le> c) \<and>
     (c = 0 \<and> v = 0 \<or>
      (\<exists>k<length ts. 0 < c \<and> c = cover (ts ! k) x y \<and> (\<forall>j<k. cover (ts ! j) x y < c) \<and>
        v = of_nat (nearest_palette_index palette (tile_rgba (im_color (ts ! k))))))"
proof (induction ts rule: rev_induct)
  case (snoc t ts)
  let ?ix = "\<lambda>t. of_nat (nearest_palette_index palette (tile_rgba (im_color t))) :: 8 word"
  from snoc obtain c v where p: "pixel_after palette ts x y = (c, v)" "\<forall>t\<in>set ts. cover t x y \<le> c"
    and k: "c = 0 \<and> v = 0 \<or> (\<exists>k<length ts. 0 < c \<and> c = cover (ts ! k) x y \<and> (\<forall>j<k. cover (ts ! j) x y < c) \<and>
      v = ?ix (ts ! k))" by blast
  have s: "pixel_after palette (ts @ [t]) x y = stronger (c, v) (cover t x y, ?ix t)"
    using p(1) by (simp add: pixel_after_def)
  show ?case
  proof (cases "c < cover t x y")
    case True
    have "0 < cover t x y" using True by (rule le_less_trans [OF word_zero_le])
    moreover have "\<forall>u\<in>set ts. cover u x y < cover t x y" using p(2) True by (meson le_less_trans)
    ultimately show ?thesis using True
      by (intro exI [of _ "cover t x y"] exI [of _ "?ix t"])
        (auto simp: s stronger_def nth_append intro!: exI [of _ "length ts"])
  next
    case False
    then have "cover t x y \<le> c" by simp
    with False p k show ?thesis
      by (intro exI [of _ c] exI [of _ v]) (auto simp: s stronger_def nth_append intro: less_SucI)
  qed
qed (simp add: pixel_after_def)

lemma pixel_after_shown: "shown palette ts x y (snd (pixel_after palette ts x y))"
proof -
  obtain c v where p: "pixel_after palette ts x y = (c, v)" "\<forall>t\<in>set ts. cover t x y \<le> c"
    and k: "c = 0 \<and> v = 0 \<or> (\<exists>k<length ts. 0 < c \<and> c = cover (ts ! k) x y \<and> (\<forall>j<k. cover (ts ! j) x y < c) \<and>
      v = of_nat (nearest_palette_index palette (tile_rgba (im_color (ts ! k)))))"
    using pixel_after_best by blast
  from k show ?thesis
  proof
    assume "c = 0 \<and> v = 0"
    with p show ?thesis by (simp add: shown_def)
  next
    assume "\<exists>k<length ts. 0 < c \<and> c = cover (ts ! k) x y \<and> (\<forall>j<k. cover (ts ! j) x y < c) \<and>
      v = of_nat (nearest_palette_index palette (tile_rgba (im_color (ts ! k))))"
    then obtain k where "k < length ts" "0 < cover (ts ! k) x y" "c = cover (ts ! k) x y"
      "\<forall>j<k. cover (ts ! j) x y < cover (ts ! k) x y"
      "v = of_nat (nearest_palette_index palette (tile_rgba (im_color (ts ! k))))" by auto
    moreover from this have "ts ! k \<in> set ts" "cover (ts ! k) x y \<noteq> 0" by auto
    ultimately show ?thesis using p by (auto simp: shown_def)
  qed
qed

text \<open>C18. For the tiles of a frame \<^verbatim>\<open>render_ass_frame\<close> delivers the smallest bitmap that holds all of them, with
  the palette of the mode. Every pixel has the palette index nearest to the colour of the first tile that
  covers it most, and the transparent index 0 where no tile covers it: neither the cache of colours nor
  that of palettes changes the result, malformed tiles are left out, and no access leaves a buffer. The
  bitmap is one that \<^verbatim>\<open>make_subtitle\<close> accepts, if it has at least eight pixels.\<close>

theorem render_ass_frame_shows:
  assumes "list_all tile_ok imgs" and "drawn imgs \<noteq> {}" and "\<forall>t\<in>drawn imgs. in_frame t"
    and "palette_cache_ok cache" and "fe_idxbuf env" and "fe_covbuf env" and "fe_palette env"
  shows "\<exists>bm idx cache'. render_ass_frame env imgs mode cache = Inr (bm, cache') \<and> palette_cache_ok cache' \<and>
    bm_x bm = Min (im_dst_x ` drawn imgs) \<and> bm_y bm = Min (im_dst_y ` drawn imgs) \<and>
    bm_x bm + bm_w bm = Max ((\<lambda>t. im_dst_x t + im_w t) ` drawn imgs) \<and>
    bm_y bm + bm_h bm = Max ((\<lambda>t. im_dst_y t + im_h t) ` drawn imgs) \<and>
    bm_idxbuf bm = Some idx \<and> bm_palette bm = Some (palette_bytes (init_palette mode)) \<and>
    (8 \<le> bm_w bm * bm_h bm \<longrightarrow> bitmap_ok bm) \<and>
    (\<forall>x y. bm_x bm \<le> x \<longrightarrow> x < bm_x bm + bm_w bm \<longrightarrow> bm_y bm \<le> y \<longrightarrow> y < bm_y bm + bm_h bm \<longrightarrow>
       shown (init_palette mode) imgs x y (idx ! (nat (y - bm_y bm) * nat (bm_w bm) + nat (x - bm_x bm))))"
proof -
  note U = union_box_drawn [OF assms(2,3)]
  define minx miny w h where
    "minx = Min (im_dst_x ` drawn imgs)" and "miny = Min (im_dst_y ` drawn imgs)"
    and "w = Max ((\<lambda>t. im_dst_x t + im_w t) ` drawn imgs) - Min (im_dst_x ` drawn imgs)"
    and "h = Max ((\<lambda>t. im_dst_y t + im_h t) ` drawn imgs) - Min (im_dst_y ` drawn imgs)"
  have box: "union_box imgs (INT_MAX, INT_MAX, INT_MIN, INT_MIN) = (minx, miny, minx + w, miny + h)"
    using U(1) by (simp add: minx_def miny_def w_def h_def)
  have wh: "0 < w" "0 < h" "w \<le> 2147483647" "h \<le> 2147483647" using U(2-5) by (simp_all add: w_def h_def)
  have px: "nat w * nat h mod (SIZE_MAX + 1) = nat w * nat h" using wh by (rule pixel_count_exact)
  have "imgs \<noteq> []" using assms(2) by auto
  obtain pal cache' where pc: "cached_palette (fe_strdup env) mode cache = (pal, cache')" by (rule prod.exhaust)
  note P = cached_palette_ok [OF assms(4) pc]
  let ?b = "(minx, miny, w, h)" and ?st = "(replicate (nat w * nat h) 0, replicate (nat w * nat h) 0)"
  have ok: "planes_ok ?b ?st" using wh by (simp add: planes_ok_def)
  obtain cov idx where d: "draw_tiles pal ?b imgs ([], 0) ?st = Inr (cov, idx)" "planes_ok ?b (cov, idx)"
    and v: "\<And>dx dy. 0 \<le> dx \<Longrightarrow> dx < w \<Longrightarrow> 0 \<le> dy \<Longrightarrow> dy < h \<Longrightarrow> pixel_at ?b (cov, idx) dx dy =
      foldl (\<lambda>s t. stronger s (cover t (dx + minx) (dy + miny),
        of_nat (nearest_palette_index pal (tile_rgba (im_color t))))) (pixel_at ?b ?st dx dy) imgs"
    using draw_tiles_ok [OF ok assms(1), of pal "([], 0)"] by (auto simp: color_cache_ok_def)
  let ?bm = "no_bitmap\<lparr>bm_w := w, bm_h := h, bm_x := minx, bm_y := miny, bm_idxbuf := Some idx,
    bm_idxbuf_len := nat w * nat h, bm_palette := Some (palette_bytes pal), bm_palette_bytes := 64\<rparr>"
  have r: "render_ass_frame env imgs mode cache = Inr (?bm, cache')"
    using wh assms(5-7) \<open>imgs \<noteq> []\<close> by (simp add: render_ass_frame_def box px [simplified] pc d(1) Let_def)
  have len: "length idx = nat w * nat h" using d(2) by (simp add: planes_ok_def)
  have z: "pixel_at ?b ?st dx dy = (0, 0)" if "0 \<le> dx" "dx < w" "0 \<le> dy" "dy < h" for dx dy
    using pixel_index_bound [of "nat dy" "nat h" "nat dx" "nat w"] that by (simp add: pixel_at_def)
  have "shown (init_palette mode) imgs x y (idx ! (nat (y - miny) * nat w + nat (x - minx)))"
    if "minx \<le> x" "x < minx + w" "miny \<le> y" "y < miny + h" for x y
  proof -
    have "pixel_at ?b (cov, idx) (x - minx) (y - miny) = pixel_after pal imgs x y"
      using that v [of "x - minx" "y - miny"] z [of "x - minx" "y - miny"] by (simp add: pixel_after_def)
    then have "idx ! (nat (y - miny) * nat w + nat (x - minx)) = snd (pixel_after pal imgs x y)"
      by (simp add: pixel_at_def) (metis snd_conv)
    then show ?thesis using pixel_after_shown P by simp
  qed
  moreover have "bitmap_ok ?bm" if "8 \<le> w * h"
    using wh that P by (simp add: bitmap_ok_def no_bitmap_def len palette_bytes_def length_concat comp_def sum_list_triv)
  moreover have "minx + w = Max ((\<lambda>t. im_dst_x t + im_w t) ` drawn imgs)"
    "miny + h = Max ((\<lambda>t. im_dst_y t + im_h t) ` drawn imgs)"
    by (simp_all add: minx_def miny_def w_def h_def)
  ultimately show ?thesis
    using r P by (intro exI [of _ ?bm] exI [of _ idx] exI [of _ cache']) (simp add: minx_def [symmetric] miny_def [symmetric])
qed

definition sample_tile :: ASS_Image where
  "sample_tile =
     \<lparr>im_w = 2, im_h = 2, im_stride = 3, im_bitmap = Some [9, 0, 7, 0, 200], im_color = 0xFFFFFFFF, im_dst_x = 10,
      im_dst_y = 20\<rparr>"

theorem render_ass_frame_shows_witness:
  "\<exists>bm idx cache'.
     render_ass_frame \<lparr>fe_strdup = \<lambda>_. True, fe_idxbuf = True, fe_covbuf = True, fe_palette = True\<rparr> [sample_tile] None
       (replicate 4 None) = Inr (bm, cache') \<and>
     bm_x bm = 10 \<and> bm_w bm = 2 \<and> bm_idxbuf bm = Some idx \<and> shown (init_palette None) [sample_tile] 11 21 (idx ! 3)"
proof -
  let ?env = "\<lparr>fe_strdup = \<lambda>_. True, fe_idxbuf = True, fe_covbuf = True, fe_palette = True\<rparr>"
  have d: "drawn [sample_tile] = {sample_tile}" by (simp add: sample_tile_def)
  have o: "list_all tile_ok [sample_tile]" "\<forall>t\<in>drawn [sample_tile]. in_frame t" "palette_cache_ok (replicate 4 None)"
    by (simp_all add: d tile_ok_def in_frame_def palette_cache_ok_def PALETTE_CACHE_SIZE_def) (simp_all add: sample_tile_def)
  have v: "im_dst_x sample_tile = 10" "im_dst_y sample_tile = 20" "im_w sample_tile = 2" "im_h sample_tile = 2"
    by (simp_all add: sample_tile_def)
  from render_ass_frame_shows [OF o(1) _ o(2,3), of ?env None] obtain bm idx cache' where
    r: "render_ass_frame ?env [sample_tile] None (replicate 4 None) = Inr (bm, cache')" "bm_x bm = 10" "bm_y bm = 20"
    "bm_x bm + bm_w bm = 12" "bm_y bm + bm_h bm = 22" "bm_idxbuf bm = Some idx"
    and s: "\<forall>x y. bm_x bm \<le> x \<longrightarrow> x < bm_x bm + bm_w bm \<longrightarrow> bm_y bm \<le> y \<longrightarrow> y < bm_y bm + bm_h bm \<longrightarrow>
       shown (init_palette None) [sample_tile] x y (idx ! (nat (y - bm_y bm) * nat (bm_w bm) + nat (x - bm_x bm)))"
    by (auto simp: d v)
  from s [rule_format, of 11 21] r(2-5) have "shown (init_palette None) [sample_tile] 11 21 (idx ! 3)" by simp
  with r show ?thesis by auto
qed

subsection \<open>Colours of the options\<close>

lemma hex_digit_ass: "d < 16 \<Longrightarrow> hex_val_ass (hex_char d) = int d"
proof -
  assume d: "d < 16"
  have c: "code (CHR ''0'') = 48" "code (CHR ''9'') = 57" "code (CHR ''a'') = 97" "code (CHR ''f'') = 102"
    "code (CHR ''A'') = 65" "code (CHR ''F'') = 70" by (simp_all add: code_def)
  from d show ?thesis by (simp add: hex_val_ass_def c code_hex_char)
qed

lemma push_or_nibble:
  assumes "lo < 16"
  shows "nat (push_bit 4 (int hi) OR int lo) = 16 * hi + lo"
proof -
  have "push_bit 4 (int hi) AND take_bit 4 (int lo) = 0" by (rule bit_eqI) (simp add: bit_simps)
  moreover have "take_bit 4 (int lo) = int lo" using assms by (simp add: take_bit_int_eq_self)
  ultimately have "push_bit 4 (int hi) OR int lo = push_bit 4 (int hi) + int lo"
    using plus_and_or [of "push_bit 4 (int hi)" "int lo"] by simp
  then show ?thesis by (simp add: push_bit_eq_mult nat_add_distrib nat_mult_distrib)
qed

lemma parse_hex2: "v < 256 \<Longrightarrow> parse_hex_byte (hex2 v @ s) = Some v"
proof -
  assume v: "v < 256"
  have h: "hex2 v = [hex_char (v div 16), hex_char (v mod 16)]" using v by (rule hex2_eq)
  have "v div 16 < 16" "v mod 16 < 16" using v by auto
  then show ?thesis
    using push_or_nibble [of "v mod 16" "v div 16"] hex_digit_ass [of "v div 16"] hex_digit_ass [of "v mod 16"]
    by (simp add: parse_hex_byte_def h)
qed

lemma hex2_length2: "v < 256 \<Longrightarrow> length (hex2 v) = 2"
  by (simp add: hex2_eq)

lemma hex_bytes_hex2: "v < 256 \<Longrightarrow> hex_bytes (Suc n) (hex2 v @ s) = map_option ((#) v) (hex_bytes n s)"
  by (cases "hex_bytes n s") (simp_all add: parse_hex2 hex2_length2)

text \<open>A colour without alpha, the form of the default options, is handed to libass as a fully transparent one: the
  alpha that stands for the missing digits is 0, which the inversion turns into \<^verbatim>\<open>FF\<close>. A colour with alpha
  keeps its channels in the order of ASS with the alpha inverted.\<close>

lemma opaque_color_transparent:
  assumes "a < 256" and "r < 256" and "g < 256" and "b < 256"
  shows "render_ass_hex_to_ass_color (Some (CHR ''#'' # hex2 r @ hex2 g @ hex2 b)) =
      ''&HFF'' @ hex2 b @ hex2 g @ hex2 r \<and>
    render_ass_hex_to_ass_color (Some (CHR ''#'' # hex2 a @ hex2 r @ hex2 g @ hex2 b)) =
      ''&H'' @ hex2 (255 - a) @ hex2 b @ hex2 g @ hex2 r"
proof -
  have f: "hex2 255 = ''FF''" by code_simp
  have n: "(3 :: nat) = Suc (Suc (Suc 0))" "(4 :: nat) = Suc (Suc (Suc (Suc 0)))" by simp_all
  have "hex_bytes 3 (hex2 r @ hex2 g @ hex2 b @ []) = Some [r, g, b]"
    "hex_bytes 4 (hex2 a @ hex2 r @ hex2 g @ hex2 b @ []) = Some [a, r, g, b]"
    unfolding n using assms by (simp_all only: hex_bytes_hex2 hex_bytes.simps(1) option.map)
  then show ?thesis
    using assms f by (simp add: render_ass_hex_to_ass_color_def hex2_length2 ass_color_def)
qed

lemma opaque_color_transparent_example:
  "render_ass_hex_to_ass_color (Some (CHR ''#'' # hex2 255 @ hex2 255 @ hex2 0)) = ''&HFF'' @ hex2 0 @ hex2 255 @ hex2 255"
  using opaque_color_transparent [of 0 255 255 0] by simp

subsection \<open>Events\<close>

abbreviation breaks :: "cstr \<Rightarrow> nat" where
  "breaks s \<equiv> length (filter (\<lambda>c. c = CR \<or> c = LF) s)"

lemma breaks_tl: "breaks (tl s) \<le> breaks s"
  by (cases s) simp_all

lemma linebreak_loop_ok:
  "length out + length s + breaks s \<le> cap \<Longrightarrow> CR \<notin> set out \<and> LF \<notin> set out \<Longrightarrow>
   \<exists>out'. linebreak_loop cap s out = Inr out' \<and> length out' \<le> length out + length s + breaks s \<and>
     CR \<notin> set out' \<and> LF \<notin> set out'"
proof (induction cap s out rule: linebreak_loop.induct)
  case (2 cap c cs out)
  let ?cs = "if cs \<noteq> [] \<and> hd cs = LF then tl cs else cs"
  have l: "length ?cs + breaks ?cs \<le> length cs + breaks cs" using breaks_tl [of cs] by auto
  have n: "CR \<noteq> BSL" "LF \<noteq> BSL" "CR \<noteq> CHR ''N''" "LF \<noteq> CHR ''N''" by simp_all
  consider "c = CR" | "c \<noteq> CR" "c = LF" | "c \<noteq> CR" "c \<noteq> LF" by blast
  then show ?case
  proof cases
    case 1
    have e: "emit_to cap [BSL, CHR ''N''] out = Inr (out @ [BSL, CHR ''N''])" using 2(4) 1 by (simp add: emit_to_def)
    obtain out' where "linebreak_loop cap ?cs (out @ [BSL, CHR ''N'']) = Inr out'"
      "length out' \<le> length (out @ [BSL, CHR ''N'']) + length ?cs + breaks ?cs" "CR \<notin> set out'" "LF \<notin> set out'"
      using 2(1) [OF 1 e] 2(4,5) l 1 n by auto
    with l 1 e show ?thesis by auto
  next
    case c: 2
    have e: "emit_to cap [BSL, CHR ''N''] out = Inr (out @ [BSL, CHR ''N''])" using 2(4) c by (simp add: emit_to_def)
    with 2(2) [OF c e] 2(4,5) c n show ?thesis by auto
  next
    case c: 3
    have e: "emit_to cap [c] out = Inr (out @ [c])" using 2(4) by (simp add: emit_to_def)
    with 2(3) [OF c e] 2(4,5) c show ?thesis by auto
  qed
qed simp

text \<open>An event is added without leaving the buffer, its times fit into an \<^verbatim>\<open>int\<close> and its text has no line ends.\<close>

lemma add_event_ok:
  "\<exists>evs'. render_ass_add_event alloc slot text start_ms end_ms evs = Inr evs' \<and>
     (slot \<longrightarrow> (\<exists>e. evs' = evs @ [e] \<and> INT_MIN \<le> ev_Start e \<and> ev_Start e \<le> INT_MAX \<and>
        (\<forall>t. ev_Text e = Some t \<longrightarrow> CR \<notin> set t \<and> LF \<notin> set t)))"
proof -
  have "\<exists>r. ass_normalize_linebreaks alloc text = Inr r \<and> (\<forall>t. r = Some t \<longrightarrow> CR \<notin> set t \<and> LF \<notin> set t)"
  proof (cases "text")
    case (Some t)
    obtain out where "linebreak_loop (length t + breaks t + 1) t [] = Inr out" "length out \<le> length t + breaks t"
      "CR \<notin> set out" "LF \<notin> set out"
      using linebreak_loop_ok [of "[]" t "length t + breaks t + 1"] by auto
    then show ?thesis by (simp add: ass_normalize_linebreaks_def Some Let_def)
  qed (simp add: ass_normalize_linebreaks_def)
  then obtain r where "ass_normalize_linebreaks alloc text = Inr r" "\<forall>t. r = Some t \<longrightarrow> CR \<notin> set t \<and> LF \<notin> set t" by blast
  then show ?thesis by (simp add: render_ass_add_event_def clamp_int_def INT_MIN_def INT_MAX_def)
qed

end
