(* ===== verification/Pango_markup.thy ===== *)
theory Pango_markup
  imports Clib
begin

text \<open>
  \<^verbatim>\<open>srt_to_pango_markup\<close> of \<^verbatim>\<open>render_pango.c\<close>: the tags of a cue become Pango spans and the characters
  that XML reserves become entities, in a buffer whose size is fixed before. Every write is checked
  against that size. The lemmas say that no write leaves the buffer, that text is escaped faithfully
  where it fits, and that it does not always fit.
\<close>

text \<open>\<^verbatim>\<open>memcpy(out, s, n); out += n\<close> into a block of \<open>cap\<close> bytes, and the final NUL.\<close>

definition put :: "nat \<Rightarrow> cstr \<Rightarrow> cstr \<Rightarrow> cstr cres" where
  "put cap s out = (if length out + length s \<le> cap then Inr (out @ s) else Inl Out_of_bounds)"

definition put_end :: "nat \<Rightarrow> cstr \<Rightarrow> cstr cres" where
  "put_end cap out = (if length out < cap then Inr out else Inl Out_of_bounds)"

definition alloc_empty_string :: "(nat \<Rightarrow> bool) \<Rightarrow> cstr option" where
  "alloc_empty_string alloc = (if alloc 1 then Some [] else None)"

definition span_tag :: "cstr \<Rightarrow> cstr \<Rightarrow> cstr" where
  "span_tag attr val = ''<span '' @ attr @ ''='' @ DQ # val @ DQ # ''>''"

definition simple_tags :: "(cstr \<times> cstr) list" where
  "simple_tags =
     [(''<i>'', span_tag ''style'' ''italic''), (''</i>'', ''</span>''),
      (''<b>'', span_tag ''weight'' ''bold''), (''</b>'', ''</span>''),
      (''<u>'', span_tag ''underline'' ''single''), (''</u>'', ''</span>'')]"

fun find_tag :: "(cstr \<times> cstr) list \<Rightarrow> cstr \<Rightarrow> (cstr \<times> cstr) option" where
  "find_tag [] p = None"
| "find_tag ((lit, tag) # ts) p = (if starts_ci lit p then Some (tag, drop (length lit) p) else find_tag ts p)"

text \<open>\<^verbatim>\<open>sscanf(tmp, "<font color=\"%63[^\"]", color) == 1\<close>; the blank in the format stands for any white
  space.\<close>

definition scan_color :: "cstr \<Rightarrow> cstr option" where
  "scan_color tmp =
     (if starts ''<font'' tmp then
        let r = lstrip (drop 5 tmp)
        in if starts (''color='' @ [DQ]) r then
             let c = take 63 (takeWhile (\<lambda>x. x \<noteq> DQ) (drop 7 r)) in if c = [] then None else Some c
           else None
      else None)"

text \<open>The colour of a font tag and what follows the tag.\<close>

definition font_tag :: "cstr \<Rightarrow> (cstr \<times> cstr) option" where
  "font_tag p =
     (case strchr (CHR ''>'') p of
        None \<Rightarrow> None
      | Some q \<Rightarrow>
          map_option (\<lambda>c. (c, tl q)) (scan_color (take 255 (take (length p - length q + 1) p))))"

definition escape :: "char \<Rightarrow> cstr" where
  "escape c =
     (if c = CHR ''&'' then ''&amp;'' else if c = CHR ''<'' then ''&lt;'' else if c = CHR ''>'' then ''&gt;'' else [c])"

text \<open>One round of the loop. \<open>None\<close> for the text means that the loop ends; the last test is
  \<^verbatim>\<open>remaining <= length\<close> for all writes but those of \<^verbatim>\<open>snprintf\<close>, which cuts off what does not fit.\<close>

datatype round = Write cstr cstr | Cut cstr | Stop

definition fits :: "nat \<Rightarrow> cstr \<Rightarrow> cstr \<Rightarrow> round" where
  "fits remaining s p = (if remaining \<le> length s then Stop else Write s p)"

definition markup_round :: "nat \<Rightarrow> cstr \<Rightarrow> round" where
  "markup_round remaining p =
     (case find_tag simple_tags p of
        Some (tag, p') \<Rightarrow> fits remaining tag p'
      | None \<Rightarrow>
          if starts_ci ''<font '' p then
            (case font_tag p of
               Some (color, p') \<Rightarrow>
                 let s = span_tag ''foreground'' color
                 in if length s \<ge> remaining then Cut (take (remaining - 1) s) else Write s p'
             | None \<Rightarrow> fits remaining [hd p] (tl p))
          else if starts_ci ''</font>'' p then fits remaining ''</span>'' (drop 7 p)
          else fits remaining (escape (hd p)) (tl p))"

lemma find_tag_simple: "find_tag simple_tags p = Some (t, p') \<Longrightarrow> length p' < length p"
  by (auto simp: simple_tags_def split: if_splits dest!: starts_ci_length)

lemma font_tag_shorter: "font_tag p = Some (c, p') \<Longrightarrow> length p' < length p"
  using strchr_length_le strchr_Some_Cons by (fastforce simp: font_tag_def split: option.splits)

lemma markup_round_shorter:
  assumes "markup_round n p = Write s p'" and "p \<noteq> []"
  shows "length p' < length p"
  using assms
  by (auto simp: markup_round_def fits_def Let_def split: option.splits if_splits prod.splits
      dest: find_tag_simple font_tag_shorter dest!: starts_ci_length)

function markup_loop :: "nat \<Rightarrow> cstr \<Rightarrow> cstr \<Rightarrow> cstr cres" where
  "markup_loop maxlen p out =
     (if p = [] then Inr out
      else if length out + 16 \<ge> maxlen then Inr out
      else
        (case markup_round (maxlen - length out) p of
           Stop \<Rightarrow> Inr out
         | Cut s \<Rightarrow> put maxlen s out
         | Write s p' \<Rightarrow> sbind (put maxlen s out) (markup_loop maxlen p')))"
  by pat_completeness auto
termination
  by (relation "measure (\<lambda>(_, p, _). length p)") (auto dest: markup_round_shorter)

declare markup_loop.simps [simp del]

definition markup_size :: "cstr \<Rightarrow> nat" where
  "markup_size s = (let n = length s * 4 + 32 in if n < 128 then 128 else n)"

definition srt_to_pango_markup :: "(nat \<Rightarrow> bool) \<Rightarrow> cstr option \<Rightarrow> cstr option cres" where
  "srt_to_pango_markup alloc srt_text =
     (case srt_text of
        None \<Rightarrow> Inr (alloc_empty_string alloc)
      | Some s \<Rightarrow>
          if \<not> alloc (markup_size s) then Inr (alloc_empty_string alloc)
          else sbind (markup_loop (markup_size s) s []) (\<lambda>out.
               sbind (put_end (markup_size s) out) (\<lambda>r. Inr (Some r))))"

subsection \<open>No write leaves the buffer\<close>

lemma markup_round_fits:
  "markup_round n p = Write s p' \<Longrightarrow> 0 < n \<Longrightarrow> length s < n"
  "markup_round n p = Cut s \<Longrightarrow> 0 < n \<Longrightarrow> length s < n"
  by (auto simp: markup_round_def fits_def Let_def split: option.splits if_splits prod.splits)

lemma markup_loop_safe:
  "length out < maxlen \<Longrightarrow> \<exists>r. markup_loop maxlen p out = Inr r \<and> length r < maxlen"
proof (induction maxlen p out rule: markup_loop.induct)
  case (1 maxlen p out)
  show ?case
  proof (cases "p = [] \<or> length out + 16 \<ge> maxlen")
    case True
    with 1(2) show ?thesis by (auto simp: markup_loop.simps [of maxlen p])
  next
    case False
    then have ne: "p \<noteq> []" "\<not> maxlen \<le> length out + 16" by auto
    let ?n = "maxlen - length out"
    have n: "0 < ?n" using 1(2) by simp
    show ?thesis
    proof (cases "markup_round ?n p")
      case (Write s p')
      from markup_round_fits(1) [OF this n] have l: "length (out @ s) < maxlen" by simp
      then have "put maxlen s out = Inr (out @ s)" by (simp add: put_def)
      with 1(1) [OF ne Write this l] ne Write show ?thesis
        by (simp add: markup_loop.simps [of maxlen p out])
    next
      case (Cut s)
      from markup_round_fits(2) [OF this n] have "length (out @ s) < maxlen" by simp
      with ne Cut show ?thesis by (simp add: markup_loop.simps [of maxlen p out] put_def)
    next
      case Stop
      with ne 1(2) show ?thesis by (simp add: markup_loop.simps [of maxlen p out])
    qed
  qed
qed

lemma srt_to_pango_markup_eq:
  "alloc (markup_size s) \<Longrightarrow>
   srt_to_pango_markup alloc (Some s) = sbind (markup_loop (markup_size s) s []) (\<lambda>r. Inr (Some r))"
  using markup_loop_safe [of "[]" "markup_size s" s]
  by (auto simp: srt_to_pango_markup_def put_end_def markup_size_def Let_def)

subsection \<open>Escaping\<close>

text \<open>How an XML reader sees the three entities.\<close>

fun unescape :: "cstr \<Rightarrow> cstr" where
  "unescape [] = []"
| "unescape (c # cs) =
     (if starts ''amp;'' cs \<and> c = CHR ''&'' then CHR ''&'' # unescape (drop 4 cs)
      else if starts ''lt;'' cs \<and> c = CHR ''&'' then CHR ''<'' # unescape (drop 3 cs)
      else if starts ''gt;'' cs \<and> c = CHR ''&'' then CHR ''>'' # unescape (drop 3 cs)
      else c # unescape cs)"

lemma unescape_escape: "unescape (concat (map escape s)) = s"
  by (induction s) (auto simp: escape_def)

lemma markup_round_plain: "c \<noteq> CHR ''<'' \<Longrightarrow> markup_round n (c # p) = fits n (escape c) p"
  by (simp add: markup_round_def simple_tags_def starts_ci_angle)

lemma escape_length: "length (escape c) \<le> 5"
  by (simp add: escape_def)

lemma markup_loop_plain:
  assumes "CHR ''<'' \<notin> set p" and "length out + length (concat (map escape p)) + 16 < maxlen"
  shows "markup_loop maxlen p out = Inr (out @ concat (map escape p))"
  using assms
proof (induction p arbitrary: out)
  case (Cons c p)
  then have c: "c \<noteq> CHR ''<''" by auto
  have "markup_round (maxlen - length out) (c # p) = Write (escape c) p"
    using Cons.prems(2) escape_length [of c] by (simp add: markup_round_plain [OF c] fits_def)
  moreover have "markup_loop maxlen p (out @ escape c) = Inr ((out @ escape c) @ concat (map escape p))"
    using Cons.prems by (intro Cons.IH) simp_all
  ultimately show ?case
    using Cons.prems(2) by (simp add: markup_loop.simps [of maxlen "c # p"] put_def)
qed (simp add: markup_loop.simps)

text \<open>C32. \<^verbatim>\<open>srt_to_pango_markup\<close> never writes outside its buffer, whatever the text, and always ends the string
  within it. Text without tags is escaped so that an XML reader gets it back unchanged, as long as the
  escaped text leaves the slack of 16 bytes the loop insists on.\<close>

theorem pango_markup_escapes:
  "(\<exists>r. srt_to_pango_markup alloc srt = Inr r) \<and>
   (CHR ''<'' \<notin> set s \<longrightarrow> length (concat (map escape s)) + 16 < markup_size s \<longrightarrow>
      (\<exists>t. srt_to_pango_markup (\<lambda>_. True) (Some s) = Inr (Some t) \<and> unescape t = s \<and> CHR ''<'' \<notin> set t))"
proof (intro conjI impI)
  show "\<exists>r. srt_to_pango_markup alloc srt = Inr r"
  proof (cases srt)
    case (Some t)
    show ?thesis
    proof (cases "alloc (markup_size t)")
      case True
      have "length ([] :: cstr) < markup_size t" by (simp add: markup_size_def Let_def)
      from markup_loop_safe [OF this, of t] Some srt_to_pango_markup_eq [of alloc t] True
      show ?thesis by auto
    qed (simp add: Some srt_to_pango_markup_def)
  qed (simp add: srt_to_pango_markup_def)
  assume a: "CHR ''<'' \<notin> set s" "length (concat (map escape s)) + 16 < markup_size s"
  then have "srt_to_pango_markup (\<lambda>_. True) (Some s) = Inr (Some (concat (map escape s)))"
    using markup_loop_plain [of s "[]" "markup_size s"] by (simp add: srt_to_pango_markup_eq)
  moreover have "CHR ''<'' \<notin> set (concat (map escape s))" using a(1) by (auto simp: escape_def split: if_splits)
  ultimately show "\<exists>t. srt_to_pango_markup (\<lambda>_. True) (Some s) = Inr (Some t) \<and> unescape t = s \<and>
      CHR ''<'' \<notin> set t"
    using unescape_escape by blast
qed

theorem pango_markup_escapes_witness:
  "\<exists>t. srt_to_pango_markup (\<lambda>_. True) (Some ''Q&A > 1'') = Inr (Some t) \<and> unescape t = ''Q&A > 1'' \<and>
     CHR ''<'' \<notin> set t"
  using pango_markup_escapes [of "\<lambda>_. True" None "''Q&A > 1''"] by (simp add: escape_def markup_size_def)

lemma markup_loop_amps:
  "\<exists>k\<le>m. markup_loop maxlen (replicate m (CHR ''&'')) out = Inr (out @ concat (replicate k ''&amp;'')) \<and>
     (k = 0 \<or> length out + 5 * k + 11 < maxlen)"
proof (induction m arbitrary: out)
  case (Suc m)
  show ?case
  proof (cases "length out + 16 \<ge> maxlen")
    case True
    then show ?thesis by (intro exI [of _ 0]) (simp add: markup_loop.simps)
  next
    case False
    have "markup_round (maxlen - length out) (replicate (Suc m) (CHR ''&'')) = Write ''&amp;'' (replicate m (CHR ''&''))"
      using False by (simp add: markup_round_plain fits_def escape_def)
    then have e: "markup_loop maxlen (replicate (Suc m) (CHR ''&'')) out =
      markup_loop maxlen (replicate m (CHR ''&'')) (out @ ''&amp;'')"
      using False by (subst markup_loop.simps) (simp add: put_def)
    obtain k where k: "k \<le> m" "markup_loop maxlen (replicate m (CHR ''&'')) (out @ ''&amp;'') =
        Inr ((out @ ''&amp;'') @ concat (replicate k ''&amp;''))"
      "k = 0 \<or> length (out @ ''&amp;'') + 5 * k + 11 < maxlen" using Suc.IH [of "out @ ''&amp;''"] by blast
    show ?thesis
      by (rule exI [of _ "Suc k"]) (use k e False in auto)
  qed
qed (simp add: markup_loop.simps)

text \<open>The size of the buffer, four bytes for each of the text, is too small for what it has to hold: of 24
  or more ampersands in a row some are silently lost, with everything behind them.\<close>

lemma pango_markup_loses_text:
  assumes "24 \<le> n"
  shows "\<exists>k<n. srt_to_pango_markup (\<lambda>_. True) (Some (replicate n (CHR ''&''))) =
    Inr (Some (concat (replicate k ''&amp;'')))"
proof -
  let ?s = "replicate n (CHR ''&'')"
  have m: "markup_size ?s = n * 4 + 32" using assms by (simp add: markup_size_def Let_def)
  obtain k where "k \<le> n" "markup_loop (markup_size ?s) ?s [] = Inr (concat (replicate k ''&amp;''))"
    and k: "k = 0 \<or> 5 * k + 11 < n * 4 + 32"
    using markup_loop_amps [of n "markup_size ?s" "[]"] m by auto
  moreover from k assms have "k < n" by auto
  ultimately show ?thesis by (auto simp: srt_to_pango_markup_eq)
qed

lemma pango_markup_loses_text_example:
  "\<exists>k<30. srt_to_pango_markup (\<lambda>_. True) (Some (replicate 30 (CHR ''&''))) =
     Inr (Some (concat (replicate k ''&amp;'')))"
  using pango_markup_loses_text [of 30] by simp

end
