(* ===== verification/Run.thy ===== *)
theory Run
  imports Qc_run Render_pool Render_ass Pango_markup
begin

text \<open>
  A whole run: \<^verbatim>\<open>srt2dvbsub_run_cli\<close> reads the command line and then checks files only, renders pictures
  only, or multiplexes. This theory puts the components together in the order of the code, with the choice of the
  font (\<^verbatim>\<open>render_pango.c\<close>), the adaptive size of the font, the arguments of the renderer for a cue, the flags
  and the test of duplicate languages, and the options of the muxer. What comes from outside is in one
  record: the fonts of the system, the pictures Pango and libass deliver, the packets of the input, and whether
  the output can be opened. The lemmas carry the properties of the components over to a run.
\<close>

subsection \<open>The font\<close>

definition preferred_fonts :: "cstr list" where
  "preferred_fonts = [''Open Sans'', ''Roboto'', ''DejaVu Sans'']"

definition fallback_styles :: "cstr list" where
  "fallback_styles = [''Light'', ''Thin'', ''Medium'', ''Regular'']"

text \<open>The name is printed into a buffer of 512 bytes.\<close>

definition font_style_exists :: "(cstr \<Rightarrow> bool) \<Rightarrow> cstr \<Rightarrow> cstr \<Rightarrow> bool" where
  "font_style_exists font_exists font style = font_exists (take 511 (font @ '' '' @ style))"

definition resolve_font :: "(cstr \<Rightarrow> bool) \<Rightarrow> cstr option \<Rightarrow> cstr option" where
  "resolve_font font_exists user_font =
     (case user_font of
        Some f \<Rightarrow> if font_exists f then Some f else find font_exists preferred_fonts
      | None \<Rightarrow> find font_exists preferred_fonts)"

definition resolve_style :: "(cstr \<Rightarrow> bool) \<Rightarrow> cstr \<Rightarrow> cstr option \<Rightarrow> cstr option" where
  "resolve_style font_exists font user_style =
     (case user_style of
        Some s \<Rightarrow> if font_style_exists font_exists font s then Some s
                  else find (font_style_exists font_exists font) fallback_styles
      | None \<Rightarrow> find (font_style_exists font_exists font) fallback_styles)"

definition validate_and_resolve_font :: "(nat \<Rightarrow> bool) \<Rightarrow> (cstr \<Rightarrow> bool) \<Rightarrow> cstr option \<Rightarrow> cstr option \<Rightarrow>
    (cstr \<times> cstr option) option" where
  "validate_and_resolve_font alloc font_exists user_font user_style =
     (case resolve_font font_exists user_font of
        None \<Rightarrow> None
      | Some f \<Rightarrow>
          let style = resolve_style font_exists f user_style
          in if alloc (length f + 1) \<and> dup_ok alloc style then Some (f, style) else None)"

text \<open>The size between two bounds, in doubles: every operation rounds.\<close>

definition interpolate :: "int \<Rightarrow> int \<Rightarrow> rat \<Rightarrow> int" where
  "interpolate lo hi t0 =
     (let t1 = (if t0 < 0 then 0 else t0); t = (if t1 > 1 then 1 else t1);
          v = round_double (of_int lo + round_double (t * of_int (hi - lo)))
      in \<lfloor>v + 1 / 2\<rfloor>)"

definition calculate_fontsize :: "int \<Rightarrow> int \<Rightarrow> int" where
  "calculate_fontsize fontsize disp_h0 =
     (if fontsize > 0 then fontsize
      else
        let disp_h = (if disp_h0 \<le> 0 then 1080 else disp_h0)
        in if disp_h \<le> 576 then interpolate 19 24 (round_double (of_int disp_h / 576))
           else if disp_h \<le> 1080 then interpolate 36 42 (round_double (of_int (disp_h - 576) / 504))
           else interpolate 82 88 (round_double (of_int (disp_h - 1080) / 3240)))"

subsection \<open>What a run needs from outside\<close>

record run_env =
  rn_cli :: cli_env
  rn_trk :: track_env
  rn_font :: "cstr \<Rightarrow> bool"
  rn_qc_log :: bool
  rn_probe :: "cstr \<Rightarrow> av_stream list option"
  rn_threads :: nat
  rn_pango :: "render_args \<Rightarrow> Bitmap"
  rn_tiles :: "(cstr \<times> int \<times> int) list option \<Rightarrow> int \<Rightarrow> ASS_Image list"
  rn_frame :: frame_env
  rn_open_output :: "cstr \<Rightarrow> bool"
  rn_header :: "(cstr \<times> cstr) list \<Rightarrow> bool"
  rn_pkt :: bool
  rn_packets :: "in_packet list"
  rn_stop :: "nat \<Rightarrow> bool"
  rn_png_seq :: int
  rn_lib :: mux_lib
  rn_sizes :: sizes
  rn_free_sub :: "subtitle \<Rightarrow> pool \<Rightarrow> pool cres"
  rn_mux :: mux_state

abbreviation rn_alloc :: "run_env \<Rightarrow> nat \<Rightarrow> bool" where
  "rn_alloc env \<equiv> te_alloc (rn_trk env)"

subsection \<open>Rendering a cue\<close>

definition render_size :: "int \<Rightarrow> int \<Rightarrow> int" where
  "render_size video fallback = (if video > 0 then video else fallback)"

definition cue_markup :: "(nat \<Rightarrow> bool) \<Rightarrow> SRTEntry \<Rightarrow> cstr option" where
  "cue_markup alloc e = (case srt_to_pango_markup alloc (Some (entry_text e)) of Inr m \<Rightarrow> m | Inl _ \<Rightarrow> None)"

text \<open>The picture is that of Pango for these arguments, whether a thread of the pool or the loop itself has
  rendered it.\<close>

definition cue_args :: "run_env \<Rightarrow> cli_args \<Rightarrow> cstr \<times> cstr option \<Rightarrow> SubtitlePositionConfig list \<Rightarrow> int \<Rightarrow>
    int \<Rightarrow> int \<Rightarrow> nat \<Rightarrow> SRTEntry \<Rightarrow> render_args" where
  "cue_args env a font pos fontsize w h t e =
     \<lparr>ra_markup = cue_markup (rn_alloc env) e, ra_disp_w = render_size w 1920, ra_disp_h = render_size h 1080,
      ra_fontsize = fontsize, ra_fontfam = Some (fst font), ra_fontstyle = snd font,
      ra_fgcolor = Some (cli_fgcolor a), ra_outlinecolor = Some (cli_outlinecolor a),
      ra_shadowcolor = Some (cli_shadowcolor a), ra_bgcolor = cli_bgcolor a,
      ra_palette_mode = Some (palette_mode a), ra_pos = Some (pos ! t)\<rparr>"

text \<open>The picture of libass. The cache of palettes does not change it, so it is taken as empty.\<close>

definition ass_bitmap :: "run_env \<Rightarrow> cli_args \<Rightarrow> (cstr \<times> int \<times> int) list option \<Rightarrow> int \<Rightarrow> Bitmap" where
  "ass_bitmap env a evs now_ms =
     (case render_ass_frame (rn_frame env) (rn_tiles env evs (to_int32 now_ms)) (Some (palette_mode a))
             (replicate PALETTE_CACHE_SIZE None) of
        Inr (bm, _) \<Rightarrow> bm
      | Inl _ \<Rightarrow> no_bitmap)"

text \<open>With libass every track is rendered by it, also one that is not a track of libass: \<^verbatim>\<open>ass_render_frame\<close> gets a
  null pointer for it, the \<open>None\<close> here, and what it answers is a parameter. The time is that of the cue in its
  file.\<close>

definition render_cue :: "run_env \<Rightarrow> cli_args \<Rightarrow> bool \<Rightarrow> cstr \<times> cstr option \<Rightarrow> SubtitlePositionConfig list \<Rightarrow>
    int \<Rightarrow> int \<Rightarrow> int \<Rightarrow> track list \<Rightarrow> nat \<Rightarrow> SRTEntry \<Rightarrow> Bitmap" where
  "render_cue env a ass font pos fontsize w h trs t e =
     (if \<not> ass then rn_pango env (cue_args env a font pos fontsize w h t e)
      else ass_bitmap env a (tk_ass (trs ! t)) (start_ms e))"

subsection \<open>Preparation\<close>

definition override_margins :: "cli_args \<Rightarrow> SubtitlePositionConfig \<Rightarrow> SubtitlePositionConfig" where
  "override_margins a c =
     (let pick = (\<lambda>o' m. if dbl_geq o' (Num 0) then o' else m)
      in c\<lparr>margin_top := pick (margin_override_top a) (margin_top c),
           margin_left := pick (margin_override_left a) (margin_left c),
           margin_bottom := pick (margin_override_bottom a) (margin_bottom c),
           margin_right := pick (margin_override_right a) (margin_right c)\<rparr>)"

text \<open>The positions, the font, and the directory of pictures; the pool of the renderer only decides how many threads
  there are.\<close>

definition prepare :: "run_env \<Rightarrow> cli_args \<Rightarrow> (SubtitlePositionConfig list \<times> (cstr \<times> cstr option) \<times> cli_args) run" where
  "prepare env a =
     (case parse_subtitle_positions (rn_alloc env) (sub_position_spec a) 8 of
        Inl _ \<Rightarrow> Exit 1
      | Inr cfgs \<Rightarrow>
          (case validate_and_resolve_font (rn_alloc env) (rn_font env) (Some (cli_font a)) (cli_font_style a) of
             None \<Rightarrow> Exit 1
           | Some font \<Rightarrow>
               let pool_init = render_pool_init (rn_alloc env) (rn_threads env) (render_threads a) pool_off;
                   a1 = (if render_threads a > 0 \<and> fst pool_init \<noteq> 0 then a\<lparr>render_threads := 0\<rparr> else a);
                   a2 = (if debug_level a > 0 then a1\<lparr>png_dir := snd (init_png_path (ce_png (rn_cli env)) None (png_dir a1))\<rparr>
                         else a1)
               in Go (map (override_margins a) cfgs, font, a2)))"

definition any_ass :: "cli_args \<Rightarrow> track list \<Rightarrow> bool" where
  "any_ass a trs \<longleftrightarrow> use_ass a \<and> list_ex (\<lambda>tr. tk_ass tr \<noteq> None) trs"

definition set_flags :: "bool list \<Rightarrow> bool list \<Rightarrow> track list \<Rightarrow> track list" where
  "set_flags ff hf trs = map2 (\<lambda>i tr. tr\<lparr>tk_forced := ff ! i, tk_hi := hf ! i\<rparr>) [0..<length trs] trs"

definition apply_flags :: "run_env \<Rightarrow> cli_args \<Rightarrow> track list \<Rightarrow> track list run" where
  "apply_flags env a trs =
     (case (parse_flag_list (rn_alloc env) (forced_list a) (int (length trs)) 8,
            parse_flag_list (rn_alloc env) (hi_list a) (int (length trs)) 8) of
        (Some ff, Some hf) \<Rightarrow> Go (set_flags ff hf trs)
      | _ \<Rightarrow> Exit 1)"

text \<open>Two tracks of one language must differ in a flag.\<close>

fun duplicate_langs :: "track list \<Rightarrow> bool" where
  "duplicate_langs [] \<longleftrightarrow> False"
| "duplicate_langs (tr # trs) \<longleftrightarrow>
     list_ex (\<lambda>u. tk_lang tr = tk_lang u \<and> tk_forced tr = tk_forced u \<and> tk_hi tr = tk_hi u) trs \<or> duplicate_langs trs"

text \<open>PIDs that the user chose.\<close>

definition custom_pids :: "run_env \<Rightarrow> cli_args \<Rightarrow> MainCtx \<Rightarrow> MainCtx run" where
  "custom_pids env a ctx =
     (case pid_list a of
        None \<Rightarrow> Go ctx
      | Some _ \<Rightarrow>
          (case apply_custom_pids (rn_alloc env) (map (map_option fst \<circ> tr_stream) (mc_tracks ctx))
                  (map os_id (mc_out ctx)) (pid_list a) of (ret, ids) \<Rightarrow>
             if ret \<noteq> 0 then Exit ret
             else Go (ctx\<lparr>mc_out := map2 (\<lambda>s i. s\<lparr>os_id := i\<rparr>) (mc_out ctx) ids\<rparr>)))"

definition mux_rate :: "cli_args \<Rightarrow> MainCtx \<Rightarrow> int" where
  "mux_rate a ctx =
     (if ts_bitrate_mode a = TS_BITRATE_MODE_FIXED then ts_bitrate a
      else if ts_bitrate_mode a = TS_BITRATE_MODE_AUTO then mc_mux_rate ctx else 0)"

definition mux_opts :: "cli_args \<Rightarrow> MainCtx \<Rightarrow> (cstr \<times> cstr) list" where
  "mux_opts a ctx =
     [(''max_delay'', ''800000''), (''copyts'', ''1''), (''start_at_zero'', ''1'')] @
     (if mux_rate a ctx > 0 then [(''muxrate'', show_int (mux_rate a ctx))] else []) @
     (case mc_service_name ctx of None \<Rightarrow> [] | Some n \<Rightarrow> [(''service_name'', n)]) @
     (case mc_service_provider ctx of None \<Rightarrow> [] | Some n \<Rightarrow> [(''service_provider'', n)])"

subsection \<open>Pictures only\<close>

definition track_pictures :: "(nat \<Rightarrow> SRTEntry \<Rightarrow> Bitmap) \<Rightarrow> png_state \<Rightarrow> int \<Rightarrow> nat \<Rightarrow> SRTEntry list \<Rightarrow>
    (cstr \<times> Bitmap) list" where
  "track_pictures render st seq t es =
     List.map_filter
       (\<lambda>(i, e). map_option (\<lambda>name. (name, render t e)) (make_png_filename st PATH_MAX (seq + int i) (int t) (int i)))
       (zip [0..<length es] es)"

fun ctx_png_only_render_all :: "(nat \<Rightarrow> SRTEntry \<Rightarrow> Bitmap) \<Rightarrow> png_state \<Rightarrow> int \<Rightarrow> nat \<Rightarrow> track list \<Rightarrow>
    (cstr \<times> Bitmap) list" where
  "ctx_png_only_render_all render st seq t [] = []"
| "ctx_png_only_render_all render st seq t (tr # trs) =
     track_pictures render st seq t (tr_entries tr) @
     ctx_png_only_render_all render st (seq + int (length (tr_entries tr))) (t + 1) trs"

definition preview_init :: "cli_args \<Rightarrow> av_stream list \<Rightarrow> int \<Rightarrow> int \<Rightarrow> int list option \<Rightarrow> init_result" where
  "preview_init a sts w h delays =
     \<lparr>ir_ctx = \<lparr>mc_tracks = [], mc_out = [], mc_preserve_pids = False, mc_max_input_pid = 0, mc_overwrite_subs = False,
                mc_overwrite_langs = overwrite_langs a, mc_targets = [], mc_delay_vals = delays, mc_mux_rate = 0,
                mc_service_name = None, mc_service_provider = None\<rparr>,
      ir_input = \<lparr>fi_streams = sts, fi_programs = [], fi_start_time = None, fi_bit_rate = 0, fi_metadata = Map.empty\<rparr>,
      ir_video_w = w, ir_video_h = h, ir_start_pts90 = 0\<rparr>"

definition probe_streams :: "run_env \<Rightarrow> cli_args \<Rightarrow> av_stream list run" where
  "probe_streams env a =
     (case in_path a of
        None \<Rightarrow> Go []
      | Some p \<Rightarrow> (case rn_probe env p of None \<Rightarrow> Exit 1 | Some sts \<Rightarrow> Go sts))"

definition no_flags :: "bool list" where "no_flags = replicate 8 False"

definition preview :: "run_env \<Rightarrow> cli_args \<Rightarrow> SubtitlePositionConfig list \<Rightarrow> cstr \<times> cstr option \<Rightarrow> qc_state \<Rightarrow>
    (cstr \<times> Bitmap) list run" where
  "preview env a pos font q =
     (case init_png_path (ce_png (rn_cli env)) None (png_dir a) of (ret, st) \<Rightarrow>
        rbind (check (ret = 0) 1) (\<lambda>_.
        rbind (probe_streams env a) (\<lambda>sts.
        let w = fst (video_size sts (video_w a) (video_h a)); h = snd (video_size sts (video_w a) (video_h a))
        in rbind (check (te_alloc_output (rn_trk env)) 1) (\<lambda>_.
           rbind (check (te_encoder (rn_trk env)) 1) (\<lambda>_.
           rbind (case init_delays (rn_trk env) (subtitle_delay_list a) of Exit _ \<Rightarrow> Exit 1 | r \<Rightarrow> r) (\<lambda>delays.
           rbind (ctx_parse_tracks (rn_trk env) a (preview_init a sts w h delays) no_flags no_flags q) (\<lambda>(ctx, _).
           rbind (apply_flags env a (mc_tracks ctx)) (\<lambda>trs.
           Go (ctx_png_only_render_all
                 (render_cue env a (any_ass a trs) font pos (calculate_fontsize (cli_fontsize a) h) w h trs)
                 st (rn_png_seq env) 0 trs)))))))))"

subsection \<open>Multiplexing\<close>

record prepared =
  pr_args :: cli_args
  pr_init :: init_result
  pr_ctx :: MainCtx
  pr_pos :: "SubtitlePositionConfig list"
  pr_font :: "cstr \<times> cstr option"

definition set_up :: "run_env \<Rightarrow> cli_args \<Rightarrow> SubtitlePositionConfig list \<Rightarrow> cstr \<times> cstr option \<Rightarrow> qc_state \<Rightarrow>
    prepared run" where
  "set_up env a pos font q =
     rbind (ctx_init (rn_trk env) a) (\<lambda>ir.
     rbind (ctx_parse_tracks (rn_trk env) a ir no_flags no_flags q) (\<lambda>(ctx, _).
     rbind (custom_pids env a ctx) (\<lambda>ctx1.
     rbind (apply_flags env a (mc_tracks ctx1)) (\<lambda>trs.
     rbind (check (\<not> duplicate_langs trs) 1) (\<lambda>_.
     rbind (check (png_only a \<or> rn_open_output env (the (out_path a))) (- 1)) (\<lambda>_.
     rbind (check (png_only a \<or> rn_header env (mux_opts a ctx1)) (- 1)) (\<lambda>_.
     Go \<lparr>pr_args = a, pr_init = ir, pr_ctx = ctx1\<lparr>mc_tracks := trs\<rparr>, pr_pos = pos, pr_font = font\<rparr>)))))))"

definition main_denv :: "run_env \<Rightarrow> prepared \<Rightarrow> demux_env" where
  "main_denv env pr =
     (let a = pr_args pr; ctx = pr_ctx pr; ir = pr_init pr; sts = fi_streams (ir_input ir)
      in \<lparr>de_lib = rn_lib env, de_sizes = rn_sizes env,
          de_render = render_cue env a (any_ass a (mc_tracks ctx)) (pr_font pr) (pr_pos pr) (cli_fontsize a)
            (ir_video_w ir) (ir_video_h ir) (mc_tracks ctx),
          de_free_sub = rn_free_sub env, de_png_only = png_only a, de_start_pts90 = ir_start_pts90 ir,
          de_nb_streams = length sts, de_time_base = (\<lambda>s. st_time_base (sts ! s)), de_out_stream = Some,
          de_overwrite_subs = mc_overwrite_subs ctx, de_targets = mc_targets ctx, de_stop = rn_stop env\<rparr>)"

definition main_start :: "run_env \<Rightarrow> prepared \<Rightarrow> demux" where
  "main_start env pr =
     \<lparr>dx_tracks = map SubTrack.truncate (mc_tracks (pr_ctx pr)), dx_mux = rn_mux env, dx_last_valid = None,
      dx_pkt_count = 0, dx_subs_emitted = 0\<rparr>"

text \<open>The encoding buffers, which the cleanup at the end gives back.\<close>

fun free_tmpbufs :: "SubTrack list \<Rightarrow> pool \<Rightarrow> pool cres" where
  "free_tmpbufs [] p = Inr p"
| "free_tmpbufs (tr # trs) p =
     (case tr_tmpbuf tr of None \<Rightarrow> free_tmpbufs trs p | Some a \<Rightarrow> sbind (av_free a p) (free_tmpbufs trs))"

datatype finish =
    Checked qc_report qc_state
  | Pictures "(cstr \<times> Bitmap) list"
  | Muxed prepared demux pool

text \<open>The main loop and the end of the run. Nothing looks at the result of \<^verbatim>\<open>av_packet_alloc\<close>: where it fails, the loop
  reads into a null pointer.\<close>

definition multiplex :: "run_env \<Rightarrow> prepared \<Rightarrow> finish run" where
  "multiplex env pr =
     rbind (of_cres (if rn_pkt env then Inr () else Inl Out_of_bounds)) (\<lambda>_.
     rbind (of_cres (demux_loop (main_denv env pr) (rn_packets env) (main_start env pr))) (\<lambda>dx.
     rbind (of_cres (free_tmpbufs (dx_tracks dx) (mx_pool (dx_mux dx)))) (\<lambda>p.
     Go (Muxed pr dx p))))"

text \<open>The return value is that of an \<open>Exit\<close>, and 0 where the run has come to an end.\<close>

definition srt2dvbsub_run_cli :: "run_env \<Rightarrow> cstr list \<Rightarrow> runtime_opts \<Rightarrow> qc_state \<Rightarrow> finish run" where
  "srt2dvbsub_run_cli env args g q =
     (case cli_parse (rn_cli env) args (cli_start g) of (parse_status, a0) \<Rightarrow>
        if parse_status \<ge> 0 then Exit parse_status
        else
          rbind (prepare env a0) (\<lambda>(pos, font, a).
          if qc_only a then
            rbind (ctx_run_qc_only (rn_trk env) a (rn_qc_log env) (the (srt_list a)) (the (lang_list a)) q)
              (\<lambda>(rep, q'). Go (Checked rep q'))
          else if png_only a \<and> (in_path a = None \<or> out_path a = None) then
            rbind (preview env a pos font q) (\<lambda>pics. Go (Pictures pics))
          else
            rbind (set_up env a pos font q) (multiplex env)))"

text \<open>One track of libass takes all other tracks away from Pango.\<close>

lemma mixed_ass_null_track:
  assumes "use_ass a" and "tr \<in> set trs" and "tk_ass tr \<noteq> None" and "tk_ass (trs ! t) = None"
  shows "render_cue env a (any_ass a trs) font pos fontsize w h trs t e = ass_bitmap env a None (start_ms e)"
  using assms by (auto simp: any_ass_def render_cue_def list_ex_iff)

subsection \<open>What the preparation leaves\<close>

lemma truncate_fields [simp]:
  "tr_stream (SubTrack.truncate tr) = tr_stream tr" "tr_entries (SubTrack.truncate tr) = tr_entries tr"
  "tr_cur_sub (SubTrack.truncate tr) = tr_cur_sub tr" "tr_delay (SubTrack.truncate tr) = tr_delay tr"
  "tr_tmpbuf (SubTrack.truncate tr) = tr_tmpbuf tr" "tr_tmpbuf_size (SubTrack.truncate tr) = tr_tmpbuf_size tr"
  by (simp_all add: SubTrack.truncate_def)

lemma set_flags_fields:
  "length (set_flags ff hf trs) = length trs"
  "i < length trs \<Longrightarrow> set_flags ff hf trs ! i = (trs ! i)\<lparr>tk_forced := ff ! i, tk_hi := hf ! i\<rparr>"
  by (simp_all add: set_flags_def)

lemma set_flags_truncate [simp]: "map SubTrack.truncate (set_flags ff hf trs) = map SubTrack.truncate trs"
  by (rule nth_equalityI) (simp_all add: set_flags_fields SubTrack.truncate_def)

lemma custom_pids_frame:
  "custom_pids env a ctx = Go ctx' \<Longrightarrow>
   mc_tracks ctx' = mc_tracks ctx \<and> mc_targets ctx' = mc_targets ctx \<and> mc_overwrite_subs ctx' = mc_overwrite_subs ctx"
  by (auto simp: custom_pids_def split: option.splits prod.splits if_splits)

lemma apply_flags_Go:
  assumes "apply_flags env a trs = Go trs'"
  obtains ff hf where "parse_flag_list (rn_alloc env) (forced_list a) (int (length trs)) 8 = Some ff"
    and "parse_flag_list (rn_alloc env) (hi_list a) (int (length trs)) 8 = Some hf" and "trs' = set_flags ff hf trs"
  using assms by (auto simp: apply_flags_def split: option.splits)

lemma set_up_Go:
  assumes "set_up env a pos font q = Go pr"
  obtains ctx q' ctx1 ff hf where "ctx_init (rn_trk env) a = Go (pr_init pr)"
    and "ctx_parse_tracks (rn_trk env) a (pr_init pr) no_flags no_flags q = Go (ctx, q')"
    and "custom_pids env a ctx = Go ctx1"
    and "parse_flag_list (rn_alloc env) (forced_list a) (int (length (mc_tracks ctx))) 8 = Some ff"
    and "parse_flag_list (rn_alloc env) (hi_list a) (int (length (mc_tracks ctx))) 8 = Some hf"
    and "pr_ctx pr = ctx1\<lparr>mc_tracks := set_flags ff hf (mc_tracks ctx)\<rparr>" and "pr_args pr = a"
    and "\<not> duplicate_langs (mc_tracks (pr_ctx pr))"
proof -
  from assms obtain ir ctx q' ctx1 trs where r: "ctx_init (rn_trk env) a = Go ir"
    "ctx_parse_tracks (rn_trk env) a ir no_flags no_flags q = Go (ctx, q')" "custom_pids env a ctx = Go ctx1"
    "apply_flags env a (mc_tracks ctx1) = Go trs" "\<not> duplicate_langs trs"
    "pr = \<lparr>pr_args = a, pr_init = ir, pr_ctx = ctx1\<lparr>mc_tracks := trs\<rparr>, pr_pos = pos, pr_font = font\<rparr>"
    by (auto simp: set_up_def rbind_eq_Go_iff)
  have t: "mc_tracks ctx1 = mc_tracks ctx" using custom_pids_frame [OF r(3)] by simp
  from r(4) obtain ff hf where "parse_flag_list (rn_alloc env) (forced_list a) (int (length (mc_tracks ctx))) 8 = Some ff"
    "parse_flag_list (rn_alloc env) (hi_list a) (int (length (mc_tracks ctx))) 8 = Some hf"
    "trs = set_flags ff hf (mc_tracks ctx)"
    unfolding t by (rule apply_flags_Go)
  with r show thesis by (intro that) auto
qed

text \<open>The tracks of the main loop have streams of their own, in which nothing else is written.\<close>

lemma set_up_streams:
  assumes "set_up env a pos font q = Go pr"
  shows "own_streams (dx_tracks (main_start env pr))" and "streams_apart (main_denv env pr) (dx_tracks (main_start env pr))"
    and "\<forall>tr\<in>set (dx_tracks (main_start env pr)). tr_tmpbuf tr = None \<and> tr_tmpbuf_size tr = 0 \<and> tr_cur_sub tr = 0"
proof -
  let ?nb = "length (fi_streams (ir_input (pr_init pr)))"
  obtain ctx q' ctx1 ff hf where r: "ctx_init (rn_trk env) a = Go (pr_init pr)"
    "ctx_parse_tracks (rn_trk env) a (pr_init pr) no_flags no_flags q = Go (ctx, q')"
    "custom_pids env a ctx = Go ctx1" "pr_ctx pr = ctx1\<lparr>mc_tracks := set_flags ff hf (mc_tracks ctx)\<rparr>"
    by (rule set_up_Go [OF assms])
  have trs: "dx_tracks (main_start env pr) = map SubTrack.truncate (mc_tracks ctx)"
    by (simp add: main_start_def r(4))
  note inv = ctx_parse_tracks_inv [OF r(1,2)]
  have "map tr_stream (map SubTrack.truncate (mc_tracks ctx)) = map tr_stream (mc_tracks ctx)" by simp
  with inv show "own_streams (dx_tracks (main_start env pr))"
    unfolding trs own_streams_def by (auto simp: ctx_inv_def track_placed_def comp_def)
  show "\<forall>tr\<in>set (dx_tracks (main_start env pr)). tr_tmpbuf tr = None \<and> tr_tmpbuf_size tr = 0 \<and> tr_cur_sub tr = 0"
    using inv by (auto simp: trs ctx_inv_def track_fresh_def)
  have "s \<notin> sub_streams (dx_tracks (main_start env pr))"
    if "s < ?nb" "\<not> is_overwrite_stream (mc_overwrite_subs ctx) (mc_targets ctx) (int s)" for s
  proof
    assume "s \<in> sub_streams (dx_tracks (main_start env pr))"
    then obtain tr where "tr \<in> set (mc_tracks ctx)" "tr_stream tr = Some (s, tb_90k)"
      by (auto simp: trs sub_streams_def)
    with inv that(1) obtain t where "t \<in> set (mc_targets ctx)" "ow_used t" "ow_out_stream t = int s"
      by (auto simp: ctx_inv_def track_placed_def)
    with inv that(2) show False by (auto simp: ctx_inv_def targets_ok_def is_overwrite_stream_def list_ex_iff)
  qed
  then show "streams_apart (main_denv env pr) (dx_tracks (main_start env pr))"
    using custom_pids_frame [OF r(3)] by (simp add: streams_apart_def main_denv_def Let_def r(4))
qed

subsection \<open>Bitmaps\<close>

text \<open>What is relied on of libass: the tiles are as documented, lie within a quarter of the range of \<^verbatim>\<open>int\<close>, and
  where there is a tile one has at least the eight pixels that the pool needs.\<close>

definition tiles_ok :: "ASS_Image list \<Rightarrow> bool" where
  "tiles_ok imgs \<longleftrightarrow> list_all tile_ok imgs \<and> (\<forall>t\<in>drawn imgs. in_frame t) \<and>
     (drawn imgs \<noteq> {} \<longrightarrow> (\<exists>t\<in>drawn imgs. 8 \<le> im_w t * im_h t))"

lemma box_at_least_tile:
  assumes "t \<in> drawn imgs"
  shows "im_w t \<le> Max ((\<lambda>t. im_dst_x t + im_w t) ` drawn imgs) - Min (im_dst_x ` drawn imgs)"
    and "im_h t \<le> Max ((\<lambda>t. im_dst_y t + im_h t) ` drawn imgs) - Min (im_dst_y ` drawn imgs)"
proof -
  have "im_dst_x t + im_w t \<le> Max ((\<lambda>t. im_dst_x t + im_w t) ` drawn imgs)" "Min (im_dst_x ` drawn imgs) \<le> im_dst_x t"
    "im_dst_y t + im_h t \<le> Max ((\<lambda>t. im_dst_y t + im_h t) ` drawn imgs)" "Min (im_dst_y ` drawn imgs) \<le> im_dst_y t"
    using assms by (auto intro!: Max_ge Min_le)
  then show "im_w t \<le> Max ((\<lambda>t. im_dst_x t + im_w t) ` drawn imgs) - Min (im_dst_x ` drawn imgs)"
    "im_h t \<le> Max ((\<lambda>t. im_dst_y t + im_h t) ` drawn imgs) - Min (im_dst_y ` drawn imgs)" by simp_all
qed

lemma no_bitmap_ok: "bitmap_ok no_bitmap"
  by (simp add: bitmap_ok_def no_bitmap_def)

lemma render_ass_frame_ok:
  assumes "tiles_ok imgs" and "palette_cache_ok cache"
  shows "\<exists>bm cache'. render_ass_frame env imgs mode cache = Inr (bm, cache') \<and> bitmap_ok bm"
proof (cases "drawn imgs = {}")
  case True
  then have "union_box imgs (INT_MAX, INT_MAX, INT_MIN, INT_MIN) = (INT_MAX, INT_MAX, INT_MIN, INT_MIN)"
    by (simp add: union_box_eq)
  then show ?thesis by (simp add: render_ass_frame_def INT_MAX_def INT_MIN_def no_bitmap_ok)
next
  case False
  have fr: "\<forall>t\<in>drawn imgs. in_frame t" and ok1: "list_all tile_ok imgs" using assms(1) by (auto simp: tiles_ok_def)
  note U = union_box_drawn [OF False fr]
  define minx miny w h where
    "minx = Min (im_dst_x ` drawn imgs)" and "miny = Min (im_dst_y ` drawn imgs)"
    and "w = Max ((\<lambda>t. im_dst_x t + im_w t) ` drawn imgs) - Min (im_dst_x ` drawn imgs)"
    and "h = Max ((\<lambda>t. im_dst_y t + im_h t) ` drawn imgs) - Min (im_dst_y ` drawn imgs)"
  have box: "union_box imgs (INT_MAX, INT_MAX, INT_MIN, INT_MIN) = (minx, miny, minx + w, miny + h)"
    using U(1) by (simp add: minx_def miny_def w_def h_def)
  have wh: "0 < w" "0 < h" "w \<le> 2147483647" "h \<le> 2147483647" using U(2-5) by (simp_all add: w_def h_def)
  have px: "nat w * nat h mod (SIZE_MAX + 1) = nat w * nat h" using wh by (rule pixel_count_exact)
  from False assms(1) obtain t where t: "t \<in> drawn imgs" "8 \<le> im_w t * im_h t" unfolding tiles_ok_def by blast
  then have "0 < im_w t" "0 < im_h t" "8 \<le> im_w t * im_h t" by (auto simp: drawn_def)
  moreover have "im_w t \<le> w" "im_h t \<le> h" using box_at_least_tile [OF t(1)] by (simp_all add: w_def h_def)
  ultimately have big: "8 \<le> w * h" using mult_mono [of "im_w t" w "im_h t" h] by linarith
  obtain pal cache' where pc: "cached_palette (fe_strdup env) mode cache = (pal, cache')" by (rule prod.exhaust)
  let ?b = "(minx, miny, w, h)" and ?st = "(replicate (nat w * nat h) 0, replicate (nat w * nat h) 0)"
  have ok: "planes_ok ?b ?st" using wh by (simp add: planes_ok_def)
  obtain cov idx where d: "draw_tiles pal ?b imgs ([], 0) ?st = Inr (cov, idx)" "planes_ok ?b (cov, idx)"
    using draw_tiles_ok [OF ok ok1, of pal "([], 0)"] by (auto simp: color_cache_ok_def)
  have len: "length idx = nat w * nat h" using d(2) by (simp add: planes_ok_def)
  have pal: "length (palette_bytes pal) = 64"
    using cached_palette_ok [OF assms(2) pc] by (simp add: palette_bytes_def length_concat comp_def sum_list_triv)
  have "imgs \<noteq> []" using False by auto
  with wh big len pal show ?thesis
    by (simp add: render_ass_frame_def box px [simplified] pc d(1) Let_def bitmap_ok_def no_bitmap_def)
qed

definition renders_ok :: "run_env \<Rightarrow> bool" where
  "renders_ok env \<longleftrightarrow> (\<forall>args. bitmap_ok (rn_pango env args)) \<and> (\<forall>evs ms. tiles_ok (rn_tiles env evs ms))"

text \<open>Neither renderer hides a fault: the markup always fits its buffer, and the tiles always fit the bitmap.\<close>

lemma cue_markup_defined: "srt_to_pango_markup alloc (Some (entry_text e)) = Inr (cue_markup alloc e)"
proof (cases "alloc (markup_size (entry_text e))")
  case True
  have "length [] < markup_size (entry_text e)" by (simp add: markup_size_def)
  from markup_loop_safe [OF this, of "entry_text e"] True srt_to_pango_markup_eq [of alloc "entry_text e"]
  show ?thesis by (auto simp: cue_markup_def)
qed (simp add: cue_markup_def srt_to_pango_markup_def)

lemma ass_bitmap_defined:
  assumes "renders_ok env"
  shows "\<exists>cache. render_ass_frame (rn_frame env) (rn_tiles env evs (to_int32 ms)) (Some (palette_mode a))
      (replicate PALETTE_CACHE_SIZE None) = Inr (ass_bitmap env a evs ms, cache) \<and> bitmap_ok (ass_bitmap env a evs ms)"
proof -
  have "palette_cache_ok (replicate PALETTE_CACHE_SIZE None)" by (simp add: palette_cache_ok_def)
  from render_ass_frame_ok [OF _ this, of "rn_tiles env evs (to_int32 ms)" "rn_frame env" "Some (palette_mode a)"] assms
  show ?thesis by (auto simp: ass_bitmap_def renders_ok_def)
qed

lemma render_cue_ok:
  assumes "renders_ok env"
  shows "bitmap_ok (render_cue env a ass font pos fs w h trs t e)"
  using assms ass_bitmap_defined [OF assms] by (auto simp: render_cue_def renders_ok_def)

subsection \<open>The main loop of a run\<close>

lemma main_start_fields [simp]:
  "dx_mux (main_start env pr) = rn_mux env" "dx_last_valid (main_start env pr) = None"
  "dx_pkt_count (main_start env pr) = 0"
  "dx_tracks (main_start env pr) = map SubTrack.truncate (mc_tracks (pr_ctx pr))"
  by (simp_all add: main_start_def)

lemma no_tmpbufs: "\<forall>tr\<in>set trs. tr_tmpbuf tr = None \<Longrightarrow> List.map_filter tr_tmpbuf trs = []"
  by (induction trs) simp_all

lemma main_loop_safe:
  assumes "set_up env a pos font q = Go pr" and "encoder_ok (rn_lib env)" and "frees_rects (rn_free_sub env)"
    and "renders_ok env" and "pool_inv (mx_pool (rn_mux env))"
  shows "\<exists>dx. demux_loop (main_denv env pr) (rn_packets env) (main_start env pr) = Inr dx \<and>
    all_mem_ok (dx_tracks dx) (mx_pool (dx_mux dx)) \<and>
    mem_grows (dx_tracks (main_start env pr), mx_pool (rn_mux env)) (dx_tracks dx, mx_pool (dx_mux dx))"
proof -
  have "env_ok (main_denv env pr)"
    using assms(2-4) by (simp add: env_ok_def main_denv_def Let_def render_cue_ok)
  moreover have "all_mem_ok (dx_tracks (main_start env pr)) (mx_pool (dx_mux (main_start env pr)))"
    using set_up_streams(3) [OF assms(1)] assms(5) no_tmpbufs [of "dx_tracks (main_start env pr)"]
    by (simp add: all_mem_ok_def tmpbuf_ok_def)
  ultimately show ?thesis using demux_loop_safe [of "main_denv env pr" "main_start env pr"] by simp
qed

lemma run_cli_Muxed:
  assumes "srt2dvbsub_run_cli env args g q = Go (Muxed pr dx p)"
  obtains a0 a pos font where "prepare env a0 = Go (pos, font, a)" and "set_up env a pos font q = Go pr"
    and "demux_loop (main_denv env pr) (rn_packets env) (main_start env pr) = Inr dx"
    and "free_tmpbufs (dx_tracks dx) (mx_pool (dx_mux dx)) = Inr p"
  using assms
  by (auto simp: srt2dvbsub_run_cli_def multiplex_def rbind_eq_Go_iff split: prod.splits if_splits)

lemma set_up_tracks:
  assumes "set_up env a pos font q = Go pr" and "t < length (mc_tracks (pr_ctx pr))"
  shows "pr_args pr = a \<and> (\<exists>ctx. track_from (rn_trk env) a ctx t (tokens (CHR '','') (the (srt_list a)) ! t)
    (tokens (CHR '','') (the (lang_list a)) ! t) (mc_tracks (pr_ctx pr) ! t))"
proof -
  obtain ctx q' ctx1 ff hf where r: "ctx_init (rn_trk env) a = Go (pr_init pr)"
    "ctx_parse_tracks (rn_trk env) a (pr_init pr) no_flags no_flags q = Go (ctx, q')"
    "custom_pids env a ctx = Go ctx1" "pr_ctx pr = ctx1\<lparr>mc_tracks := set_flags ff hf (mc_tracks ctx)\<rparr>" "pr_args pr = a"
    by (rule set_up_Go [OF assms(1)])
  have t: "t < length (mc_tracks ctx)" using assms(2) by (simp add: r(4) set_flags_fields)
  have e: "mc_tracks (pr_ctx pr) ! t = (mc_tracks ctx ! t)\<lparr>tk_forced := ff ! t, tk_hi := hf ! t\<rparr>"
    using t by (simp add: r(4) set_flags_fields)
  from track_loop_from [OF r(2) [unfolded ctx_parse_tracks_def]] t
  have "track_from (rn_trk env) a (ir_ctx (pr_init pr)) t (tokens (CHR '','') (the (srt_list a)) ! t)
    (tokens (CHR '','') (the (lang_list a)) ! t) (mc_tracks ctx ! t)"
    by (auto simp: ctx_init_inv(2) [OF r(1)])
  then have "track_from (rn_trk env) a (ir_ctx (pr_init pr)) t (tokens (CHR '','') (the (srt_list a)) ! t)
    (tokens (CHR '','') (the (lang_list a)) ! t) (mc_tracks (pr_ctx pr) ! t)"
    unfolding e by (auto simp: track_from_def)
  with r(5) show ?thesis by blast
qed

lemma track_from_order:
  assumes "track_from env a ctx n tok l tr"
  shows "cues_in_order (SubTrack.truncate tr)"
proof -
  from assms consider (parsed) penv q q' where "parse_srt_internal penv (te_file env tok) q = Inr (tr_entries tr, q')"
    | (none) "tr_entries tr = []" by (auto simp: track_from_def)
  then show ?thesis
  proof cases
    case parsed
    then show ?thesis by (rule parsed_in_order) simp
  qed (simp add: cues_in_order_def)
qed

subsection \<open>What a run delivers\<close>



subsection \<open>Faults\<close>

text \<open>A fault that reading a subtitle file explains: in one of the parsers, or in the conversion for libass.\<close>

definition file_fault :: "run_env \<Rightarrow> cstr \<Rightarrow> cfault \<Rightarrow> bool" where
  "file_fault env f e \<longleftrightarrow>
     (\<exists>penv q. parse_srt_internal penv (te_file (rn_trk env) f) q = Inl (Parse_fault e)) \<or>
     (\<exists>penv cfg q. parse_srt_with_stats penv cfg True (te_file (rn_trk env) f) q = Inl (Parse_fault e)) \<or>
     (\<exists>penv q es q' c. parse_srt_internal penv (te_file (rn_trk env) f) q = Inr (es, q') \<and> c \<in> set es \<and>
        srt_html_to_ass (rn_alloc env) (entry_text c) = Inl e)"

lemma rbind_eq_Fault_iff: "rbind r f = Fault e \<longleftrightarrow> r = Fault e \<or> (\<exists>x. r = Go x \<and> f x = Fault e)"
  by (cases r) simp_all

lemma check_no_fault [simp]: "check b i \<noteq> Fault e"
  by (simp add: check_def)

lemma of_cres_Fault [simp]: "of_cres r = Fault e \<longleftrightarrow> r = Inl e"
  by (auto simp: of_cres_def split: sum.splits)

lemma parse_srt_cfg_fault: "parse_srt_cfg penv f q = Inl e \<Longrightarrow> parse_srt_internal penv f q = Inl (Parse_fault e)"
  by (auto simp: parse_srt_cfg_def split: sum.splits parse_error.splits cfault.splits)

lemma ass_events_fault:
  "ass_events alloc delay es = Inl e \<Longrightarrow> \<exists>c\<in>set es. srt_html_to_ass alloc (entry_text c) = Inl e"
proof (induction es)
  case (Cons c es)
  then show ?case by (fastforce simp: sbind_eq_Inl_iff split: sum.splits cfault.splits)
qed simp

lemma load_cues_fault:
  assumes "load_cues (rn_trk env) a w h tok n delay q = Fault e"
  shows "file_fault env tok e"
  using assms unfolding load_cues_def file_fault_def
  by (auto simp: rbind_eq_Fault_iff split: if_splits option.splits
      dest!: parse_srt_cfg_fault parse_srt_cfg_Some ass_events_fault) blast+

lemma place_stream_no_fault: "place_stream env a lang forced hi ctx \<noteq> Fault e"
  by (simp add: place_stream_def Let_def split: option.splits)

lemma add_track_fault:
  "add_track (rn_trk env) a w h ff hf tok l s = Fault e \<Longrightarrow> file_fault env tok e"
  by (auto simp: add_track_def Let_def rbind_eq_Fault_iff place_stream_no_fault split: prod.splits
      dest!: load_cues_fault)

lemma track_loop_fault:
  "track_loop (rn_trk env) a w h ff hf toks ls s = Fault e \<Longrightarrow> \<exists>f\<in>set toks. file_fault env f e"
proof (induction toks arbitrary: ls s)
  case (Cons tok toks)
  then show ?case
    by (cases ls) (auto simp: rbind_eq_Fault_iff split: if_splits dest: add_track_fault)
qed simp

lemma init_no_fault: "ctx_init env a \<noteq> Fault e"
proof -
  have m: "mirror_streams env i sts ctx \<noteq> Fault e" for i sts ctx
    by (induction env i sts ctx rule: mirror_streams.induct) simp_all
  show ?thesis
    by (auto simp: ctx_init_def Let_def rbind_eq_Fault_iff m init_delays_def split: option.splits prod.splits if_splits)
qed

lemma ctx_parse_tracks_fault:
  "ctx_parse_tracks (rn_trk env) a ir ff hf q = Fault e \<Longrightarrow>
   \<exists>f\<in>set (tokens (CHR '','') (the (srt_list a))). file_fault env f e"
  unfolding ctx_parse_tracks_def by (rule track_loop_fault)

lemma apply_flags_no_fault: "apply_flags env a trs \<noteq> Fault e"
  by (simp add: apply_flags_def split: option.split)

lemma custom_pids_no_fault: "custom_pids env a ctx \<noteq> Fault e"
  by (simp add: custom_pids_def split: option.split prod.split)

lemma set_up_fault:
  "set_up env a pos font q = Fault e \<Longrightarrow> \<exists>f\<in>set (tokens (CHR '','') (the (srt_list a))). file_fault env f e"
  by (auto simp: set_up_def rbind_eq_Fault_iff init_no_fault apply_flags_no_fault custom_pids_no_fault
      dest!: ctx_parse_tracks_fault)

lemma preview_fault:
  "preview env a pos font q = Fault e \<Longrightarrow> \<exists>f\<in>set (tokens (CHR '','') (the (srt_list a))). file_fault env f e"
  by (auto simp: preview_def Let_def rbind_eq_Fault_iff apply_flags_no_fault probe_streams_def init_delays_def
      split: prod.splits option.splits run.splits if_splits dest!: ctx_parse_tracks_fault)

lemma qc_files_fault:
  "qc_files (rn_trk env) a fs s = Inl e \<Longrightarrow> \<exists>f\<in>set fs. file_fault env f e"
proof (induction fs arbitrary: s)
  case (Cons f fs)
  have "file_fault env f e" if "qc_file (rn_trk env) a f s = Inl e"
    using that unfolding qc_file_def file_fault_def Let_def
    by (auto split: prod.splits sum.splits parse_error.splits)
  with Cons show ?case by (auto simp: sbind_eq_Inl_iff)
qed simp

lemma qc_only_fault:
  assumes "ctx_run_qc_only (rn_trk env) a lg srts langs q = Fault e"
  shows "\<exists>f\<in>set (tokens (CHR '','') srts). file_fault env f e"
proof -
  from assms obtain fs s where
    fs: "collect_files (rn_alloc env) 0 (tokens (CHR '','') srts) (tokens (CHR '','') langs) = Some fs"
    and r: "qc_files (rn_trk env) a (map fst fs) s = Inl e"
    by (auto simp: ctx_run_qc_only_def rbind_eq_Fault_iff split: option.splits)
  from qc_files_fault [OF r] show ?thesis unfolding collect_files_names [OF fs] .
qed

lemma prepare_keeps:
  "prepare env a = Go (pos, font, a') \<Longrightarrow> srt_list a' = srt_list a \<and> lang_list a' = lang_list a"
  by (auto simp: prepare_def Let_def split: sum.splits option.splits if_splits)

lemma prepare_no_fault: "prepare env a \<noteq> Fault e"
  by (simp add: prepare_def Let_def split: sum.splits option.splits)

lemma free_tmpbufs_list: "free_tmpbufs trs = free_list (List.map_filter tr_tmpbuf trs)"
proof (induction trs)
  case (Cons tr trs)
  show ?case by (rule ext) (simp add: Cons split: option.split)
qed (simp add: fun_eq_iff)

lemma run_loop_returns:
  assumes "set_up env a pos font q = Go pr" and "encoder_ok (rn_lib env)" and "frees_rects (rn_free_sub env)"
    and "renders_ok env" and "pool_inv (mx_pool (rn_mux env))"
  obtains dx p where "demux_loop (main_denv env pr) (rn_packets env) (main_start env pr) = Inr dx"
    and "free_tmpbufs (dx_tracks dx) (mx_pool (dx_mux dx)) = Inr p"
    and "pool_used p = pool_used (mx_pool (rn_mux env))"
proof -
  let ?u = "pool_used (mx_pool (rn_mux env))"
  from main_loop_safe [OF assms] obtain dx where
    d: "demux_loop (main_denv env pr) (rn_packets env) (main_start env pr) = Inr dx"
    and ok: "all_mem_ok (dx_tracks dx) (mx_pool (dx_mux dx))"
    and gr: "mem_grows (dx_tracks (main_start env pr), mx_pool (rn_mux env)) (dx_tracks dx, mx_pool (dx_mux dx))"
    by blast
  let ?v = "pool_used (mx_pool (dx_mux dx))" and ?T = "tmpbufs (dx_tracks dx)"
  have "?T \<subseteq> dom ?v" using ok by (fastforce simp: all_mem_ok_def tmpbufs_def tmpbuf_ok_def)
  with ok free_list_ok [of "mx_pool (dx_mux dx)" "List.map_filter tr_tmpbuf (dx_tracks dx)"] obtain p where
    p: "free_tmpbufs (dx_tracks dx) (mx_pool (dx_mux dx)) = Inr p" "pool_used p = ?v |` (- ?T)"
    by (auto simp: all_mem_ok_def tmpbufs_set free_tmpbufs_list)
  have "tmpbufs (dx_tracks (main_start env pr)) = {}"
    using set_up_streams(3) [OF assms(1)] by (auto simp: tmpbufs_def)
  with gr have g: "?u \<subseteq>\<^sub>m ?v" "dom ?v \<subseteq> dom ?u \<union> ?T" "?T \<inter> dom ?u = {}" by (auto simp: mem_grows_def)
  have "(?v |` (- ?T)) x = ?u x" for x
  proof (cases "x \<in> dom ?u")
    case True
    with g have "x \<notin> ?T" "?v x = ?u x" by (auto simp: map_le_def)
    then show ?thesis by simp
  next
    case False
    with g(2) have "(?v |` (- ?T)) x = None" by (cases "x \<in> ?T") (auto simp: domIff)
    with False show ?thesis by (simp add: domIff)
  qed
  with p(2) have "pool_used p = ?u" by (simp add: fun_eq_iff)
  with d p(1) show thesis by (rule that)
qed

lemma run_cli_Fault:
  assumes "srt2dvbsub_run_cli env args g q = Fault e" and "cli_parse (rn_cli env) args (cli_start g) = (st, a0)"
  obtains pos font a where "prepare env a0 = Go (pos, font, a)"
    and "ctx_run_qc_only (rn_trk env) a (rn_qc_log env) (the (srt_list a)) (the (lang_list a)) q = Fault e"
  | pos font a where "prepare env a0 = Go (pos, font, a)" and "preview env a pos font q = Fault e"
  | pos font a where "prepare env a0 = Go (pos, font, a)" and "set_up env a pos font q = Fault e"
  | pos font a pr where "prepare env a0 = Go (pos, font, a)" and "set_up env a pos font q = Go pr"
    and "multiplex env pr = Fault e"
proof -
  have "\<not> 0 \<le> st" using assms by (auto simp: srt2dvbsub_run_cli_def)
  with assms obtain pos font a where p: "prepare env a0 = Go (pos, font, a)"
    and r: "(if qc_only a then
        rbind (ctx_run_qc_only (rn_trk env) a (rn_qc_log env) (the (srt_list a)) (the (lang_list a)) q)
          (\<lambda>(rep, q'). Go (Checked rep q'))
      else if png_only a \<and> (in_path a = None \<or> out_path a = None) then
        rbind (preview env a pos font q) (\<lambda>pics. Go (Pictures pics))
      else rbind (set_up env a pos font q) (multiplex env)) = Fault e"
    unfolding srt2dvbsub_run_cli_def by (cases "prepare env a0") (auto simp: prepare_no_fault)
  show thesis
  proof (cases "qc_only a")
    case True
    with r have "ctx_run_qc_only (rn_trk env) a (rn_qc_log env) (the (srt_list a)) (the (lang_list a)) q = Fault e"
      by (simp only: if_True rbind_eq_Fault_iff) auto
    with p show thesis by (rule that(1))
  next
    case nq: False
    show thesis
    proof (cases "png_only a \<and> (in_path a = None \<or> out_path a = None)")
      case True
      with r nq have "preview env a pos font q = Fault e"
        by (simp only: simp_thms if_True if_False rbind_eq_Fault_iff) auto
      with p show thesis by (rule that(2))
    next
      case False
      note m = r [unfolded if_not_P [OF nq] if_not_P [OF False]]
      show thesis
      proof (cases "set_up env a pos font q")
        case (Go pr)
        with m have "multiplex env pr = Fault e" by simp
        with p Go show thesis by (rule that(4))
      qed (use m p that(3) in auto)
    qed
  qed
qed


subsection \<open>An example\<close>

definition sample_with :: "mux_lib \<Rightarrow> run_env" where
  "sample_with lib =
     \<lparr>rn_cli = sample_cli_env, rn_trk = sample_tenv, rn_font = (\<lambda>f. f = ''Roboto''), rn_qc_log = True,
      rn_probe = (\<lambda>_. None), rn_threads = 8, rn_pango = (\<lambda>_. sample_bitmap), rn_tiles = (\<lambda>_ _. []),
      rn_frame = \<lparr>fe_strdup = (\<lambda>_. True), fe_idxbuf = True, fe_covbuf = True, fe_palette = True\<rparr>,
      rn_open_output = (\<lambda>_. True), rn_header = (\<lambda>_. True), rn_pkt = True, rn_packets = sample_pkts, rn_stop = (\<lambda>_. False),
      rn_png_seq = 0, rn_lib = lib, rn_sizes = \<lparr>sz_sub = 32, sz_rect = 64\<rparr>, rn_free_sub = sample_free,
      rn_mux = sample_mux\<rparr>"

abbreviation sample_renv :: run_env where
  "sample_renv \<equiv> sample_with sample_lib"

definition sample_cmdline :: "cstr list" where
  "sample_cmdline = [''--input'', ''in.ts'', ''--output'', ''out.ts'', ''-s'', ''a.srt'', ''-l'', ''eng'']"

definition sample_prepared :: "mux_lib \<Rightarrow> prepared run" where
  "sample_prepared lib =
     (case cli_parse (rn_cli (sample_with lib)) sample_cmdline (cli_start default_opts) of (st, a0) \<Rightarrow>
        if st \<ge> 0 then Exit st
        else
          rbind (prepare (sample_with lib) a0) (\<lambda>(pos, font, a).
          if qc_only a \<or> png_only a then Exit 2 else set_up (sample_with lib) a pos font sample_q))"

lemma sample_prepared_ran:
  "ran (rbind (sample_prepared lib) (\<lambda>pr. check (length (mc_tracks (pr_ctx pr)) = 1 \<and> fst (pr_font pr) = ''Roboto'' \<and>
     map (\<lambda>e. start_ms e) (tr_entries (mc_tracks (pr_ctx pr) ! 0)) = [1000]) 0))"
  by code_simp

lemma sample_renv_ok:
  "encoder_ok (rn_lib sample_renv)" "frees_rects (rn_free_sub sample_renv)" "renders_ok sample_renv"
  "pool_inv (mx_pool (rn_mux sample_renv))" "mx_out (rn_mux sample_renv) = []"
  by (simp_all add: sample_with_def sample_lib_ok sample_free_ok renders_ok_def tiles_ok_def sample_bitmap_ok sample_mux_def
      pool_inv_empty)

lemma sample_run_cli:
  obtains pr dx p where "srt2dvbsub_run_cli sample_renv sample_cmdline default_opts sample_q = Go (Muxed pr dx p)"
    and "length (mc_tracks (pr_ctx pr)) = 1"
    and "map start_ms (tr_entries (mc_tracks (pr_ctx pr) ! 0)) = [1000]"
proof -
  obtain st a0 where c: "cli_parse (rn_cli sample_renv) sample_cmdline (cli_start default_opts) = (st, a0)"
    by (rule prod.exhaust)
  from sample_prepared_ran [of sample_lib] obtain pr where pr: "sample_prepared sample_lib = Go pr" "length (mc_tracks (pr_ctx pr)) = 1"
    "map start_ms (tr_entries (mc_tracks (pr_ctx pr) ! 0)) = [1000]" by (auto simp: ran_Go rbind_eq_Go_iff)
  then obtain pos font a where a: "\<not> 0 \<le> st" "prepare sample_renv a0 = Go (pos, font, a)" "\<not> qc_only a" "\<not> png_only a"
    and s: "set_up sample_renv a pos font sample_q = Go pr"
    by (auto simp: sample_prepared_def c rbind_eq_Go_iff split: if_splits)
  obtain dx p where "demux_loop (main_denv sample_renv pr) (rn_packets sample_renv) (main_start sample_renv pr) = Inr dx"
    "free_tmpbufs (dx_tracks dx) (mx_pool (dx_mux dx)) = Inr p"
    by (rule run_loop_returns [OF s sample_renv_ok(1-4)])
  moreover have "rn_pkt sample_renv" by (simp add: sample_with_def)
  ultimately have "srt2dvbsub_run_cli sample_renv sample_cmdline default_opts sample_q = Go (Muxed pr dx p)"
    using a s c by (simp add: srt2dvbsub_run_cli_def multiplex_def of_cres_def)
  with pr show thesis by (intro that)
qed




end
