(* ===== verification/Spec2Isabelle.thy ===== *)
theory Spec2Isabelle
  imports Srt_roundtrip Batch Run
begin

text \<open>
  A model of \<^verbatim>\<open>srt2dvbsub\<close>, which turns SRT subtitle files into DVB subtitle streams.

  \<^bold>\<open>The program.\<close> Options come from the command line (\<^verbatim>\<open>srt2dvbsub.c\<close>, \<^verbatim>\<open>delay_parse.c\<close>,
  \<^verbatim>\<open>lang_parse.c\<close>, \<^verbatim>\<open>utils.c\<close>, \<^verbatim>\<open>render_params.c\<close>). \<^verbatim>\<open>srt_parser.c\<close> reads a subtitle file
  into a list of cues and hands every cue to the checks of \<^verbatim>\<open>qc.c\<close>. The main loop of
  \<^verbatim>\<open>srt2dvbsub.c\<close> copies the packets of the input and, when the time of a cue has come, has it rendered
  into a bitmap, possibly by the threads of \<^verbatim>\<open>render_pool.c\<close>; \<^verbatim>\<open>dvb_sub.c\<close> makes a subtitle of the
  bitmap with buffers from \<^verbatim>\<open>pool_alloc.c\<close>, and \<^verbatim>\<open>muxsub.c\<close> encodes and writes it.
  \<^verbatim>\<open>batch_encode.c\<close> runs the program over a directory of streams, for each of which it searches the
  subtitle files by templates over the name.

  \<^bold>\<open>The theories.\<close>
  \<^item> \<open>Prelude\<close>, \<open>Clib\<close>: C strings as byte lists, faults, the part of the C library that is used
    (\<^verbatim>\<open>strtol\<close>, \<^verbatim>\<open>sscanf\<close>, \<^verbatim>\<open>strtok_r\<close>, \<^verbatim>\<open>fgets\<close>), and printing with its inverse laws.
  \<^item> \<open>Srt_types\<close>: the structures of \<^verbatim>\<open>srt_parser.h\<close>.
  \<^item> \<open>Utf8_text\<close>: \<^verbatim>\<open>u8_len\<close>, \<^verbatim>\<open>visible_len\<close>, \<^verbatim>\<open>sanitize_utf8\<close>, \<^verbatim>\<open>strip_tags\<close>. The locale
    \<open>walk\<close> holds what is common to counting loops over code points.
  \<^item> \<open>Text_buffer\<close>: growing buffers with their capacity; the locale \<open>appender\<close> is the contract of
    the three ways in which the sources append.
  \<^item> \<open>Srt_text\<close>: \<^verbatim>\<open>normalize_cue_text\<close> and the small text edits.
  \<^item> \<open>Qc\<close>: \<^verbatim>\<open>qc_check_entry\<close> with its reports as values.
  \<^item> \<open>Srt_parser\<close>, \<open>Srt_stats\<close>: the two parsers, from the bytes of the file to the cues, the quality
    reports and the statistics. \<open>Srt_roundtrip\<close>: printing cues and parsing them back.
  \<^item> \<open>Cli_lists\<close>, \<open>Pids\<close>: comma-separated options; the locale \<open>item_parser\<close> is the loop over the
    items that delays, languages and PIDs share.
  \<^item> \<open>Pool_alloc\<close>, \<open>Dvb_sub\<close>: a heap of blocks, the buffer pool, and \<^verbatim>\<open>make_subtitle\<close> on top of it;
    the locale \<open>allocator\<close> is what the pool and \<^verbatim>\<open>av_mallocz\<close> promise to their clients.
  \<^item> \<open>Mux\<close>: \<^verbatim>\<open>encode_and_write_subtitle\<close>; the locale \<open>pts_sink\<close> is what a writer promises about times.
  \<^item> \<open>Demux\<close>: the main loop over the packets, on top of \<open>Mux\<close>, \<open>Dvb_sub\<close> and the cues of \<open>Srt_parser\<close>,
    and the choice of the streams that are replaced.
  \<^item> \<open>Render_pool\<close>: the queue of render jobs with its workers and clients; \<open>pool_step\<close> is the relation
    of all interleavings, with one step per critical section.
  \<^item> \<open>Batch\<close>: the batch driver, with its string vectors, the options, the patterns for episode names,
    the templates, the safety check of paths and the commands it runs.
  \<^item> \<open>Cfloat\<close>, \<open>Getopt\<close>: more of the C library, doubles with \<^verbatim>\<open>strtod\<close> and \<^verbatim>\<open>getopt_long\<close>.
  \<^item> \<open>Positions\<close>, \<open>Png_path\<close>, \<open>Cli\<close>: positions and margins, the directory and the names of pictures, and
    \<^verbatim>\<open>cli_parse\<close> with the global options it sets. The locale \<open>option_handler\<close> is what a handler of an option
    promises, from which follows what the loop over all options keeps.
  \<^item> \<open>Srt_markup\<close>, \<open>Pango_markup\<close>: tags of cues for libass and for Pango.
  \<^item> \<open>Tracks\<close>: \<^verbatim>\<open>ctx_init\<close> and \<^verbatim>\<open>ctx_parse_tracks\<close>, from the options to the tracks and their streams.
  \<^item> \<open>Palette\<close>, \<open>Render_ass\<close>: the palettes, and how the tiles of libass become a bitmap of palette indices.
  \<^item> \<open>Qc_run\<close>: \<^verbatim>\<open>ctx_run_qc_only\<close>, the quick check of files without media output, with its reports.
  \<^item> \<open>Run\<close>: a whole run, \<^verbatim>\<open>srt2dvbsub_run_cli\<close>, from the command line over \<open>Cli\<close>, \<open>Positions\<close>, \<open>Tracks\<close> and
    \<open>Pids\<close> to the main loop of \<open>Demux\<close>, or to the quick check or the preview of pictures; with the choice of the
    font, the arguments of the renderer and the options of the muxer. The record \<open>run_env\<close> holds what comes from
    outside.

  \<^bold>\<open>How code is represented.\<close> A C string is the list of the bytes before its NUL and a pointer into
  it the list from there on. Code that can fail returns \<open>Inl\<close> of a fault: a refused allocation, an
  access outside a buffer, or a bad \<^verbatim>\<open>free\<close>. Which allocations are granted is a parameter, so that
  every failure path is part of the model; so are the addresses \<^verbatim>\<open>av_mallocz\<close> returns, of which
  only freshness is assumed, and the sizes of the structures of libavcodec. The multiplication
  of plane sizes wraps at the width of \<^verbatim>\<open>size_t\<close>, \<^verbatim>\<open>%d\<close> and \<^verbatim>\<open>atoi\<close> truncate to 32 bits.
  The calls into FFmpeg, the renderer and \<^verbatim>\<open>avsubtitle_free\<close> are fields of records of parameters, with
  what is relied on as named hypotheses (\<open>encoder_ok\<close>, \<open>frees_rects\<close>, \<open>bitmap_ok\<close>,
  \<open>renders_ok\<close>).
  All loops over input are total functions; the loop of \<^verbatim>\<open>pool_destroy\<close> has fuel, and the bucket
  limit of 32 is proved to be enough of it.

  \<^bold>\<open>What is shown.\<close> Each property stands after a text with its number. They cover the order of the
  parsed cues and the agreement of reports and statistics with them, the round trips of cues and
  delays, the safety and content preservation of text normalisation, the repair and measuring of
  UTF-8, the option parsers, the pool as a refinement of an abstract allocator, the construction
  of subtitles without leaks, which cues the main loop writes and in which order of times, its memory
  safety, and the safety and progress of the render pool under every schedule,
  and the commands of a batch run, the well-formedness of what the command line leaves behind, and
  which tracks and PIDs it leads to. The properties of \<open>Run\<close> carry this over to a whole run: where it can
  fault, which cues it has written at the end, and the order of their times. Where the code does not do what it means to, a theorem shows it.

  \<^bold>\<open>Not modelled.\<close> Logging and message texts, the progress line and the time measurements. The drawing of
  glyphs in \<^verbatim>\<open>render_text_pango\<close>, which is arithmetic on the surfaces of Cairo: its picture is a parameter, as are
  the tiles of libass and all calls into FFmpeg. The writing of PNG files, the signal handlers, and of
  \<^verbatim>\<open>ctx_cleanup\<close> everything but the encoding buffers. The second program \<^verbatim>\<open>dvdbr2dvbsub.c\<close>, the list of fonts
  \<^verbatim>\<open>fontlist.c\<close>, and the stub for builds without libass.
\<close>

end
